theory Spec2Isabelle
  imports Main "HOL-Library.Word"
begin

section \<open>Data model\<close>

text \<open>
  \<^verbatim>\<open>flow_t\<close> is \<^verbatim>\<open>std::uint32_t\<close>: a 32-bit word, whose \<open>+\<close> and \<open>-\<close> wrap.
  Node identifiers (\<^verbatim>\<open>node_t\<close>, also 32 bits) are only ever used as indices below
  \<open>n\<close>; they are modelled as \<open>nat\<close>. The ranks of the Dinitz solver, which are
  \<^verbatim>\<open>node_t\<close> values that take part in wrapping arithmetic, are 32-bit words.
\<close>

type_synonym flow_t = "32 word"

type_synonym rank_t = "32 word"

record CapacityArc =
  tail :: nat
  head :: nat
  capacity :: flow_t

record FlowNetwork =
  fn_n :: nat
  fn_m :: nat
  fn_source :: nat
  fn_sink :: nat
  fn_arcs :: "CapacityArc list"

record Flow =
  flow_value :: flow_t
  flow_arcs :: "flow_t list"

text \<open>
  A \<^verbatim>\<open>ResidualArc*\<close> is an index into the arena \<open>adjlist\<close>; \<open>None\<close> is the null
  pointer of a value-initialised record.
\<close>

record ResidualArc =
  rhead :: nat
  residual_capacity :: flow_t
  twin :: "nat option"

text \<open>
  A \<^verbatim>\<open>std::span\<close> over the arena is the pair of its begin and end index.
\<close>

record ResidualNetwork =
  rn_n :: nat
  rn_m :: nat
  rn_source :: nat
  rn_sink :: nat
  adjlist :: "ResidualArc list"
  arcs_out_span :: "(nat \<times> nat) list"

definition twin_idx :: "ResidualArc list \<Rightarrow> nat \<Rightarrow> nat" where
  "twin_idx adj p = the (twin (adj ! p))"

definition arc_tail :: "ResidualArc list \<Rightarrow> nat \<Rightarrow> nat" where
  "arc_tail adj p = rhead (adj ! twin_idx adj p)"

definition is_saturated :: "ResidualArc \<Rightarrow> bool" where
  "is_saturated a = (residual_capacity a = 0)"

definition is_residual :: "ResidualArc \<Rightarrow> bool" where
  "is_residual a = (\<not> is_saturated a)"

text \<open>
  \<^verbatim>\<open>push_flow\<close> on the record at index \<open>p\<close>: both updates are 32-bit and wrap.
\<close>

definition push_flow :: "nat \<Rightarrow> flow_t \<Rightarrow> ResidualArc list \<Rightarrow> ResidualArc list" where
  "push_flow p f adj =
     (let adj1 = adj[p := (adj ! p)\<lparr>residual_capacity := residual_capacity (adj ! p) - f\<rparr>];
          t = twin_idx adj1 p
      in adj1[t := (adj1 ! t)\<lparr>residual_capacity := residual_capacity (adj1 ! t) + f\<rparr>])"

section \<open>Construction of the residual network\<close>

definition null_arc :: ResidualArc where
  "null_arc = \<lparr>rhead = 0, residual_capacity = 0, twin = None\<rparr>"

definition degree_step :: "nat list \<Rightarrow> CapacityArc \<Rightarrow> nat list" where
  "degree_step d a = (let d1 = d[tail a := d ! tail a + 1] in d1[head a := d1 ! head a + 1])"

definition compute_degree_out :: "nat \<Rightarrow> CapacityArc list \<Rightarrow> nat list" where
  "compute_degree_out k as = foldl degree_step (replicate k 0) as"

definition iter_step :: "nat list \<Rightarrow> nat list \<times> (nat \<times> nat) list \<Rightarrow> nat
    \<Rightarrow> nat list \<times> (nat \<times> nat) list" where
  "iter_step deg s u = (case s of (it, sp) \<Rightarrow>
     (let it1 = it[u + 1 := it ! u + deg ! u]
      in (it1, sp[u := (it1 ! u, it1 ! (u + 1))])))"

definition setup_iters :: "nat \<Rightarrow> nat list \<Rightarrow> nat list \<times> (nat \<times> nat) list" where
  "setup_iters k deg = foldl (iter_step deg) (replicate (k + 1) 0, replicate k (0, 0)) [0..<k]"

definition fill_step :: "ResidualArc list \<times> nat list \<Rightarrow> CapacityArc
    \<Rightarrow> ResidualArc list \<times> nat list" where
  "fill_step s a = (case s of (adj, it) \<Rightarrow>
     (let u = tail a; v = head a;
          adj1 = adj[it ! u := \<lparr>rhead = v, residual_capacity = capacity a, twin = Some (it ! v)\<rparr>];
          adj2 = adj1[it ! v := \<lparr>rhead = u, residual_capacity = 0, twin = Some (it ! u)\<rparr>];
          it1 = it[u := it ! u + 1];
          it2 = it1[v := it1 ! v + 1]
      in (adj2, it2)))"

definition mk_ResidualNetwork :: "FlowNetwork \<Rightarrow> ResidualNetwork" where
  "mk_ResidualNetwork network =
     (let k = fn_n network; m2 = 2 * fn_m network;
          deg = compute_degree_out k (fn_arcs network);
          (it, sp) = setup_iters k deg;
          (adj, it') = foldl fill_step (replicate m2 null_arc, it) (fn_arcs network)
      in \<lparr>rn_n = k, rn_m = m2, rn_source = fn_source network, rn_sink = fn_sink network,
          adjlist = adj, arcs_out_span = sp\<rparr>)"

section \<open>Flow extraction\<close>

definition extract_step :: "ResidualArc list \<Rightarrow> flow_t list \<times> nat list \<Rightarrow> CapacityArc
    \<Rightarrow> flow_t list \<times> nat list" where
  "extract_step adj s a = (case s of (fl, cur) \<Rightarrow>
     (let fl1 = fl @ [residual_capacity (adj ! twin_idx adj (cur ! tail a))];
          cur1 = cur[tail a := cur ! tail a + 1];
          cur2 = cur1[head a := cur1 ! head a + 1]
      in (fl1, cur2)))"

definition begin_cursors :: "nat \<Rightarrow> ResidualNetwork \<Rightarrow> nat list" where
  "begin_cursors k rn =
     foldl (\<lambda>cur u. cur[u := fst (arcs_out_span rn ! u)]) (replicate k 0) [0..<rn_n rn]"

definition get_flow_arcs :: "FlowNetwork \<Rightarrow> ResidualNetwork \<Rightarrow> flow_t list" where
  "get_flow_arcs network rn =
     fst (foldl (extract_step (adjlist rn)) ([], begin_cursors (fn_n network) rn)
            (fn_arcs network))"

section \<open>Edmonds-Karp\<close>

text \<open>
  The mutable state of \<^verbatim>\<open>edmonds_karp\<close>: the residual network, the BFS worklist, the
  predecessor arcs (\<open>None\<close> is \<^verbatim>\<open>nullptr\<close>) and the accumulated flow value.
  \<open>ek_pushes\<close> is a history variable that is not in the source: it records every call
  \<^verbatim>\<open>arc->push_flow(f)\<close> as the pair of the arc's index and \<open>f\<close>, in call order. The program
  never reads it.
\<close>

record ek_state =
  ek_rnetwork :: ResidualNetwork
  ek_bfs_ordering :: "nat list"
  ek_pred :: "nat option list"
  ek_maxflow :: flow_t
  ek_pushes :: "(nat \<times> flow_t) list"

definition ek_push :: "nat \<Rightarrow> flow_t \<Rightarrow> ek_state \<Rightarrow> ek_state" where
  "ek_push a f s =
     s\<lparr>ek_rnetwork := (ek_rnetwork s)\<lparr>adjlist := push_flow a f (adjlist (ek_rnetwork s))\<rparr>,
       ek_pushes := ek_pushes s @ [(a, f)]\<rparr>"

text \<open>
  The inner loop of \<^verbatim>\<open>bfs_find_augmenting_path\<close> over the arcs of one vertex, given as the
  list of their indices; \<open>lst\<close> is the local \<^verbatim>\<open>last\<close>. The first component of the result
  is \<open>True\<close> when the loop left through \<^verbatim>\<open>return true\<close>.
\<close>

fun ek_scan_arcs :: "nat list \<Rightarrow> nat \<Rightarrow> ek_state \<Rightarrow> bool \<times> nat \<times> ek_state" where
  "ek_scan_arcs [] lst s = (False, lst, s)"
| "ek_scan_arcs (a # as) lst s =
     (let arc = adjlist (ek_rnetwork s) ! a in
      if ek_pred s ! rhead arc = None \<and> is_residual arc \<and> rhead arc \<noteq> rn_source (ek_rnetwork s)
      then (let s1 = s\<lparr>ek_pred := (ek_pred s)[rhead arc := Some a]\<rparr> in
            if rhead arc = rn_sink (ek_rnetwork s) then (True, lst, s1)
            else ek_scan_arcs as (lst + 1)
                   (s1\<lparr>ek_bfs_ordering := (ek_bfs_ordering s1)[lst := rhead arc]\<rparr>))
      else ek_scan_arcs as lst s)"

partial_function (option) ek_bfs_loop :: "nat \<Rightarrow> nat \<Rightarrow> ek_state \<Rightarrow> (bool \<times> ek_state) option" where
  "ek_bfs_loop u lst s =
     (if u \<noteq> lst then
        (let sp = arcs_out_span (ek_rnetwork s) ! (ek_bfs_ordering s ! u) in
         case ek_scan_arcs [fst sp..<snd sp] lst s of
           (found, lst', s') \<Rightarrow> if found then Some (True, s') else ek_bfs_loop (u + 1) lst' s')
      else Some (False, s))"

declare ek_bfs_loop.simps [code]

definition bfs_find_augmenting_path :: "ek_state \<Rightarrow> (bool \<times> ek_state) option" where
  "bfs_find_augmenting_path s =
     ek_bfs_loop 0 1 (s\<lparr>ek_pred := replicate (length (ek_pred s)) None\<rparr>)"

partial_function (option) ek_min_loop :: "ek_state \<Rightarrow> nat option \<Rightarrow> flow_t \<Rightarrow> flow_t option" where
  "ek_min_loop s arc mn =
     (case arc of
        None \<Rightarrow> Some mn
      | Some a \<Rightarrow>
          ek_min_loop s (ek_pred s ! arc_tail (adjlist (ek_rnetwork s)) a)
            (min mn (residual_capacity (adjlist (ek_rnetwork s) ! a))))"

declare ek_min_loop.simps [code]

partial_function (option) ek_push_loop :: "flow_t \<Rightarrow> nat option \<Rightarrow> ek_state \<Rightarrow> ek_state option" where
  "ek_push_loop f arc s =
     (case arc of
        None \<Rightarrow> Some s
      | Some a \<Rightarrow>
          (let s1 = ek_push a f s
           in ek_push_loop f (ek_pred s1 ! arc_tail (adjlist (ek_rnetwork s1)) a) s1))"

declare ek_push_loop.simps [code]

partial_function (option) ek_loop :: "ek_state \<Rightarrow> ek_state option" where
  "ek_loop s =
     Option.bind (bfs_find_augmenting_path s) (\<lambda>r.
       if fst r then
         (let s1 = snd r;
              sink_arc = ek_pred s1 ! rn_sink (ek_rnetwork s1)
          in Option.bind
               (ek_min_loop s1 sink_arc
                  (residual_capacity (adjlist (ek_rnetwork s1) ! the sink_arc))) (\<lambda>mn.
             Option.bind (ek_push_loop mn sink_arc s1) (\<lambda>s2.
               ek_loop (s2\<lparr>ek_maxflow := ek_maxflow s2 + mn\<rparr>))))
       else Some (snd r))"

declare ek_loop.simps [code]

definition ek_init :: "FlowNetwork \<Rightarrow> ek_state" where
  "ek_init network =
     (let rn = mk_ResidualNetwork network
      in \<lparr>ek_rnetwork = rn,
          ek_bfs_ordering = (replicate (rn_n rn) 0)[0 := rn_source rn],
          ek_pred = replicate (rn_n rn) None,
          ek_maxflow = 0,
          ek_pushes = []\<rparr>)"

definition edmonds_karp_run :: "FlowNetwork \<Rightarrow> ek_state option" where
  "edmonds_karp_run network = ek_loop (ek_init network)"

definition edmonds_karp :: "FlowNetwork \<Rightarrow> Flow option" where
  "edmonds_karp network =
     map_option (\<lambda>s. \<lparr>flow_value = ek_maxflow s,
                       flow_arcs = get_flow_arcs network (ek_rnetwork s)\<rparr>)
       (edmonds_karp_run network)"

section \<open>Dinitz-Cherkassky\<close>

text \<open>
  The members of \<^verbatim>\<open>DinitzCherkassky\<close>; \<open>dc_pushes\<close> is the same history variable as
  \<open>ek_pushes\<close>.
\<close>

record dc_state =
  dc_rnetwork :: ResidualNetwork
  dc_current_arc :: "nat list"
  dc_rank :: "rank_t list"
  dc_bfs_ordering :: "nat list"
  dc_pushes :: "(nat \<times> flow_t) list"

definition Unreached :: rank_t where
  "Unreached = 0xFFFFFFFF"

definition InfiniteFlow :: flow_t where
  "InfiniteFlow = 0xFFFFFFFF"

definition dc_push :: "nat \<Rightarrow> flow_t \<Rightarrow> dc_state \<Rightarrow> dc_state" where
  "dc_push a f s =
     s\<lparr>dc_rnetwork := (dc_rnetwork s)\<lparr>adjlist := push_flow a f (adjlist (dc_rnetwork s))\<rparr>,
       dc_pushes := dc_pushes s @ [(a, f)]\<rparr>"

definition dc_init :: "FlowNetwork \<Rightarrow> dc_state" where
  "dc_init network =
     (let rn = mk_ResidualNetwork network
      in \<lparr>dc_rnetwork = rn,
          dc_current_arc = replicate (fn_n network) 0,
          dc_rank = replicate (fn_n network) 0,
          dc_bfs_ordering = (replicate (fn_n network) 0)[0 := rn_sink rn],
          dc_pushes = []\<rparr>)"

definition reset_current_arc :: "dc_state \<Rightarrow> dc_state" where
  "reset_current_arc s =
     s\<lparr>dc_current_arc :=
         foldl (\<lambda>cur u. cur[u := fst (arcs_out_span (dc_rnetwork s) ! u)])
           (dc_current_arc s) [0..<rn_n (dc_rnetwork s)]\<rparr>"

text \<open>
  One iteration of the inner loop of \<^verbatim>\<open>bfs_compute_rank\<close>: \<open>u\<close> is the position of the
  outer iterator in \<^verbatim>\<open>bfs_ordering\<close>, \<open>a\<close> the index of the arc.
\<close>

definition dc_rank_step :: "nat \<Rightarrow> nat \<times> dc_state \<Rightarrow> nat \<Rightarrow> nat \<times> dc_state" where
  "dc_rank_step u ls a = (case ls of (lst, s) \<Rightarrow>
     (let adj = adjlist (dc_rnetwork s); arc = adj ! a in
      if dc_rank s ! rhead arc = Unreached \<and> is_residual (adj ! twin_idx adj a)
      then (lst + 1,
            s\<lparr>dc_rank := (dc_rank s)[rhead arc := dc_rank s ! (dc_bfs_ordering s ! u) + 1],
              dc_bfs_ordering := (dc_bfs_ordering s)[lst := rhead arc]\<rparr>)
      else (lst, s)))"

partial_function (option) dc_bfs_loop :: "nat \<Rightarrow> nat \<Rightarrow> dc_state \<Rightarrow> dc_state option" where
  "dc_bfs_loop u lst s =
     (if u \<noteq> lst then
        (let sp = arcs_out_span (dc_rnetwork s) ! (dc_bfs_ordering s ! u) in
         case foldl (dc_rank_step u) (lst, s) [fst sp..<snd sp] of
           (lst', s') \<Rightarrow> dc_bfs_loop (u + 1) lst' s')
      else Some s)"

declare dc_bfs_loop.simps [code]

definition bfs_compute_rank :: "dc_state \<Rightarrow> (bool \<times> dc_state) option" where
  "bfs_compute_rank s =
     map_option (\<lambda>s'. (dc_rank s' ! rn_source (dc_rnetwork s') \<noteq> Unreached, s'))
       (dc_bfs_loop 0 1
          (s\<lparr>dc_rank := (replicate (length (dc_rank s)) Unreached)[rn_sink (dc_rnetwork s) := 0]\<rparr>))"

text \<open>
  \<^verbatim>\<open>dfs_phase_loop\<close>. The \<^verbatim>\<open>for\<close> loop over \<^verbatim>\<open>current_arc[u]\<close> is the recursion on the
  same \<open>u\<close> and \<open>flow\<close> with the cursor advanced; \<open>a\<close> is the arc bound to the reference
  \<^verbatim>\<open>arc\<close> before the recursive call.
\<close>

partial_function (option) dfs_phase_loop :: "nat \<Rightarrow> flow_t \<Rightarrow> dc_state \<Rightarrow> (flow_t \<times> dc_state) option" where
  "dfs_phase_loop u flow s =
     (if flow = 0 \<or> u = rn_sink (dc_rnetwork s) then Some (flow, s)
      else if dc_current_arc s ! u = snd (arcs_out_span (dc_rnetwork s) ! u) then Some (0, s)
      else
        (let a = dc_current_arc s ! u; arc = adjlist (dc_rnetwork s) ! a in
         if dc_rank s ! u = dc_rank s ! rhead arc + 1 \<and> is_residual arc then
           Option.bind (dfs_phase_loop (rhead arc) (min flow (residual_capacity arc)) s) (\<lambda>r.
             if fst r > 0 then Some (fst r, dc_push a (fst r) (snd r))
             else dfs_phase_loop u flow
                    ((snd r)\<lparr>dc_current_arc :=
                        (dc_current_arc (snd r))[u := dc_current_arc (snd r) ! u + 1]\<rparr>))
         else dfs_phase_loop u flow
                (s\<lparr>dc_current_arc := (dc_current_arc s)[u := dc_current_arc s ! u + 1]\<rparr>)))"

declare dfs_phase_loop.simps [code]

text \<open>
  The loop \<^verbatim>\<open>for (flow_t df = InfiniteFlow; df; maxflow += df) df = dfs_phase_loop(...)\<close>.
\<close>

partial_function (option) dc_phase_loop :: "flow_t \<Rightarrow> flow_t \<Rightarrow> dc_state \<Rightarrow> (flow_t \<times> dc_state) option" where
  "dc_phase_loop df maxflow s =
     (if df \<noteq> 0 then
        Option.bind (dfs_phase_loop (rn_source (dc_rnetwork s)) InfiniteFlow s) (\<lambda>r.
          dc_phase_loop (fst r) (maxflow + fst r) (snd r))
      else Some (maxflow, s))"

declare dc_phase_loop.simps [code]

partial_function (option) dc_loop :: "flow_t \<Rightarrow> dc_state \<Rightarrow> (flow_t \<times> dc_state) option" where
  "dc_loop maxflow s =
     Option.bind (bfs_compute_rank s) (\<lambda>r.
       if fst r then
         Option.bind (dc_phase_loop InfiniteFlow maxflow (reset_current_arc (snd r))) (\<lambda>r2.
           dc_loop (fst r2) (snd r2))
       else Some (maxflow, snd r))"

declare dc_loop.simps [code]

definition dinitz_cherkassky_run :: "FlowNetwork \<Rightarrow> (flow_t \<times> dc_state) option" where
  "dinitz_cherkassky_run network = dc_loop 0 (dc_init network)"

definition dinitz_cherkassky :: "FlowNetwork \<Rightarrow> Flow option" where
  "dinitz_cherkassky network =
     map_option (\<lambda>r. \<lparr>flow_value = fst r,
                       flow_arcs = get_flow_arcs network (dc_rnetwork (snd r))\<rparr>)
       (dinitz_cherkassky_run network)"

section \<open>Specification\<close>

text \<open>
  \<open>occ v as\<close> counts the occurrences of vertex \<open>v\<close> as an endpoint in the arc sequence:
  the value of \<^verbatim>\<open>degree_out[v]\<close> after the first loop of the constructor.
\<close>

fun occ :: "nat \<Rightarrow> CapacityArc list \<Rightarrow> nat" where
  "occ v [] = 0"
| "occ v (a # as) = (if tail a = v then 1 else 0) + (if head a = v then 1 else 0) + occ v as"

text \<open>The prefix sums of the degrees: where the range of vertex \<open>u\<close> begins in the arena.\<close>

definition offs :: "nat list \<Rightarrow> nat \<Rightarrow> nat" where
  "offs deg u = sum_list (take u deg)"

definition endpoints_below :: "nat \<Rightarrow> CapacityArc list \<Rightarrow> bool" where
  "endpoints_below k as = list_all (\<lambda>a. tail a < k \<and> head a < k) as"

definition incident :: "CapacityArc \<Rightarrow> nat \<Rightarrow> bool" where
  "incident a v = (tail a = v \<or> head a = v)"

text \<open>
  The position in the arena at which the \<open>j\<close>-th arc puts its record for endpoint \<open>u\<close>:
  the begin of the range of \<open>u\<close> plus the number of earlier occurrences of \<open>u\<close>.
\<close>

definition slot :: "nat list \<Rightarrow> CapacityArc list \<Rightarrow> nat \<Rightarrow> nat \<Rightarrow> nat" where
  "slot deg as u j = offs deg u + occ u (take j as)"

definition fwd_rec :: "nat list \<Rightarrow> CapacityArc list \<Rightarrow> nat \<Rightarrow> ResidualArc" where
  "fwd_rec deg as i = \<lparr>rhead = head (as ! i), residual_capacity = capacity (as ! i),
     twin = Some (slot deg as (head (as ! i)) i)\<rparr>"

definition bwd_rec :: "nat list \<Rightarrow> CapacityArc list \<Rightarrow> nat \<Rightarrow> ResidualArc" where
  "bwd_rec deg as i = \<lparr>rhead = tail (as ! i), residual_capacity = 0,
     twin = Some (slot deg as (tail (as ! i)) i)\<rparr>"

definition no_self_loops :: "CapacityArc list \<Rightarrow> bool" where
  "no_self_loops as = list_all (\<lambda>a. tail a \<noteq> head a) as"

text \<open>
  A valid network: \<open>m\<close> is the number of arcs, source, sink and the endpoints of every arc
  are vertices, source and sink differ, no arc is a self-loop, and the sizes \<open>n\<close> and \<open>2m\<close>
  fit the 32-bit \<^verbatim>\<open>node_t\<close> in which the constructor counts degrees and the solvers store
  vertices and ranks.
\<close>

definition valid_network :: "FlowNetwork \<Rightarrow> bool" where
  "valid_network network =
     (fn_m network = length (fn_arcs network)
      \<and> fn_source network < fn_n network \<and> fn_sink network < fn_n network
      \<and> fn_source network \<noteq> fn_sink network
      \<and> endpoints_below (fn_n network) (fn_arcs network)
      \<and> no_self_loops (fn_arcs network)
      \<and> fn_n network < 2 ^ 32 \<and> 2 * fn_m network < 2 ^ 32)"

definition net_deg :: "FlowNetwork \<Rightarrow> nat list" where
  "net_deg network = map (\<lambda>v. occ v (fn_arcs network)) [0..<fn_n network]"

text \<open>The positions in the arena of the forward and of the backward record of arc \<open>i\<close>.\<close>

definition fwd_pos :: "FlowNetwork \<Rightarrow> nat \<Rightarrow> nat" where
  "fwd_pos network i =
     slot (net_deg network) (fn_arcs network) (tail (fn_arcs network ! i)) i"

definition bwd_pos :: "FlowNetwork \<Rightarrow> nat \<Rightarrow> nat" where
  "bwd_pos network i =
     slot (net_deg network) (fn_arcs network) (head (fn_arcs network ! i)) i"

definition span_of :: "(nat \<times> nat) list \<Rightarrow> nat \<Rightarrow> nat set" where
  "span_of sp u = {fst (sp ! u) ..< snd (sp ! u)}"

definition arena_ok :: "nat \<Rightarrow> (nat \<times> nat) list \<Rightarrow> ResidualArc list \<Rightarrow> bool" where
  "arena_ok k sp adj =
     (length sp = k
      \<and> (\<forall>u<k. span_of sp u \<subseteq> {..<length adj})
      \<and> (\<forall>u<k. \<forall>w<k. u \<noteq> w \<longrightarrow> span_of sp u \<inter> span_of sp w = {})
      \<and> (\<forall>p<length adj. \<exists>q<length adj.
            twin (adj ! p) = Some q \<and> twin (adj ! q) = Some p
            \<and> rhead (adj ! p) < k \<and> q \<in> span_of sp (rhead (adj ! p))
            \<and> p \<notin> span_of sp (rhead (adj ! p))))"

definition same_shape :: "ResidualArc list \<Rightarrow> ResidualArc list \<Rightarrow> bool" where
  "same_shape adj adj' =
     (length adj' = length adj
      \<and> (\<forall>p<length adj. rhead (adj' ! p) = rhead (adj ! p) \<and> twin (adj' ! p) = twin (adj ! p)))"

text \<open>
  A sequence of \<^verbatim>\<open>push_flow\<close> calls, each given as the position of the record and the
  amount. It is valid from an arena when every call is on a record of the arena with an amount
  at most the residual capacity the record has at that moment. \<open>apply_pushes\<close> performs the
  calls in order, and \<open>pushed_on p\<close> is the total amount pushed on record \<open>p\<close>.
\<close>

fun valid_pushes :: "(nat \<times> flow_t) list \<Rightarrow> ResidualArc list \<Rightarrow> bool" where
  "valid_pushes [] adj = True"
| "valid_pushes (x # xs) adj =
     (fst x < length adj \<and> snd x \<le> residual_capacity (adj ! fst x)
      \<and> valid_pushes xs (push_flow (fst x) (snd x) adj))"

fun apply_pushes :: "(nat \<times> flow_t) list \<Rightarrow> ResidualArc list \<Rightarrow> ResidualArc list" where
  "apply_pushes [] adj = adj"
| "apply_pushes (x # xs) adj = apply_pushes xs (push_flow (fst x) (snd x) adj)"

fun pushed_on :: "nat \<Rightarrow> (nat \<times> flow_t) list \<Rightarrow> nat" where
  "pushed_on p [] = 0"
| "pushed_on p (x # xs) = (if fst x = p then unat (snd x) else 0) + pushed_on p xs"

text \<open>The network of \<^verbatim>\<open>minimal_example\<close> in \<^verbatim>\<open>main.cpp\<close>.\<close>

definition minimal_example :: FlowNetwork where
  "minimal_example = \<lparr>fn_n = 6, fn_m = 9, fn_source = 0, fn_sink = 5, fn_arcs = [
     \<lparr>tail = 0, head = 1, capacity = 10\<rparr>, \<lparr>tail = 0, head = 2, capacity = 10\<rparr>,
     \<lparr>tail = 1, head = 2, capacity = 2\<rparr>, \<lparr>tail = 1, head = 3, capacity = 4\<rparr>,
     \<lparr>tail = 1, head = 4, capacity = 8\<rparr>, \<lparr>tail = 2, head = 4, capacity = 9\<rparr>,
     \<lparr>tail = 3, head = 5, capacity = 10\<rparr>, \<lparr>tail = 4, head = 3, capacity = 6\<rparr>,
     \<lparr>tail = 4, head = 5, capacity = 10\<rparr>]\<rparr>"

definition pair_ok :: "ResidualArc list \<Rightarrow> ResidualArc list \<Rightarrow> bool" where
  "pair_ok adj0 adj =
     (same_shape adj0 adj
      \<and> (\<forall>p<length adj0.
            unat (residual_capacity (adj ! p)) + unat (residual_capacity (adj ! twin_idx adj0 p))
          = unat (residual_capacity (adj0 ! p)) + unat (residual_capacity (adj0 ! twin_idx adj0 p))))"

definition caps_bounded :: "ResidualArc list \<Rightarrow> bool" where
  "caps_bounded adj0 =
     (\<forall>p<length adj0.
        unat (residual_capacity (adj0 ! p)) + unat (residual_capacity (adj0 ! twin_idx adj0 p))
          < 2 ^ 32)"

definition span_sum :: "(nat \<times> nat) list \<Rightarrow> ResidualArc list \<Rightarrow> nat \<Rightarrow> nat" where
  "span_sum sp adj v = (\<Sum>p\<in>span_of sp v. unat (residual_capacity (adj ! p)))"

definition tails_at :: "ResidualArc list \<Rightarrow> nat \<Rightarrow> nat list \<Rightarrow> nat" where
  "tails_at adj v cs = length (filter (\<lambda>a. arc_tail adj a = v) cs)"

definition heads_at :: "ResidualArc list \<Rightarrow> nat \<Rightarrow> nat list \<Rightarrow> nat" where
  "heads_at adj v cs = length (filter (\<lambda>a. rhead (adj ! a) = v) cs)"

fun chain :: "ResidualArc list \<Rightarrow> nat option list \<Rightarrow> nat \<Rightarrow> nat \<Rightarrow> nat list \<Rightarrow> bool" where
  "chain adj prd s v [] = (v = s \<and> prd ! s = None)"
| "chain adj prd s v (a # as) =
     (v \<noteq> s \<and> prd ! v = Some a \<and> a < length adj \<and> rhead (adj ! a) = v
      \<and> chain adj prd s (arc_tail adj a) as)"

definition ek_static :: "ek_state \<Rightarrow> bool" where
  "ek_static st =
     (arena_ok (rn_n (ek_rnetwork st)) (arcs_out_span (ek_rnetwork st)) (adjlist (ek_rnetwork st))
      \<and> rn_source (ek_rnetwork st) < rn_n (ek_rnetwork st)
      \<and> rn_sink (ek_rnetwork st) < rn_n (ek_rnetwork st)
      \<and> rn_source (ek_rnetwork st) \<noteq> rn_sink (ek_rnetwork st)
      \<and> length (ek_pred st) = rn_n (ek_rnetwork st)
      \<and> length (ek_bfs_ordering st) = rn_n (ek_rnetwork st)
      \<and> ek_bfs_ordering st ! 0 = rn_source (ek_rnetwork st))"

definition ek_pred_residual :: "ek_state \<Rightarrow> bool" where
  "ek_pred_residual st =
     (\<forall>v<rn_n (ek_rnetwork st). \<forall>a. ek_pred st ! v = Some a
        \<longrightarrow> residual_capacity (adjlist (ek_rnetwork st) ! a) \<noteq> 0)"

definition ek_bfs_inv :: "nat \<Rightarrow> ek_state \<Rightarrow> bool" where
  "ek_bfs_inv lst st =
     (ek_static st \<and> 1 \<le> lst \<and> lst \<le> rn_n (ek_rnetwork st)
      \<and> distinct (take lst (ek_bfs_ordering st))
      \<and> (\<forall>j<lst. ek_bfs_ordering st ! j < rn_n (ek_rnetwork st))
      \<and> (\<forall>v<rn_n (ek_rnetwork st).
            ek_pred st ! v \<noteq> None \<longleftrightarrow> (\<exists>j. 0 < j \<and> j < lst \<and> ek_bfs_ordering st ! j = v))
      \<and> (\<forall>j<lst. \<exists>cs. chain (adjlist (ek_rnetwork st)) (ek_pred st)
                          (rn_source (ek_rnetwork st)) (ek_bfs_ordering st ! j) cs)
      \<and> ek_pred st ! rn_sink (ek_rnetwork st) = None
      \<and> ek_pred_residual st)"

definition ek_ext :: "nat \<Rightarrow> ek_state \<Rightarrow> nat \<Rightarrow> ek_state \<Rightarrow> bool" where
  "ek_ext lst st lst' st' =
     (ek_rnetwork st' = ek_rnetwork st \<and> ek_maxflow st' = ek_maxflow st
      \<and> ek_pushes st' = ek_pushes st \<and> lst \<le> lst'
      \<and> take lst (ek_bfs_ordering st') = take lst (ek_bfs_ordering st)
      \<and> (\<forall>v<rn_n (ek_rnetwork st). ek_pred st ! v \<noteq> None \<longrightarrow> ek_pred st' ! v = ek_pred st ! v))"

definition ek_scanned :: "ek_state \<Rightarrow> nat set \<Rightarrow> bool" where
  "ek_scanned st S =
     (\<forall>a\<in>S. residual_capacity (adjlist (ek_rnetwork st) ! a) \<noteq> 0
        \<longrightarrow> rhead (adjlist (ek_rnetwork st) ! a) = rn_source (ek_rnetwork st)
          \<or> ek_pred st ! rhead (adjlist (ek_rnetwork st) ! a) \<noteq> None)"

definition ek_found :: "ek_state \<Rightarrow> bool" where
  "ek_found st =
     (ek_static st
      \<and> (\<exists>cs. chain (adjlist (ek_rnetwork st)) (ek_pred st) (rn_source (ek_rnetwork st))
                (rn_sink (ek_rnetwork st)) cs)
      \<and> ek_pred_residual st)"

definition ek_same :: "ek_state \<Rightarrow> ek_state \<Rightarrow> bool" where
  "ek_same st st' =
     (ek_rnetwork st' = ek_rnetwork st \<and> ek_maxflow st' = ek_maxflow st
      \<and> ek_pushes st' = ek_pushes st)"

text \<open>
  \<open>res_path adj u ps v\<close>: the records at positions \<open>ps\<close> form a path from \<open>u\<close> to \<open>v\<close>, each
  of them with positive residual capacity.
\<close>

fun res_path :: "ResidualArc list \<Rightarrow> nat \<Rightarrow> nat list \<Rightarrow> nat \<Rightarrow> bool" where
  "res_path adj u [] v = (u = v)"
| "res_path adj u (p # ps) v =
     (p < length adj \<and> arc_tail adj p = u \<and> residual_capacity (adj ! p) \<noteq> 0
      \<and> res_path adj (rhead (adj ! p)) ps v)"

definition res_closed :: "ResidualArc list \<Rightarrow> nat set \<Rightarrow> bool" where
  "res_closed adj D =
     (\<forall>p<length adj. arc_tail adj p \<in> D \<and> residual_capacity (adj ! p) \<noteq> 0
        \<longrightarrow> rhead (adj ! p) \<in> D)"

definition ek_closed :: "nat \<Rightarrow> ek_state \<Rightarrow> bool" where
  "ek_closed i st =
     (\<forall>j<i. ek_scanned st (span_of (arcs_out_span (ek_rnetwork st)) (ek_bfs_ordering st ! j)))"

definition ek_cut :: "ek_state \<Rightarrow> bool" where
  "ek_cut st =
     (\<exists>D. rn_source (ek_rnetwork st) \<in> D \<and> rn_sink (ek_rnetwork st) \<notin> D
        \<and> D \<subseteq> {..<rn_n (ek_rnetwork st)} \<and> res_closed (adjlist (ek_rnetwork st)) D)"

fun back_path :: "ResidualArc list \<Rightarrow> nat \<Rightarrow> nat list \<Rightarrow> nat \<Rightarrow> bool" where
  "back_path adj v [] u = (v = u)"
| "back_path adj v (a # as) u =
     (a < length adj \<and> rhead (adj ! a) = v \<and> back_path adj (arc_tail adj a) as u)"

text \<open>
  The invariant of the residual arena \<open>adj\<close> of a solver, against the constructed network
  \<open>rn0\<close>: the sum over each pair of records is kept; so is the sum over the range of every
  vertex other than source and sink; the accumulator \<open>mf\<close> is the 32-bit image of what the
  range of the source lost, which is what the range of the sink gained; and \<open>adj\<close> is the
  constructed arena after the logged calls, all of them valid and of positive amount.
\<close>

definition flow_state_ok :: "ResidualNetwork \<Rightarrow> ResidualArc list \<Rightarrow> (nat \<times> flow_t) list
    \<Rightarrow> flow_t \<Rightarrow> bool" where
  "flow_state_ok rn0 adj pushes mf =
     (pair_ok (adjlist rn0) adj
      \<and> (\<forall>v<rn_n rn0. v \<noteq> rn_source rn0 \<longrightarrow> v \<noteq> rn_sink rn0
            \<longrightarrow> span_sum (arcs_out_span rn0) adj v = span_sum (arcs_out_span rn0) (adjlist rn0) v)
      \<and> span_sum (arcs_out_span rn0) adj (rn_source rn0)
          \<le> span_sum (arcs_out_span rn0) (adjlist rn0) (rn_source rn0)
      \<and> mf = of_nat (span_sum (arcs_out_span rn0) (adjlist rn0) (rn_source rn0)
                      - span_sum (arcs_out_span rn0) adj (rn_source rn0))
      \<and> span_sum (arcs_out_span rn0) adj (rn_sink rn0)
          + span_sum (arcs_out_span rn0) adj (rn_source rn0)
        = span_sum (arcs_out_span rn0) (adjlist rn0) (rn_sink rn0)
          + span_sum (arcs_out_span rn0) (adjlist rn0) (rn_source rn0)
      \<and> valid_pushes pushes (adjlist rn0) \<and> adj = apply_pushes pushes (adjlist rn0)
      \<and> (\<forall>x\<in>set pushes. snd x \<noteq> 0))"

definition min_rc :: "ResidualArc list \<Rightarrow> flow_t \<Rightarrow> nat list \<Rightarrow> flow_t" where
  "min_rc adj mn cs = foldl (\<lambda>m a. min m (residual_capacity (adj ! a))) mn cs"

definition rn_ok :: "ResidualNetwork \<Rightarrow> bool" where
  "rn_ok rn0 =
     (arena_ok (rn_n rn0) (arcs_out_span rn0) (adjlist rn0) \<and> caps_bounded (adjlist rn0)
      \<and> rn_source rn0 < rn_n rn0 \<and> rn_sink rn0 < rn_n rn0 \<and> rn_source rn0 \<noteq> rn_sink rn0
      \<and> rn_n rn0 < 2 ^ 32
      \<and> (\<forall>v<rn_n rn0. fst (arcs_out_span rn0 ! v) \<le> snd (arcs_out_span rn0 ! v)))"

definition ek_inv :: "ResidualNetwork \<Rightarrow> ek_state \<Rightarrow> bool" where
  "ek_inv rn0 st =
     (ek_rnetwork st = rn0\<lparr>adjlist := adjlist (ek_rnetwork st)\<rparr>
      \<and> length (ek_pred st) = rn_n rn0 \<and> length (ek_bfs_ordering st) = rn_n rn0
      \<and> ek_bfs_ordering st ! 0 = rn_source rn0
      \<and> flow_state_ok rn0 (adjlist (ek_rnetwork st)) (ek_pushes st) (ek_maxflow st))"

definition dc_static :: "dc_state \<Rightarrow> bool" where
  "dc_static st =
     (arena_ok (rn_n (dc_rnetwork st)) (arcs_out_span (dc_rnetwork st)) (adjlist (dc_rnetwork st))
      \<and> rn_source (dc_rnetwork st) < rn_n (dc_rnetwork st)
      \<and> rn_sink (dc_rnetwork st) < rn_n (dc_rnetwork st)
      \<and> rn_source (dc_rnetwork st) \<noteq> rn_sink (dc_rnetwork st)
      \<and> rn_n (dc_rnetwork st) < 2 ^ 32
      \<and> length (dc_rank st) = rn_n (dc_rnetwork st)
      \<and> length (dc_current_arc st) = rn_n (dc_rnetwork st)
      \<and> length (dc_bfs_ordering st) = rn_n (dc_rnetwork st)
      \<and> dc_bfs_ordering st ! 0 = rn_sink (dc_rnetwork st))"

definition dc_parent :: "dc_state \<Rightarrow> nat \<Rightarrow> bool" where
  "dc_parent st v =
     (\<exists>q<length (adjlist (dc_rnetwork st)).
        arc_tail (adjlist (dc_rnetwork st)) q = v
        \<and> residual_capacity (adjlist (dc_rnetwork st) ! q) \<noteq> 0
        \<and> dc_rank st ! v = dc_rank st ! rhead (adjlist (dc_rnetwork st) ! q) + 1
        \<and> dc_rank st ! rhead (adjlist (dc_rnetwork st) ! q) \<noteq> Unreached)"

definition dc_bfs_inv :: "nat \<Rightarrow> dc_state \<Rightarrow> bool" where
  "dc_bfs_inv lst st =
     (dc_static st \<and> 1 \<le> lst \<and> lst \<le> rn_n (dc_rnetwork st)
      \<and> distinct (take lst (dc_bfs_ordering st))
      \<and> (\<forall>j<lst. dc_bfs_ordering st ! j < rn_n (dc_rnetwork st))
      \<and> (\<forall>v<rn_n (dc_rnetwork st).
            dc_rank st ! v \<noteq> Unreached \<longleftrightarrow> (\<exists>j<lst. dc_bfs_ordering st ! j = v))
      \<and> dc_rank st ! rn_sink (dc_rnetwork st) = 0
      \<and> (\<forall>j<lst. unat (dc_rank st ! (dc_bfs_ordering st ! j)) \<le> j)
      \<and> (\<forall>j. 0 < j \<and> j < lst \<longrightarrow> dc_rank st ! (dc_bfs_ordering st ! j) \<noteq> 0)
      \<and> (\<forall>j. 0 < j \<and> j < lst \<longrightarrow> dc_parent st (dc_bfs_ordering st ! j)))"

definition dc_ext :: "nat \<Rightarrow> dc_state \<Rightarrow> nat \<Rightarrow> dc_state \<Rightarrow> bool" where
  "dc_ext lst st lst' st' =
     (dc_rnetwork st' = dc_rnetwork st \<and> dc_current_arc st' = dc_current_arc st
      \<and> dc_pushes st' = dc_pushes st \<and> lst \<le> lst'
      \<and> take lst (dc_bfs_ordering st') = take lst (dc_bfs_ordering st)
      \<and> (\<forall>v<rn_n (dc_rnetwork st). dc_rank st ! v \<noteq> Unreached
            \<longrightarrow> dc_rank st' ! v = dc_rank st ! v))"

definition dc_scanned :: "dc_state \<Rightarrow> nat set \<Rightarrow> bool" where
  "dc_scanned st S =
     (\<forall>a\<in>S. residual_capacity (adjlist (dc_rnetwork st)
                  ! twin_idx (adjlist (dc_rnetwork st)) a) \<noteq> 0
        \<longrightarrow> dc_rank st ! rhead (adjlist (dc_rnetwork st) ! a) \<noteq> Unreached)"

definition dc_closed :: "nat \<Rightarrow> dc_state \<Rightarrow> bool" where
  "dc_closed i st =
     (\<forall>j<i. dc_scanned st (span_of (arcs_out_span (dc_rnetwork st)) (dc_bfs_ordering st ! j)))"

definition dc_same :: "dc_state \<Rightarrow> dc_state \<Rightarrow> bool" where
  "dc_same st st' =
     (dc_rnetwork st' = dc_rnetwork st \<and> dc_current_arc st' = dc_current_arc st
      \<and> dc_pushes st' = dc_pushes st)"

text \<open>
  A set of vertices with the source and without the sink that no record of positive residual
  capacity leaves.
\<close>

definition saturated_cut :: "ResidualNetwork \<Rightarrow> bool" where
  "saturated_cut rn =
     (\<exists>D. rn_source rn \<in> D \<and> rn_sink rn \<notin> D \<and> D \<subseteq> {..<rn_n rn}
        \<and> res_closed (adjlist rn) D)"

definition dc_ranked :: "dc_state \<Rightarrow> bool" where
  "dc_ranked st =
     ((\<forall>v<rn_n (dc_rnetwork st). dc_rank st ! v = 0 \<longrightarrow> v = rn_sink (dc_rnetwork st))
      \<and> (\<forall>v<rn_n (dc_rnetwork st). dc_rank st ! v \<noteq> Unreached
            \<longrightarrow> v \<noteq> rn_sink (dc_rnetwork st) \<longrightarrow> dc_parent st v)
      \<and> dc_rank st ! rn_source (dc_rnetwork st) \<noteq> Unreached)"

inductive dc_alive :: "dc_state \<Rightarrow> nat \<Rightarrow> bool" for st :: dc_state where
  alive_sink: "dc_alive st (rn_sink (dc_rnetwork st))"
| alive_arc: "q < length (adjlist (dc_rnetwork st))
    \<Longrightarrow> dc_current_arc st ! arc_tail (adjlist (dc_rnetwork st)) q \<le> q
    \<Longrightarrow> dc_rank st ! arc_tail (adjlist (dc_rnetwork st)) q
          = dc_rank st ! rhead (adjlist (dc_rnetwork st) ! q) + 1
    \<Longrightarrow> residual_capacity (adjlist (dc_rnetwork st) ! q) \<noteq> 0
    \<Longrightarrow> dc_alive st (rhead (adjlist (dc_rnetwork st) ! q))
    \<Longrightarrow> dc_alive st (arc_tail (adjlist (dc_rnetwork st)) q)"

definition dc_dfs_pre :: "dc_state \<Rightarrow> bool" where
  "dc_dfs_pre st =
     (dc_static st
      \<and> (\<forall>v<rn_n (dc_rnetwork st). dc_rank st ! v = 0 \<longrightarrow> v = rn_sink (dc_rnetwork st))
      \<and> (\<forall>v<rn_n (dc_rnetwork st).
            fst (arcs_out_span (dc_rnetwork st) ! v) \<le> dc_current_arc st ! v
            \<and> dc_current_arc st ! v \<le> snd (arcs_out_span (dc_rnetwork st) ! v)))"

definition dc_result :: "dc_state \<Rightarrow> nat list \<Rightarrow> flow_t \<Rightarrow> nat list \<Rightarrow> dc_state" where
  "dc_result st cur df cs =
     st\<lparr>dc_current_arc := cur,
        dc_rnetwork := (dc_rnetwork st)\<lparr>adjlist :=
           apply_pushes (map (\<lambda>a. (a, df)) cs) (adjlist (dc_rnetwork st))\<rparr>,
        dc_pushes := dc_pushes st @ map (\<lambda>a. (a, df)) cs\<rparr>"

definition dfs_post :: "dc_state \<Rightarrow> nat \<Rightarrow> flow_t \<Rightarrow> flow_t \<Rightarrow> dc_state \<Rightarrow> bool" where
  "dfs_post st u flow df st' =
     (\<exists>cs. st' = dc_result st (dc_current_arc st') df cs \<and> df \<le> flow
        \<and> length (dc_current_arc st') = rn_n (dc_rnetwork st)
        \<and> (\<forall>v<rn_n (dc_rnetwork st).
              fst (arcs_out_span (dc_rnetwork st) ! v) \<le> dc_current_arc st' ! v
              \<and> dc_current_arc st' ! v \<le> snd (arcs_out_span (dc_rnetwork st) ! v))
        \<and> (\<forall>v<rn_n (dc_rnetwork st). unat (dc_rank st ! u) < unat (dc_rank st ! v)
              \<longrightarrow> dc_current_arc st' ! v = dc_current_arc st ! v)
        \<and> (df = 0 \<longrightarrow> cs = []
              \<and> (flow \<noteq> 0 \<longrightarrow> \<not> dc_alive st u \<and> (\<forall>v. dc_alive st' v \<longleftrightarrow> dc_alive st v)))
        \<and> (df \<noteq> 0 \<longrightarrow>
              back_path (adjlist (dc_rnetwork st)) (rn_sink (dc_rnetwork st)) cs u
              \<and> distinct cs
              \<and> (\<forall>a\<in>set cs. df \<le> residual_capacity (adjlist (dc_rnetwork st) ! a)
                    \<and> unat (dc_rank st ! arc_tail (adjlist (dc_rnetwork st)) a)
                        \<le> unat (dc_rank st ! u))))"

definition dc_inv :: "ResidualNetwork \<Rightarrow> flow_t \<Rightarrow> dc_state \<Rightarrow> bool" where
  "dc_inv rn0 mf st =
     (dc_rnetwork st = rn0\<lparr>adjlist := adjlist (dc_rnetwork st)\<rparr>
      \<and> length (dc_rank st) = rn_n rn0 \<and> length (dc_current_arc st) = rn_n rn0
      \<and> length (dc_bfs_ordering st) = rn_n rn0
      \<and> dc_bfs_ordering st ! 0 = rn_sink rn0
      \<and> flow_state_ok rn0 (adjlist (dc_rnetwork st)) (dc_pushes st) mf)"

text \<open>
  Flows on the arcs of a network, as lists of natural numbers indexed like the arcs: the flow
  leaving and entering a vertex, the capacity and conservation constraints, and the value of a
  flow, which is the net flow leaving the source.
\<close>

definition flow_out :: "FlowNetwork \<Rightarrow> nat list \<Rightarrow> nat \<Rightarrow> nat" where
  "flow_out network g v =
     sum_list (map (\<lambda>i. if tail (fn_arcs network ! i) = v then g ! i else 0) [0..<fn_m network])"

definition flow_in :: "FlowNetwork \<Rightarrow> nat list \<Rightarrow> nat \<Rightarrow> nat" where
  "flow_in network g v =
     sum_list (map (\<lambda>i. if head (fn_arcs network ! i) = v then g ! i else 0) [0..<fn_m network])"

definition is_flow :: "FlowNetwork \<Rightarrow> nat list \<Rightarrow> bool" where
  "is_flow network g =
     (length g = fn_m network
      \<and> list_all (\<lambda>i. g ! i \<le> unat (capacity (fn_arcs network ! i))) [0..<fn_m network]
      \<and> list_all (\<lambda>v. v = fn_source network \<or> v = fn_sink network
                        \<or> flow_in network g v = flow_out network g v) [0..<fn_n network])"

definition flow_val :: "FlowNetwork \<Rightarrow> nat list \<Rightarrow> int" where
  "flow_val network g =
     int (flow_out network g (fn_source network)) - int (flow_in network g (fn_source network))"

text \<open>The residual capacities of the backward records, in arc order.\<close>

definition arc_flows :: "FlowNetwork \<Rightarrow> ResidualArc list \<Rightarrow> flow_t list" where
  "arc_flows network adj =
     map (\<lambda>i. residual_capacity (adj ! bwd_pos network i)) [0..<fn_m network]"

text \<open>
  What the invariant of a solver state and a saturated cut say about the returned
  \<^verbatim>\<open>Flow\<close>, for either solver.
\<close>

definition max_flow_result :: "FlowNetwork \<Rightarrow> Flow \<Rightarrow> bool" where
  "max_flow_result network f =
     (length (flow_arcs f) = fn_m network
      \<and> is_flow network (map unat (flow_arcs f))
      \<and> flow_value f = word_of_int (flow_val network (map unat (flow_arcs f)))
      \<and> flow_val network (map unat (flow_arcs f))
          = int (flow_in network (map unat (flow_arcs f)) (fn_sink network))
            - int (flow_out network (map unat (flow_arcs f)) (fn_sink network))
      \<and> 0 \<le> flow_val network (map unat (flow_arcs f))
      \<and> (\<forall>g. is_flow network g
            \<longrightarrow> flow_val network g \<le> flow_val network (map unat (flow_arcs f))))"

text \<open>
  Two networks on which the total flow does not fit the 32-bit \<^verbatim>\<open>flow_t\<close>: three arcs
  \<open>0 \<rightarrow> 2\<close>, \<open>0 \<rightarrow> 1\<close>, \<open>1 \<rightarrow> 2\<close> of capacity \<open>2^32 - 1\<close>, respectively \<open>2^31\<close>.
\<close>

definition overflow_example :: FlowNetwork where
  "overflow_example = \<lparr>fn_n = 3, fn_m = 3, fn_source = 0, fn_sink = 2, fn_arcs = [
     \<lparr>tail = 0, head = 2, capacity = 0xFFFFFFFF\<rparr>,
     \<lparr>tail = 0, head = 1, capacity = 0xFFFFFFFF\<rparr>,
     \<lparr>tail = 1, head = 2, capacity = 0xFFFFFFFF\<rparr>]\<rparr>"

definition overflow_zero_example :: FlowNetwork where
  "overflow_zero_example = \<lparr>fn_n = 3, fn_m = 3, fn_source = 0, fn_sink = 2, fn_arcs = [
     \<lparr>tail = 0, head = 2, capacity = 0x80000000\<rparr>,
     \<lparr>tail = 0, head = 1, capacity = 0x80000000\<rparr>,
     \<lparr>tail = 1, head = 2, capacity = 0x80000000\<rparr>]\<rparr>"

text \<open>The sum of the two residual capacities of the pair of arc \<open>i\<close>, without wrap-around.\<close>

definition pair_sum :: "FlowNetwork \<Rightarrow> ResidualArc list \<Rightarrow> nat \<Rightarrow> nat" where
  "pair_sum network adj i =
     unat (residual_capacity (adj ! fwd_pos network i))
     + unat (residual_capacity (adj ! bwd_pos network i))"

text \<open>\<open>k\<close> is the value of a maximum flow of the network.\<close>

definition max_flow_value :: "FlowNetwork \<Rightarrow> int \<Rightarrow> bool" where
  "max_flow_value network k =
     ((\<exists>g. is_flow network g \<and> flow_val network g = k)
      \<and> (\<forall>g. is_flow network g \<longrightarrow> flow_val network g \<le> k))"

text \<open>
  The log of \<^verbatim>\<open>push_flow\<close> calls, replayed from the constructed arena: every call is on a
  record of the arena with an amount that is positive and at most the residual capacity the
  record has at that moment, and after every prefix of the log each record holds its initial
  residual capacity, plus what was pushed on its twin, minus what was pushed on it.
\<close>

definition pushes_safe :: "FlowNetwork \<Rightarrow> (nat \<times> flow_t) list \<Rightarrow> bool" where
  "pushes_safe network ops =
     (let ini = adjlist (mk_ResidualNetwork network) in
        (\<forall>j<length ops.
            fst (ops ! j) < length ini
            \<and> 0 < snd (ops ! j)
            \<and> snd (ops ! j) \<le> residual_capacity (apply_pushes (take j ops) ini ! fst (ops ! j)))
        \<and> (\<forall>j\<le>length ops. \<forall>q<length ini.
              unat (residual_capacity (apply_pushes (take j ops) ini ! q)) + pushed_on q (take j ops)
              = unat (residual_capacity (ini ! q)) + pushed_on (twin_idx ini q) (take j ops)))"

text \<open>What holds of the residual network, the log and the accumulator when a solver returns.\<close>

definition run_ok :: "FlowNetwork \<Rightarrow> ResidualNetwork \<Rightarrow> (nat \<times> flow_t) list \<Rightarrow> flow_t \<Rightarrow> bool" where
  "run_ok network rn pushes mf =
     (rn = (mk_ResidualNetwork network)\<lparr>adjlist := adjlist rn\<rparr>
      \<and> flow_state_ok (mk_ResidualNetwork network) (adjlist rn) pushes mf
      \<and> saturated_cut rn
      \<and> get_flow_arcs network rn = arc_flows network (adjlist rn))"

text \<open>The \<^verbatim>\<open>Flow\<close> both solvers return on the two networks above.\<close>

definition overflow_result :: Flow where
  "overflow_result = \<lparr>flow_value = 0xFFFFFFFE, flow_arcs = [0xFFFFFFFF, 0xFFFFFFFF, 0xFFFFFFFF]\<rparr>"

definition overflow_zero_result :: Flow where
  "overflow_zero_result = \<lparr>flow_value = 0, flow_arcs = [0x80000000, 0x80000000, 0x80000000]\<rparr>"

text \<open>
  The value field against the flow on the arcs: the net flow out of the source is the net flow
  into the sink, and the value field is that number modulo \<open>2^32\<close>.
\<close>

definition value_consistent :: "FlowNetwork \<Rightarrow> Flow \<Rightarrow> bool" where
  "value_consistent network f =
     (let g = map unat (flow_arcs f);
          out_source = flow_val network g;
          in_sink = int (flow_in network g (fn_sink network))
                    - int (flow_out network g (fn_sink network))
      in out_source = in_sink \<and> 0 \<le> out_source
         \<and> uint (flow_value f) = out_source mod 2 ^ 32
         \<and> (out_source < 2 ^ 32 \<longrightarrow> uint (flow_value f) = out_source))"

section \<open>Verification\<close>

lemma occ_append: "occ v (as @ bs) = occ v as + occ v bs"
  by (induction as) auto

lemma degree_step_length: "length (degree_step d a) = length d"
  by (simp add: degree_step_def Let_def)

lemma degree_step_nth:
  assumes "tail a < length d" "head a < length d" "v < length d"
  shows "degree_step d a ! v = d ! v + occ v [a]"
  using assms by (auto simp: degree_step_def Let_def nth_list_update)

lemma foldl_degree_step:
  assumes "endpoints_below (length d) as" "v < length d"
  shows "length (foldl degree_step d as) = length d \<and>
         foldl degree_step d as ! v = d ! v + occ v as"
  using assms
proof (induction as arbitrary: d)
  case Nil
  then show ?case by simp
next
  case (Cons a as)
  have a: "tail a < length d" "head a < length d"
    using Cons.prems(1) by (simp_all add: endpoints_below_def)
  have e: "endpoints_below (length (degree_step d a)) as"
    using Cons.prems(1) by (simp add: endpoints_below_def degree_step_length)
  have v: "v < length (degree_step d a)" using Cons.prems(2) by (simp add: degree_step_length)
  from Cons.IH[OF e v] degree_step_nth[OF a Cons.prems(2)]
  show ?case by (simp add: degree_step_length)
qed

lemma compute_degree_out_length:
  "endpoints_below k as \<Longrightarrow> length (compute_degree_out k as) = k"
proof (cases k)
  case 0
  assume "endpoints_below k as"
  with 0 have "as = []" by (cases as) (simp_all add: endpoints_below_def)
  then show ?thesis using 0 by (simp add: compute_degree_out_def)
next
  case (Suc j)
  assume e: "endpoints_below k as"
  have "length (foldl degree_step (replicate k 0) as) = length (replicate k (0::nat))"
    using foldl_degree_step[of "replicate k 0" as 0] e Suc by simp
  then show ?thesis by (simp add: compute_degree_out_def)
qed

lemma compute_degree_out_nth:
  "endpoints_below k as \<Longrightarrow> v < k \<Longrightarrow> compute_degree_out k as ! v = occ v as"
  using foldl_degree_step[of "replicate k 0" as v] by (simp add: compute_degree_out_def)

lemma offs_0: "offs deg 0 = 0" by (simp add: offs_def)

lemma offs_Suc: "u < length deg \<Longrightarrow> offs deg (Suc u) = offs deg u + deg ! u"
  by (simp add: offs_def take_Suc_conv_app_nth)

lemma offs_mono: "u \<le> w \<Longrightarrow> w \<le> length deg \<Longrightarrow> offs deg u \<le> offs deg w"
proof (induction w)
  case 0
  then show ?case by simp
next
  case (Suc w)
  show ?case
  proof (cases "u = Suc w")
    case True then show ?thesis by simp
  next
    case False
    with Suc have "offs deg u \<le> offs deg w" by simp
    moreover have "offs deg (Suc w) = offs deg w + deg ! w" using Suc.prems by (simp add: offs_Suc)
    ultimately show ?thesis by simp
  qed
qed

lemma offs_range_le: "u < w \<Longrightarrow> w \<le> length deg \<Longrightarrow> offs deg u + deg ! u \<le> offs deg w"
  using offs_mono[of "Suc u" w deg] by (simp add: offs_Suc)

lemma foldl_iter_step:
  assumes "j \<le> k" "length deg = k"
  shows "\<exists>it sp. foldl (iter_step deg) (replicate (k + 1) 0, replicate k (0, 0)) [0..<j] = (it, sp)
           \<and> length it = k + 1 \<and> length sp = k
           \<and> (\<forall>i\<le>j. it ! i = offs deg i)
           \<and> (\<forall>u<j. sp ! u = (offs deg u, offs deg (u + 1)))"
  using assms(1)
proof (induction j)
  case 0
  then show ?case by (simp add: offs_0)
next
  case (Suc j)
  then obtain it sp where st: "foldl (iter_step deg) (replicate (k + 1) 0, replicate k (0, 0)) [0..<j] = (it, sp)"
    and len: "length it = k + 1" "length sp = k"
    and it: "\<forall>i\<le>j. it ! i = offs deg i"
    and sp: "\<forall>u<j. sp ! u = (offs deg u, offs deg (u + 1))"
    by auto
  let ?it = "it[j + 1 := it ! j + deg ! j]"
  let ?sp = "sp[j := (?it ! j, ?it ! (j + 1))]"
  have step: "foldl (iter_step deg) (replicate (k + 1) 0, replicate k (0, 0)) [0..<Suc j] = (?it, ?sp)"
    using st by (simp add: iter_step_def Let_def)
  have jk: "j < k" using Suc.prems by simp
  have it': "\<forall>i\<le>Suc j. ?it ! i = offs deg i"
  proof (intro allI impI)
    fix i assume "i \<le> Suc j"
    show "?it ! i = offs deg i"
    proof (cases "i = Suc j")
      case True
      then show ?thesis using len jk it assms(2) by (simp add: offs_Suc)
    next
      case False
      then show ?thesis using \<open>i \<le> Suc j\<close> it by (simp add: nth_list_update)
    qed
  qed
  have sp': "\<forall>u<Suc j. ?sp ! u = (offs deg u, offs deg (u + 1))"
  proof (intro allI impI)
    fix u assume u: "u < Suc j"
    show "?sp ! u = (offs deg u, offs deg (u + 1))"
    proof (cases "u = j")
      case True
      have "?it ! j = offs deg j" "?it ! (j + 1) = offs deg (j + 1)"
        using it'[rule_format, of j] it'[rule_format, of "Suc j"] by simp_all
      then show ?thesis using True len jk by simp
    next
      case False
      then show ?thesis using u sp by (simp add: nth_list_update)
    qed
  qed
  show ?case using step len it' sp' by simp
qed

lemma setup_iters_eq:
  assumes "length deg = k"
  shows "\<exists>it. setup_iters k deg = (it, map (\<lambda>u. (offs deg u, offs deg (u + 1))) [0..<k])
           \<and> length it = k + 1 \<and> (\<forall>i\<le>k. it ! i = offs deg i)"
proof -
  from foldl_iter_step[OF le_refl assms] obtain it sp where
    st: "setup_iters k deg = (it, sp)" and len: "length it = k + 1" "length sp = k"
    and it: "\<forall>i\<le>k. it ! i = offs deg i"
    and sp: "\<forall>u<k. sp ! u = (offs deg u, offs deg (u + 1))"
    unfolding setup_iters_def by blast
  have "sp = map (\<lambda>u. (offs deg u, offs deg (u + 1))) [0..<k]"
    using len sp by (intro nth_equalityI) simp_all
  then show ?thesis using st len it by simp
qed

lemma occ_take_Suc:
  "j < length as \<Longrightarrow> occ v (take (Suc j) as) = occ v (take j as) + occ v [as ! j]"
  by (simp add: take_Suc_conv_app_nth occ_append)

lemma occ_take_mono: "i \<le> j \<Longrightarrow> occ v (take i as) \<le> occ v (take j as)"
proof -
  assume "i \<le> j"
  then have "take j as = take i as @ take (j - i) (drop i as)"
    by (metis le_add_diff_inverse take_add)
  then show ?thesis by (simp add: occ_append)
qed

lemma occ_take_le: "occ v (take i as) \<le> occ v as"
  using occ_take_mono[of i "max i (length as)" v as] by simp

lemma occ_take_strict:
  assumes "j < i" "j < length as" "incident (as ! j) v"
  shows "occ v (take j as) < occ v (take i as)"
proof -
  have "occ v (take j as) < occ v (take (Suc j) as)"
    using assms(2,3) by (auto simp: occ_take_Suc incident_def)
  also have "\<dots> \<le> occ v (take i as)" using assms(1) by (intro occ_take_mono) simp
  finally show ?thesis .
qed

lemma slot_bounds:
  assumes "j < length as" "incident (as ! j) u"
  shows "offs deg u \<le> slot deg as u j" "slot deg as u j < offs deg u + occ u as"
proof -
  show "offs deg u \<le> slot deg as u j" by (simp add: slot_def)
  have "occ u (take j as) < occ u (take (length as) as)"
    using assms by (intro occ_take_strict) simp_all
  then show "slot deg as u j < offs deg u + occ u as" by (simp add: slot_def)
qed

lemma slot_neq_vertex:
  assumes deg: "length deg = k" "\<forall>v<k. deg ! v = occ v as"
    and "u < k" "w < k" "u \<noteq> w"
    and "j < length as" "incident (as ! j) u" "i < length as" "incident (as ! i) w"
  shows "slot deg as u j \<noteq> slot deg as w i"
proof -
  have *: "slot deg as x a \<noteq> slot deg as y b"
    if "x < y" "y < k" "a < length as" "incident (as ! a) x" "b < length as" for x y a b
  proof -
    have "slot deg as x a < offs deg x + deg ! x"
      using slot_bounds(2)[OF that(3,4)] deg that(1,2) by simp
    also have "\<dots> \<le> offs deg y" using that(1,2) deg by (intro offs_range_le) simp_all
    also have "\<dots> \<le> slot deg as y b" by (simp add: slot_def)
    finally show ?thesis by simp
  qed
  show ?thesis
  proof (cases "u < w")
    case True
    then show ?thesis using *[of u w j i] assms by simp
  next
    case False
    then have "w < u" using assms(5) by simp
    then show ?thesis using *[of w u i j] assms by metis
  qed
qed

lemma slot_neq_index:
  assumes "j < i" "j < length as" "incident (as ! j) u"
  shows "slot deg as u j \<noteq> slot deg as u i"
  using occ_take_strict[OF assms] by (simp add: slot_def)

lemma slot_lt_total:
  assumes deg: "length deg = k" "\<forall>v<k. deg ! v = occ v as"
    and "u < k" "j < length as" "incident (as ! j) u"
  shows "slot deg as u j < offs deg k"
proof -
  have "slot deg as u j < offs deg u + deg ! u"
    using slot_bounds(2)[OF assms(4,5)] deg assms(3) by simp
  also have "\<dots> = offs deg (Suc u)" using assms(3) deg by (simp add: offs_Suc)
  also have "\<dots> \<le> offs deg k" using assms(3) deg by (intro offs_mono) simp_all
  finally show ?thesis .
qed

lemma foldl_fill_step:
  assumes deg: "length deg = k" "\<forall>v<k. deg ! v = occ v as"
    and ends: "endpoints_below k as" and nsl: "no_self_loops as"
    and it0: "length it0 = k + 1" "\<forall>u\<le>k. it0 ! u = offs deg u"
    and adj0: "length adj0 = offs deg k"
    and i: "i \<le> length as"
  shows "\<exists>adj it. foldl fill_step (adj0, it0) (take i as) = (adj, it)
           \<and> length adj = length adj0 \<and> length it = k + 1
           \<and> (\<forall>u<k. it ! u = slot deg as u i)
           \<and> (\<forall>j<i. adj ! slot deg as (tail (as ! j)) j = fwd_rec deg as j
                    \<and> adj ! slot deg as (head (as ! j)) j = bwd_rec deg as j)"
  using i
proof (induction i)
  case 0
  then show ?case using it0 by (simp add: slot_def)
next
  case (Suc i)
  then obtain adj it where st: "foldl fill_step (adj0, it0) (take i as) = (adj, it)"
    and len: "length adj = length adj0" "length it = k + 1"
    and it: "\<forall>u<k. it ! u = slot deg as u i"
    and recs: "\<forall>j<i. adj ! slot deg as (tail (as ! j)) j = fwd_rec deg as j
                    \<and> adj ! slot deg as (head (as ! j)) j = bwd_rec deg as j"
    by auto
  have il: "i < length as" using Suc.prems by simp
  define a where "a = as ! i"
  define u where "u = tail a"
  define v where "v = head a"
  have uv: "u < k" "v < k" "u \<noteq> v"
    using ends nsl il unfolding u_def v_def a_def endpoints_below_def no_self_loops_def
    by (simp_all add: list_all_length)
  have inc: "incident (as ! i) u" "incident (as ! i) v"
    by (simp_all add: incident_def u_def v_def a_def)
  define pu where "pu = slot deg as u i"
  define pv where "pv = slot deg as v i"
  have itu: "it ! u = pu" "it ! v = pv" using it uv by (simp_all add: pu_def pv_def)
  have pne: "pu \<noteq> pv"
    unfolding pu_def pv_def using slot_neq_vertex[OF deg uv il inc(1) il inc(2)] .
  have plt: "pu < length adj" "pv < length adj"
    using slot_lt_total[OF deg uv(1) il inc(1)] slot_lt_total[OF deg uv(2) il inc(2)]
    by (simp_all add: pu_def pv_def len adj0)
  define adj' where "adj' = adj[pu := fwd_rec deg as i, pv := bwd_rec deg as i]"
  define it' where "it' = it[u := it ! u + 1, v := it ! v + 1]"
  have step: "fill_step (adj, it) a = (adj', it')"
    using uv(3) itu
    by (simp add: fill_step_def Let_def adj'_def it'_def fwd_rec_def bwd_rec_def
        u_def[symmetric] v_def[symmetric] a_def[symmetric] pu_def pv_def)
  have tk: "take (Suc i) as = take i as @ [a]"
    using il by (simp add: take_Suc_conv_app_nth a_def)
  have fold: "foldl fill_step (adj0, it0) (take (Suc i) as) = (adj', it')"
    by (simp add: tk st step)
  have it'_ok: "\<forall>w<k. it' ! w = slot deg as w (Suc i)"
  proof (intro allI impI)
    fix w assume w: "w < k"
    have occw: "occ w (take (Suc i) as) = occ w (take i as)
        + (if u = w then 1 else 0) + (if v = w then 1 else 0)"
      using il by (simp add: occ_take_Suc u_def v_def a_def)
    have "it' ! w = it ! w + (if u = w then 1 else 0) + (if v = w then 1 else 0)"
      using uv w len by (auto simp: it'_def nth_list_update)
    then show "it' ! w = slot deg as w (Suc i)"
      using it w occw by (simp add: slot_def)
  qed
  have recs': "adj' ! slot deg as (tail (as ! j)) j = fwd_rec deg as j
             \<and> adj' ! slot deg as (head (as ! j)) j = bwd_rec deg as j" if j: "j < Suc i" for j
  proof (cases "j = i")
    case True
    then show ?thesis
      using pne plt
      by (simp add: adj'_def pu_def[symmetric] pv_def[symmetric] u_def[symmetric]
          v_def[symmetric] a_def[symmetric])
  next
    case False
    then have ji: "j < i" using j by simp
    then have jl: "j < length as" using il by simp
    have ej: "tail (as ! j) < k" "head (as ! j) < k"
      using ends jl by (simp_all add: endpoints_below_def list_all_length)
    have incj: "incident (as ! j) (tail (as ! j))" "incident (as ! j) (head (as ! j))"
      by (simp_all add: incident_def)
    have ne: "slot deg as x j \<noteq> slot deg as y i"
      if "x < k" "incident (as ! j) x" "y < k" "incident (as ! i) y" for x y
    proof (cases "x = y")
      case True
      then show ?thesis using slot_neq_index[OF ji jl that(2)] by simp
    next
      case False
      then show ?thesis using slot_neq_vertex[OF deg that(1,3) False jl that(2) il that(4)] by simp
    qed
    have "slot deg as (tail (as ! j)) j \<noteq> pu" "slot deg as (tail (as ! j)) j \<noteq> pv"
      "slot deg as (head (as ! j)) j \<noteq> pu" "slot deg as (head (as ! j)) j \<noteq> pv"
      unfolding pu_def pv_def using ne ej incj uv inc by blast+
    then show ?thesis using recs ji by (simp add: adj'_def)
  qed
  show ?case using fold len it'_ok recs' by (simp add: adj'_def it'_def)
qed

lemma sum_occ:
  "endpoints_below k as \<Longrightarrow> (\<Sum>v<k. occ v as) = 2 * length as"
proof (induction as)
  case Nil
  then show ?case by simp
next
  case (Cons a as)
  then have a: "tail a < k" "head a < k" and e: "endpoints_below k as"
    by (simp_all add: endpoints_below_def)
  have "(\<Sum>v<k. occ v (a # as)) =
      (\<Sum>v<k. if tail a = v then 1 else 0) + (\<Sum>v<k. if head a = v then 1 else 0)
      + (\<Sum>v<k. occ v as)"
    by (simp add: sum.distrib)
  moreover have "(\<Sum>v<k. if tail a = v then 1 else 0) = (1::nat)" using a by simp
  moreover have "(\<Sum>v<k. if head a = v then 1 else 0) = (1::nat)" using a by simp
  ultimately show ?case using Cons.IH[OF e] by simp
qed

lemma offs_total:
  assumes "endpoints_below k as"
  shows "offs (map (\<lambda>v. occ v as) [0..<k]) k = 2 * length as"
proof -
  have "offs (map (\<lambda>v. occ v as) [0..<k]) k = sum_list (map (\<lambda>v. occ v as) [0..<k])"
    by (simp add: offs_def)
  also have "\<dots> = (\<Sum>v<k. occ v as)"
    by (simp add: sum_list_sum_nth atLeast0LessThan)
  finally show ?thesis using sum_occ[OF assms] by simp
qed

lemma compute_degree_out_eq:
  assumes "endpoints_below k as"
  shows "compute_degree_out k as = map (\<lambda>v. occ v as) [0..<k]"
  using compute_degree_out_length[OF assms] compute_degree_out_nth[OF assms]
  by (intro nth_equalityI) simp_all

lemma mk_ResidualNetwork_props:
  assumes v: "valid_network network"
  defines "rn \<equiv> mk_ResidualNetwork network"
  defines "deg \<equiv> net_deg network"
  shows "rn_n rn = fn_n network" "rn_m rn = 2 * fn_m network"
    "rn_source rn = fn_source network" "rn_sink rn = fn_sink network"
    "arcs_out_span rn = map (\<lambda>u. (offs deg u, offs deg (u + 1))) [0..<fn_n network]"
    "length (adjlist rn) = 2 * fn_m network"
    "\<forall>i<fn_m network. adjlist rn ! fwd_pos network i =
        \<lparr>rhead = head (fn_arcs network ! i), residual_capacity = capacity (fn_arcs network ! i),
         twin = Some (bwd_pos network i)\<rparr>
      \<and> adjlist rn ! bwd_pos network i =
        \<lparr>rhead = tail (fn_arcs network ! i), residual_capacity = 0,
         twin = Some (fwd_pos network i)\<rparr>"
proof -
  let ?k = "fn_n network" and ?as = "fn_arcs network"
  have ends: "endpoints_below ?k ?as" and nsl: "no_self_loops ?as"
    and m: "fn_m network = length ?as"
    using v by (simp_all add: valid_network_def)
  have degeq: "compute_degree_out ?k ?as = deg"
    using compute_degree_out_eq[OF ends] by (simp add: deg_def net_deg_def)
  have dl: "length deg = ?k" and dn: "\<forall>v<?k. deg ! v = occ v ?as"
    by (simp_all add: deg_def net_deg_def)
  from setup_iters_eq[OF dl] obtain it where
    si: "setup_iters ?k deg = (it, map (\<lambda>u. (offs deg u, offs deg (u + 1))) [0..<?k])"
    and itl: "length it = ?k + 1" and itn: "\<forall>i\<le>?k. it ! i = offs deg i"
    by blast
  have tot: "offs deg ?k = 2 * fn_m network"
    using offs_total[OF ends] m by (simp add: deg_def net_deg_def)
  have a0: "length (replicate (2 * fn_m network) null_arc) = offs deg ?k"
    using tot by simp
  from foldl_fill_step[OF dl dn ends nsl itl itn a0 le_refl]
  obtain adj it' where
    ff: "foldl fill_step (replicate (2 * fn_m network) null_arc, it) ?as = (adj, it')"
    and al: "length adj = 2 * fn_m network"
    and recs: "\<forall>j<length ?as. adj ! slot deg ?as (tail (?as ! j)) j = fwd_rec deg ?as j
                    \<and> adj ! slot deg ?as (head (?as ! j)) j = bwd_rec deg ?as j"
    by auto
  have rn: "rn = \<lparr>rn_n = ?k, rn_m = 2 * fn_m network, rn_source = fn_source network,
      rn_sink = fn_sink network, adjlist = adj,
      arcs_out_span = map (\<lambda>u. (offs deg u, offs deg (u + 1))) [0..<?k]\<rparr>"
    unfolding rn_def mk_ResidualNetwork_def by (simp add: Let_def degeq si ff)
  show "rn_n rn = fn_n network" "rn_m rn = 2 * fn_m network"
    "rn_source rn = fn_source network" "rn_sink rn = fn_sink network"
    "arcs_out_span rn = map (\<lambda>u. (offs deg u, offs deg (u + 1))) [0..<fn_n network]"
    "length (adjlist rn) = 2 * fn_m network"
    using al by (simp_all add: rn)
  show "\<forall>i<fn_m network. adjlist rn ! fwd_pos network i =
        \<lparr>rhead = head (fn_arcs network ! i), residual_capacity = capacity (fn_arcs network ! i),
         twin = Some (bwd_pos network i)\<rparr>
      \<and> adjlist rn ! bwd_pos network i =
        \<lparr>rhead = tail (fn_arcs network ! i), residual_capacity = 0,
         twin = Some (fwd_pos network i)\<rparr>"
    using recs m
    by (simp add: rn fwd_pos_def bwd_pos_def fwd_rec_def bwd_rec_def deg_def)
qed

lemma slot_inj:
  assumes deg: "length deg = k" "\<forall>v<k. deg ! v = occ v as"
    and "u < k" "w < k" "i < length as" "j < length as"
    and "incident (as ! i) u" "incident (as ! j) w"
    and eq: "slot deg as u i = slot deg as w j"
  shows "u = w \<and> i = j"
proof -
  have uw: "u = w"
    using slot_neq_vertex[OF deg assms(3,4) _ assms(5,7,6,8)] eq by blast
  have "i = j"
  proof (rule ccontr)
    assume "i \<noteq> j"
    then consider "i < j" | "j < i" by linarith
    then show False
    proof cases
      case 1
      have "slot deg as u i \<noteq> slot deg as u j" by (rule slot_neq_index[OF 1 assms(5,7)])
      then show ?thesis using eq uw by simp
    next
      case 2
      have "slot deg as w j \<noteq> slot deg as w i" by (rule slot_neq_index[OF 2 assms(6,8)])
      then show ?thesis using eq uw by simp
    qed
  qed
  with uw show ?thesis by simp
qed

lemma valid_network_deg:
  assumes "valid_network network"
  shows "length (net_deg network) = fn_n network"
    "\<forall>v<fn_n network. net_deg network ! v = occ v (fn_arcs network)"
  by (simp_all add: net_deg_def)

lemma valid_network_arc:
  assumes "valid_network network" "i < fn_m network"
  shows "tail (fn_arcs network ! i) < fn_n network" "head (fn_arcs network ! i) < fn_n network"
    "tail (fn_arcs network ! i) \<noteq> head (fn_arcs network ! i)" "i < length (fn_arcs network)"
  using assms
  by (simp_all add: valid_network_def endpoints_below_def no_self_loops_def list_all_length)

lemma pos_inj:
  assumes v: "valid_network network" and i: "i < fn_m network" and j: "j < fn_m network"
  shows "fwd_pos network i = fwd_pos network j \<Longrightarrow> i = j"
    "bwd_pos network i = bwd_pos network j \<Longrightarrow> i = j"
    "fwd_pos network i \<noteq> bwd_pos network j"
proof -
  note d = valid_network_deg[OF v]
  note ai = valid_network_arc[OF v i]
  note aj = valid_network_arc[OF v j]
  have it: "incident (fn_arcs network ! i) (tail (fn_arcs network ! i))"
    and ih: "incident (fn_arcs network ! i) (head (fn_arcs network ! i))"
    and jt: "incident (fn_arcs network ! j) (tail (fn_arcs network ! j))"
    and jh: "incident (fn_arcs network ! j) (head (fn_arcs network ! j))"
    by (simp_all add: incident_def)
  show "i = j" if "fwd_pos network i = fwd_pos network j"
    using slot_inj[OF d ai(1) aj(1) ai(4) aj(4) it jt that[unfolded fwd_pos_def]] by (rule conjunct2)
  show "i = j" if "bwd_pos network i = bwd_pos network j"
    using slot_inj[OF d ai(2) aj(2) ai(4) aj(4) ih jh that[unfolded bwd_pos_def]] by (rule conjunct2)
  show "fwd_pos network i \<noteq> bwd_pos network j"
  proof
    assume e: "fwd_pos network i = bwd_pos network j"
    note c = slot_inj[OF d ai(1) aj(2) ai(4) aj(4) it jh e[unfolded fwd_pos_def bwd_pos_def]]
    from c have "i = j" by (rule conjunct2)
    moreover from c have "tail (fn_arcs network ! i) = head (fn_arcs network ! j)" by (rule conjunct1)
    ultimately have "tail (fn_arcs network ! i) = head (fn_arcs network ! i)" by blast
    then show False using ai(3) by blast
  qed
qed

lemma pos_in_span:
  assumes v: "valid_network network" and i: "i < fn_m network"
  defines "sp \<equiv> arcs_out_span (mk_ResidualNetwork network)"
  shows "fwd_pos network i \<in> span_of sp (tail (fn_arcs network ! i))"
    "bwd_pos network i \<in> span_of sp (head (fn_arcs network ! i))"
proof -
  note d = valid_network_deg[OF v]
  note ai = valid_network_arc[OF v i]
  have sp: "sp ! u = (offs (net_deg network) u, offs (net_deg network) u + occ u (fn_arcs network))"
    if "u < fn_n network" for u
    using that d by (simp add: sp_def mk_ResidualNetwork_props(5)[OF v] offs_Suc)
  show "fwd_pos network i \<in> span_of sp (tail (fn_arcs network ! i))"
    using slot_bounds[OF ai(4), of "tail (fn_arcs network ! i)" "net_deg network"] sp[OF ai(1)]
    by (simp add: span_of_def fwd_pos_def incident_def)
  show "bwd_pos network i \<in> span_of sp (head (fn_arcs network ! i))"
    using slot_bounds[OF ai(4), of "head (fn_arcs network ! i)" "net_deg network"] sp[OF ai(2)]
    by (simp add: span_of_def bwd_pos_def incident_def)
qed

lemma span_subset:
  assumes v: "valid_network network" and u: "u < fn_n network"
  defines "sp \<equiv> arcs_out_span (mk_ResidualNetwork network)"
  shows "span_of sp u \<subseteq> {..<2 * fn_m network}"
proof -
  note d = valid_network_deg[OF v]
  have ends: "endpoints_below (fn_n network) (fn_arcs network)"
    and m: "fn_m network = length (fn_arcs network)"
    using v by (simp_all add: valid_network_def)
  have "offs (net_deg network) (u + 1) \<le> offs (net_deg network) (fn_n network)"
    using u d by (intro offs_mono) simp_all
  also have "\<dots> = 2 * fn_m network"
    using offs_total[OF ends] m by (simp add: net_deg_def)
  finally show ?thesis
    using u by (auto simp: span_of_def sp_def mk_ResidualNetwork_props(5)[OF v])
qed

lemma span_disjoint:
  assumes v: "valid_network network" and u: "u < fn_n network" and w: "w < fn_n network"
    and ne: "u \<noteq> w"
  defines "sp \<equiv> arcs_out_span (mk_ResidualNetwork network)"
  shows "span_of sp u \<inter> span_of sp w = {}"
proof -
  note d = valid_network_deg[OF v]
  have *: "span_of sp x \<inter> span_of sp y = {}" if "x < y" "y < fn_n network" for x y
  proof -
    have "offs (net_deg network) (x + 1) \<le> offs (net_deg network) y"
      using that d by (intro offs_mono) simp_all
    then show ?thesis
      using that by (auto simp: span_of_def sp_def mk_ResidualNetwork_props(5)[OF v])
  qed
  from ne consider "u < w" | "w < u" by linarith
  then show ?thesis using *[of u w] *[of w u] u w by cases auto
qed

lemma pos_cover:
  assumes v: "valid_network network"
  shows "fwd_pos network ` {..<fn_m network} \<union> bwd_pos network ` {..<fn_m network}
           = {..<2 * fn_m network}"
proof -
  let ?F = "fwd_pos network ` {..<fn_m network}" and ?B = "bwd_pos network ` {..<fn_m network}"
  have injF: "inj_on (fwd_pos network) {..<fn_m network}"
    using pos_inj(1)[OF v] by (auto simp: inj_on_def)
  have injB: "inj_on (bwd_pos network) {..<fn_m network}"
    using pos_inj(2)[OF v] by (auto simp: inj_on_def)
  have disj: "?F \<inter> ?B = {}" using pos_inj(3)[OF v] by auto
  have "card (?F \<union> ?B) = card ?F + card ?B"
    using disj by (intro card_Un_disjoint) simp_all
  then have card: "card (?F \<union> ?B) = 2 * fn_m network"
    using card_image[OF injF] card_image[OF injB] by simp
  have sub: "?F \<union> ?B \<subseteq> {..<2 * fn_m network}"
  proof
    fix p assume "p \<in> ?F \<union> ?B"
    then obtain i where i: "i < fn_m network"
      and p: "p = fwd_pos network i \<or> p = bwd_pos network i" by auto
    note ai = valid_network_arc[OF v i]
    from p pos_in_span[OF v i] span_subset[OF v ai(1)] span_subset[OF v ai(2)]
    show "p \<in> {..<2 * fn_m network}" by auto
  qed
  show ?thesis using card sub by (intro card_subset_eq) simp_all
qed

lemma mk_ResidualNetwork_arena_ok:
  assumes v: "valid_network network"
  defines "rn \<equiv> mk_ResidualNetwork network"
  shows "arena_ok (fn_n network) (arcs_out_span rn) (adjlist rn)"
proof -
  note P = mk_ResidualNetwork_props[OF v, folded rn_def]
  have len: "length (adjlist rn) = 2 * fn_m network" by (rule P(6))
  have "\<exists>q<length (adjlist rn).
            twin (adjlist rn ! p) = Some q \<and> twin (adjlist rn ! q) = Some p
            \<and> rhead (adjlist rn ! p) < fn_n network
            \<and> q \<in> span_of (arcs_out_span rn) (rhead (adjlist rn ! p))
            \<and> p \<notin> span_of (arcs_out_span rn) (rhead (adjlist rn ! p))"
    if p: "p < length (adjlist rn)" for p
  proof -
    have "p \<in> {..<2 * fn_m network}" using p len by simp
    then have "p \<in> fwd_pos network ` {..<fn_m network} \<union> bwd_pos network ` {..<fn_m network}"
      by (simp only: pos_cover[OF v])
    then obtain i where i: "i < fn_m network"
      and pi: "p = fwd_pos network i \<or> p = bwd_pos network i" by auto
    note ai = valid_network_arc[OF v i]
    note S = pos_in_span[OF v i, folded rn_def]
    have bl: "fwd_pos network i < length (adjlist rn)" "bwd_pos network i < length (adjlist rn)"
      using S span_subset[OF v ai(1), folded rn_def] span_subset[OF v ai(2), folded rn_def] len
      by auto
    have dj: "span_of (arcs_out_span rn) (tail (fn_arcs network ! i))
        \<inter> span_of (arcs_out_span rn) (head (fn_arcs network ! i)) = {}"
      using span_disjoint[OF v ai(1) ai(2) ai(3), folded rn_def] .
    have F: "adjlist rn ! fwd_pos network i =
        \<lparr>rhead = head (fn_arcs network ! i), residual_capacity = capacity (fn_arcs network ! i),
         twin = Some (bwd_pos network i)\<rparr>"
      and B: "adjlist rn ! bwd_pos network i =
        \<lparr>rhead = tail (fn_arcs network ! i), residual_capacity = 0,
         twin = Some (fwd_pos network i)\<rparr>"
      using P(7)[rule_format, OF i] by (rule conjunct1, rule conjunct2)
    have nF: "fwd_pos network i \<notin> span_of (arcs_out_span rn) (head (fn_arcs network ! i))"
      using dj S(1) by blast
    have nB: "bwd_pos network i \<notin> span_of (arcs_out_span rn) (tail (fn_arcs network ! i))"
      using dj S(2) by blast
    from pi show ?thesis
    proof
      assume e: "p = fwd_pos network i"
      show ?thesis
        apply (rule exI[of _ "bwd_pos network i"])
        using bl(2) ai(2) S(2) nF by (simp add: e F B)
    next
      assume e: "p = bwd_pos network i"
      show ?thesis
        apply (rule exI[of _ "fwd_pos network i"])
        using bl(1) ai(1) S(1) nB by (simp add: e F B)
    qed
  qed
  then have tw: "\<forall>p<length (adjlist rn). \<exists>q<length (adjlist rn).
            twin (adjlist rn ! p) = Some q \<and> twin (adjlist rn ! q) = Some p
            \<and> rhead (adjlist rn ! p) < fn_n network
            \<and> q \<in> span_of (arcs_out_span rn) (rhead (adjlist rn ! p))
            \<and> p \<notin> span_of (arcs_out_span rn) (rhead (adjlist rn ! p))"
    by (intro allI impI)
  have l: "length (arcs_out_span rn) = fn_n network" using P(5) by simp
  have sub: "\<forall>u<fn_n network. span_of (arcs_out_span rn) u \<subseteq> {..<length (adjlist rn)}"
    using span_subset[OF v, folded rn_def] len by simp
  have dis: "\<forall>u<fn_n network. \<forall>w<fn_n network. u \<noteq> w \<longrightarrow>
      span_of (arcs_out_span rn) u \<inter> span_of (arcs_out_span rn) w = {}"
    using span_disjoint[OF v, folded rn_def] by (intro allI impI)
  show ?thesis
    unfolding arena_ok_def using l sub dis tw by (intro conjI)
qed

lemma same_shape_refl: "same_shape adj adj"
  by (simp add: same_shape_def)

lemma same_shape_trans: "same_shape a b \<Longrightarrow> same_shape b c \<Longrightarrow> same_shape a c"
  by (simp add: same_shape_def)

lemma same_shape_sym: "same_shape a b \<Longrightarrow> same_shape b a"
  by (simp add: same_shape_def)

lemma arena_ok_shape:
  assumes "arena_ok k sp adj" "same_shape adj adj'"
  shows "arena_ok k sp adj'"
proof -
  have len: "length adj' = length adj"
    and sh: "\<And>p. p < length adj \<Longrightarrow> rhead (adj' ! p) = rhead (adj ! p) \<and> twin (adj' ! p) = twin (adj ! p)"
    using assms(2) by (simp_all add: same_shape_def)
  have "\<exists>q<length adj'. twin (adj' ! p) = Some q \<and> twin (adj' ! q) = Some p
            \<and> rhead (adj' ! p) < k \<and> q \<in> span_of sp (rhead (adj' ! p))
            \<and> p \<notin> span_of sp (rhead (adj' ! p))" if p: "p < length adj'" for p
  proof -
    have p': "p < length adj" using p len by simp
    from assms(1) p' obtain q where q: "q < length adj" "twin (adj ! p) = Some q"
      "twin (adj ! q) = Some p" "rhead (adj ! p) < k" "q \<in> span_of sp (rhead (adj ! p))"
      "p \<notin> span_of sp (rhead (adj ! p))"
      unfolding arena_ok_def by metis
    show ?thesis
      apply (rule exI[of _ q])
      using q sh[OF p'] sh[OF q(1)] len by simp
  qed
  then show ?thesis using assms(1) len unfolding arena_ok_def by simp
qed

lemma arena_twin:
  assumes "arena_ok k sp adj" "p < length adj"
  shows "twin_idx adj p < length adj" "twin (adj ! p) = Some (twin_idx adj p)"
    "twin_idx adj (twin_idx adj p) = p" "twin_idx adj p \<noteq> p"
    "rhead (adj ! p) < k" "twin_idx adj p \<in> span_of sp (rhead (adj ! p))"
    "p \<notin> span_of sp (rhead (adj ! p))"
    "p \<in> span_of sp (arc_tail adj p)" "arc_tail adj p < k" "arc_tail adj p \<noteq> rhead (adj ! p)"
proof -
  from assms obtain q where q: "q < length adj" "twin (adj ! p) = Some q"
      "twin (adj ! q) = Some p" "rhead (adj ! p) < k" "q \<in> span_of sp (rhead (adj ! p))"
      "p \<notin> span_of sp (rhead (adj ! p))"
    unfolding arena_ok_def by metis
  from assms(1) q(1) obtain r where r: "twin (adj ! q) = Some r" "rhead (adj ! q) < k"
      "r \<in> span_of sp (rhead (adj ! q))" "q \<notin> span_of sp (rhead (adj ! q))"
    unfolding arena_ok_def by metis
  have tq: "twin_idx adj p = q" using q(2) by (simp add: twin_idx_def)
  have rp: "r = p" using r(1) q(3) by simp
  show "twin_idx adj p < length adj" "twin (adj ! p) = Some (twin_idx adj p)"
    "rhead (adj ! p) < k" "twin_idx adj p \<in> span_of sp (rhead (adj ! p))"
    "p \<notin> span_of sp (rhead (adj ! p))"
    using q tq by simp_all
  show "twin_idx adj (twin_idx adj p) = p" using q(3) tq by (simp add: twin_idx_def)
  show "twin_idx adj p \<noteq> p" using q(5,6) tq by auto
  show "p \<in> span_of sp (arc_tail adj p)" "arc_tail adj p < k"
    using r(2,3) rp tq by (simp_all add: arc_tail_def)
  show "arc_tail adj p \<noteq> rhead (adj ! p)"
    using q(5) r(4) tq by (auto simp: arc_tail_def)
qed

lemma push_flow_nth:
  assumes "p < length adj" "twin (adj ! p) = Some q" "q < length adj" "q \<noteq> p"
  shows "length (push_flow p f adj) = length adj"
    "push_flow p f adj ! x =
      (if x = p then (adj ! p)\<lparr>residual_capacity := residual_capacity (adj ! p) - f\<rparr>
       else if x = q then (adj ! q)\<lparr>residual_capacity := residual_capacity (adj ! q) + f\<rparr>
       else adj ! x)"
proof -
  have t: "twin_idx (adj[p := (adj ! p)\<lparr>residual_capacity := residual_capacity (adj ! p) - f\<rparr>]) p = q"
    using assms by (simp add: twin_idx_def)
  show "length (push_flow p f adj) = length adj"
    by (simp add: push_flow_def Let_def)
  show "push_flow p f adj ! x =
      (if x = p then (adj ! p)\<lparr>residual_capacity := residual_capacity (adj ! p) - f\<rparr>
       else if x = q then (adj ! q)\<lparr>residual_capacity := residual_capacity (adj ! q) + f\<rparr>
       else adj ! x)"
    unfolding push_flow_def Let_def t using assms
    by (cases "x < length adj") (auto simp: nth_list_update)
qed

lemma push_flow_shape:
  assumes "arena_ok k sp adj" "p < length adj"
  shows "same_shape adj (push_flow p f adj)"
proof -
  note T = arena_twin[OF assms]
  note N = push_flow_nth[OF assms(2) T(2) T(1) T(4)]
  show ?thesis unfolding same_shape_def by (simp add: N)
qed

lemma valid_pushes_shape:
  assumes "arena_ok k sp adj" "valid_pushes ops adj"
  shows "same_shape adj (apply_pushes ops adj)"
  using assms
proof (induction ops arbitrary: adj)
  case Nil
  then show ?case by (simp add: same_shape_refl)
next
  case (Cons x xs)
  have s: "same_shape adj (push_flow (fst x) (snd x) adj)"
    using push_flow_shape[OF Cons.prems(1)] Cons.prems(2) by simp
  have "same_shape (push_flow (fst x) (snd x) adj) (apply_pushes xs (push_flow (fst x) (snd x) adj))"
    using Cons.IH[OF arena_ok_shape[OF Cons.prems(1) s]] Cons.prems(2) by simp
  with s show ?case using same_shape_trans by simp
qed

lemma unat_add_no_wrap:
  fixes a f :: flow_t
  assumes "unat a + unat f < 2 ^ 32"
  shows "unat (a + f) = unat a + unat f"
  using assms by (simp add: unat_add_lem[THEN iffD1])

lemma unat_sub_le:
  fixes a f :: flow_t
  assumes "f \<le> a"
  shows "unat (a - f) = unat a - unat f" "unat f \<le> unat a"
  using assms by (simp_all add: unat_sub word_le_nat_alt)

lemma push_flow_rc:
  assumes "arena_ok k sp adj" "p < length adj"
  shows "residual_capacity (push_flow p f adj ! p) = residual_capacity (adj ! p) - f"
    "residual_capacity (push_flow p f adj ! twin_idx adj p)
       = residual_capacity (adj ! twin_idx adj p) + f"
    "x \<noteq> p \<Longrightarrow> x \<noteq> twin_idx adj p \<Longrightarrow> push_flow p f adj ! x = adj ! x"
    "length (push_flow p f adj) = length adj"
proof -
  note T = arena_twin[OF assms]
  note N = push_flow_nth[OF assms(2) T(2) T(1) T(4)]
  show "residual_capacity (push_flow p f adj ! p) = residual_capacity (adj ! p) - f"
    by (simp add: N)
  show "residual_capacity (push_flow p f adj ! twin_idx adj p)
       = residual_capacity (adj ! twin_idx adj p) + f"
    using T(4) by (simp add: N)
  show "x \<noteq> p \<Longrightarrow> x \<noteq> twin_idx adj p \<Longrightarrow> push_flow p f adj ! x = adj ! x"
    by (simp add: N)
  show "length (push_flow p f adj) = length adj" by (rule N(1))
qed

lemma valid_pushes_pair:
  assumes "arena_ok k sp adj" "valid_pushes ops adj" "p < length adj"
    and "unat (residual_capacity (adj ! p)) + unat (residual_capacity (adj ! twin_idx adj p)) < 2 ^ 32"
  defines "q \<equiv> twin_idx adj p"
  defines "adj' \<equiv> apply_pushes ops adj"
  shows "unat (residual_capacity (adj' ! p)) + unat (residual_capacity (adj' ! q))
         = unat (residual_capacity (adj ! p)) + unat (residual_capacity (adj ! q))
       \<and> unat (residual_capacity (adj' ! q)) + pushed_on q ops
         = unat (residual_capacity (adj ! q)) + pushed_on p ops"
  using assms(1-4) unfolding q_def adj'_def
proof (induction ops arbitrary: adj)
  case Nil
  then show ?case by simp
next
  case (Cons x xs)
  obtain y f where xy: "x = (y, f)" by (cases x)
  let ?q = "twin_idx adj p"
  let ?a = "push_flow y f adj"
  have y: "y < length adj" "f \<le> residual_capacity (adj ! y)"
    and vx: "valid_pushes xs ?a"
    using Cons.prems(2) by (simp_all add: xy)
  note Tp = arena_twin[OF Cons.prems(1) Cons.prems(3)]
  note Ty = arena_twin[OF Cons.prems(1) y(1)]
  note R = push_flow_rc[OF Cons.prems(1) y(1), where f = f]
  have sh: "same_shape adj ?a" by (rule push_flow_shape[OF Cons.prems(1) y(1)])
  have ok: "arena_ok k sp ?a" by (rule arena_ok_shape[OF Cons.prems(1) sh])
  have tq: "twin_idx ?a p = ?q"
    using sh Cons.prems(3) by (simp add: same_shape_def twin_idx_def)
  have pl: "p < length ?a" using Cons.prems(3) R(4) by simp
  let ?rp = "unat (residual_capacity (adj ! p))" and ?rq = "unat (residual_capacity (adj ! ?q))"
  have step: "unat (residual_capacity (?a ! p)) + unat (residual_capacity (?a ! ?q)) = ?rp + ?rq
      \<and> unat (residual_capacity (?a ! ?q)) + (if y = ?q then unat f else 0)
          = ?rq + (if y = p then unat f else 0)"
  proof -
    consider (P) "y = p" | (Q) "y = ?q" | (O) "y \<noteq> p" "y \<noteq> ?q"
      by blast
    then show ?thesis
    proof cases
      case P
      have le: "unat f \<le> ?rp" using unat_sub_le(2)[OF y(2)] P by simp
      have a: "unat (residual_capacity (?a ! p)) = ?rp - unat f"
        using R(1) unat_sub_le(1)[OF y(2)] P by simp
      have "unat (residual_capacity (adj ! ?q) + f) = ?rq + unat f"
        using le Cons.prems(4) by (intro unat_add_no_wrap) simp
      then have b: "unat (residual_capacity (?a ! ?q)) = ?rq + unat f"
        using R(2) P by simp
      show ?thesis using a b le P Tp(4) by simp
    next
      case Q
      have ty: "twin_idx adj y = p" using Q Tp(3) by simp
      have le: "unat f \<le> ?rq" using unat_sub_le(2)[OF y(2)] Q by simp
      have a: "unat (residual_capacity (?a ! ?q)) = ?rq - unat f"
        using R(1) unat_sub_le(1)[OF y(2)] Q by simp
      have "unat (residual_capacity (adj ! p) + f) = ?rp + unat f"
        using le Cons.prems(4) by (intro unat_add_no_wrap) simp
      then have b: "unat (residual_capacity (?a ! p)) = ?rp + unat f"
        using R(2) ty by simp
      show ?thesis using a b le Q Tp(4) by simp
    next
      case O
      have "twin_idx adj y \<noteq> p" using O(2) Ty(3) by auto
      moreover have "twin_idx adj y \<noteq> ?q" using O(1) Ty(3) Tp(3) by metis
      ultimately have "?a ! p = adj ! p" "?a ! ?q = adj ! ?q" using O R(3) by metis+
      then show ?thesis using O by simp
    qed
  qed
  have b: "unat (residual_capacity (?a ! p)) + unat (residual_capacity (?a ! twin_idx ?a p)) < 2 ^ 32"
    using step Cons.prems(4) tq by simp
  define ey where "ey = (if y = ?q then unat f else 0)"
  define ep where "ep = (if y = p then unat f else 0)"
  have pq: "pushed_on ?q (x # xs) = ey + pushed_on ?q xs" "pushed_on p (x # xs) = ep + pushed_on p xs"
    by (simp_all add: xy ey_def ep_def)
  have ap: "apply_pushes (x # xs) adj = apply_pushes xs ?a" by (simp add: xy)
  note ih = Cons.IH[OF ok vx pl b, unfolded tq]
  note st = step[folded ey_def ep_def]
  have c1: "unat (residual_capacity (apply_pushes xs ?a ! p))
      + unat (residual_capacity (apply_pushes xs ?a ! ?q)) = ?rp + ?rq"
    using ih st by linarith
  have c2: "unat (residual_capacity (apply_pushes xs ?a ! ?q)) + (ey + pushed_on ?q xs)
      = ?rq + (ep + pushed_on p xs)"
    using ih st by linarith
  show ?case unfolding ap pq using c1 c2 by (rule conjI)
qed

lemma foldl_begin_cursors:
  assumes "j \<le> k"
  shows "length (foldl (\<lambda>cur u. cur[u := fst (sp ! u)]) (replicate k 0) [0..<j]) = k
       \<and> (\<forall>u<j. foldl (\<lambda>cur u. cur[u := fst (sp ! u)]) (replicate k 0) [0..<j] ! u = fst (sp ! u))"
  using assms
proof (induction j)
  case 0
  then show ?case by simp
next
  case (Suc j)
  then show ?case by (auto simp: nth_list_update)
qed

lemma begin_cursors_eq:
  assumes "rn_n rn = k"
  shows "begin_cursors k rn = map (\<lambda>u. fst (arcs_out_span rn ! u)) [0..<k]"
  unfolding begin_cursors_def assms
  using foldl_begin_cursors[of k k "arcs_out_span rn"]
  by (intro nth_equalityI) simp_all

lemma foldl_extract_step:
  assumes deg: "length deg = k" "\<forall>v<k. deg ! v = occ v as"
    and ends: "endpoints_below k as"
    and cur0: "length cur0 = k" "\<forall>u<k. cur0 ! u = offs deg u"
    and i: "i \<le> length as"
  shows "\<exists>cur. foldl (extract_step adj) ([], cur0) (take i as)
           = (map (\<lambda>j. residual_capacity (adj ! twin_idx adj (slot deg as (tail (as ! j)) j))) [0..<i], cur)
           \<and> length cur = k \<and> (\<forall>u<k. cur ! u = slot deg as u i)"
  using i
proof (induction i)
  case 0
  then show ?case using cur0 by (simp add: slot_def)
next
  case (Suc i)
  then obtain cur where st: "foldl (extract_step adj) ([], cur0) (take i as)
           = (map (\<lambda>j. residual_capacity (adj ! twin_idx adj (slot deg as (tail (as ! j)) j))) [0..<i], cur)"
    and len: "length cur = k" and cur: "\<forall>u<k. cur ! u = slot deg as u i"
    by auto
  have il: "i < length as" using Suc.prems by simp
  define a where "a = as ! i"
  have uv: "tail a < k" "head a < k"
    using ends il unfolding a_def endpoints_below_def by (simp_all add: list_all_length)
  define cur' where "cur' = cur[tail a := cur ! tail a + 1, head a := cur[tail a := cur ! tail a + 1] ! head a + 1]"
  have tk: "take (Suc i) as = take i as @ [a]"
    using il by (simp add: take_Suc_conv_app_nth a_def)
  have fold: "foldl (extract_step adj) ([], cur0) (take (Suc i) as)
     = (map (\<lambda>j. residual_capacity (adj ! twin_idx adj (slot deg as (tail (as ! j)) j))) [0..<Suc i], cur')"
    using cur uv by (simp add: tk st extract_step_def Let_def cur'_def a_def)
  have "\<forall>w<k. cur' ! w = slot deg as w (Suc i)"
  proof (intro allI impI)
    fix w assume w: "w < k"
    have occw: "occ w (take (Suc i) as) = occ w (take i as)
        + (if tail a = w then 1 else 0) + (if head a = w then 1 else 0)"
      using il by (simp add: occ_take_Suc a_def)
    have "cur' ! w = cur ! w + (if tail a = w then 1 else 0) + (if head a = w then 1 else 0)"
      using uv w len by (auto simp: cur'_def nth_list_update)
    then show "cur' ! w = slot deg as w (Suc i)"
      using cur w occw by (simp add: slot_def)
  qed
  then show ?case using fold len by (simp add: cur'_def)
qed

lemma fwd_pos_eq:
  assumes v: "valid_network network" and i: "i < fn_m network"
  shows "fwd_pos network i =
      fst (arcs_out_span (mk_ResidualNetwork network) ! tail (fn_arcs network ! i))
      + occ (tail (fn_arcs network ! i)) (take i (fn_arcs network))"
    "bwd_pos network i =
      fst (arcs_out_span (mk_ResidualNetwork network) ! head (fn_arcs network ! i))
      + occ (head (fn_arcs network ! i)) (take i (fn_arcs network))"
  using valid_network_arc[OF v i]
  by (simp_all add: mk_ResidualNetwork_props(5)[OF v] fwd_pos_def bwd_pos_def slot_def)

lemma span_shape:
  assumes v: "valid_network network" and u: "u < fn_n network"
  defines "sp \<equiv> arcs_out_span (mk_ResidualNetwork network)"
  shows "snd (sp ! u) = fst (sp ! u) + occ u (fn_arcs network)"
    "snd (sp ! u) \<le> 2 * fn_m network"
    "Suc u < fn_n network \<Longrightarrow> snd (sp ! u) = fst (sp ! Suc u)"
    "fst (sp ! 0) = 0"
proof -
  note d = valid_network_deg[OF v]
  have sp: "sp ! w = (offs (net_deg network) w, offs (net_deg network) (w + 1))"
    if "w < fn_n network" for w
    using that by (simp add: sp_def mk_ResidualNetwork_props(5)[OF v])
  show "snd (sp ! u) = fst (sp ! u) + occ u (fn_arcs network)"
    using sp[OF u] d u by (simp add: offs_Suc)
  have ends: "endpoints_below (fn_n network) (fn_arcs network)"
    and m: "fn_m network = length (fn_arcs network)"
    using v by (simp_all add: valid_network_def)
  have "offs (net_deg network) (u + 1) \<le> offs (net_deg network) (fn_n network)"
    using u d by (intro offs_mono) simp_all
  also have "\<dots> = 2 * fn_m network"
    using offs_total[OF ends] m by (simp add: net_deg_def)
  finally show "snd (sp ! u) \<le> 2 * fn_m network" using sp[OF u] by simp
  show "Suc u < fn_n network \<Longrightarrow> snd (sp ! u) = fst (sp ! Suc u)"
    using sp[OF u] sp[of "Suc u"] by simp
  show "fst (sp ! 0) = 0" using sp[of 0] u by (simp add: offs_0)
qed

lemma valid_minimal_example: "valid_network minimal_example"
  by (simp add: valid_network_def minimal_example_def endpoints_below_def no_self_loops_def)

lemma unat_flow_bound: "unat (w :: flow_t) < 2 ^ 32"
  using unsigned_less[of w, where ?'a = nat] by simp

text \<open>
  Claim C6. For a valid network, the constructor stores for the \<open>i\<close>-th arc \<open>(u, v, c)\<close> a
  forward record \<open>(head = v, residual_capacity = c)\<close> in the range of \<open>u\<close> and a backward
  record \<open>(head = u, residual_capacity = 0)\<close> in the range of \<open>v\<close>, each the twin of the
  other. The offset of a record in the range of its vertex is the number of earlier
  occurrences of that vertex in the arc sequence, so the records of a vertex are in arc order;
  the ranges are contiguous, start at 0 and are as long as the vertex has occurrences.
\<close>

theorem mk_ResidualNetwork_records:
  assumes "valid_network network" and "i < fn_m network"
  defines "rn \<equiv> mk_ResidualNetwork network"
  defines "a \<equiv> fn_arcs network ! i"
  defines "sp \<equiv> arcs_out_span (mk_ResidualNetwork network)"
  defines "fp \<equiv> fst (sp ! tail a) + occ (tail a) (take i (fn_arcs network))"
  defines "bp \<equiv> fst (sp ! head a) + occ (head a) (take i (fn_arcs network))"
  shows "adjlist rn ! fp = \<lparr>rhead = head a, residual_capacity = capacity a, twin = Some bp\<rparr>
       \<and> adjlist rn ! bp = \<lparr>rhead = tail a, residual_capacity = 0, twin = Some fp\<rparr>
       \<and> fp \<in> span_of sp (tail a) \<and> bp \<in> span_of sp (head a)
       \<and> length (adjlist rn) = 2 * fn_m network \<and> length sp = fn_n network
       \<and> fst (sp ! 0) = 0
       \<and> (\<forall>u<fn_n network. snd (sp ! u) = fst (sp ! u) + occ u (fn_arcs network)
              \<and> snd (sp ! u) \<le> 2 * fn_m network
              \<and> (Suc u < fn_n network \<longrightarrow> snd (sp ! u) = fst (sp ! Suc u)))"
proof -
  note P = mk_ResidualNetwork_props[OF assms(1)]
  note E = fwd_pos_eq[OF assms(1,2)]
  have fp: "fp = fwd_pos network i" and bp: "bp = bwd_pos network i"
    using E by (simp_all add: fp_def bp_def sp_def a_def)
  have r: "adjlist rn ! fp = \<lparr>rhead = head a, residual_capacity = capacity a, twin = Some bp\<rparr>"
    "adjlist rn ! bp = \<lparr>rhead = tail a, residual_capacity = 0, twin = Some fp\<rparr>"
    using P(7)[rule_format, OF assms(2)] by (simp_all add: fp bp rn_def a_def)
  have s: "fp \<in> span_of sp (tail a)" "bp \<in> span_of sp (head a)"
    using pos_in_span[OF assms(1,2)] by (simp_all add: fp bp sp_def a_def)
  have l: "length (adjlist rn) = 2 * fn_m network" "length sp = fn_n network"
    using P(5,6) by (simp_all add: rn_def sp_def)
  have n0: "0 < fn_n network" using valid_network_arc(1)[OF assms(1,2)] by simp
  have z: "fst (sp ! 0) = 0" using span_shape(4)[OF assms(1) n0] by (simp add: sp_def)
  have u: "\<forall>u<fn_n network. snd (sp ! u) = fst (sp ! u) + occ u (fn_arcs network)
              \<and> snd (sp ! u) \<le> 2 * fn_m network
              \<and> (Suc u < fn_n network \<longrightarrow> snd (sp ! u) = fst (sp ! Suc u))"
    using span_shape(1-3)[OF assms(1)] by (simp add: sp_def)
  show ?thesis using r s l z u by (intro conjI)
qed

text \<open>
  Claim C7. After any sequence of valid \<^verbatim>\<open>push_flow\<close> calls on the residual network of a valid
  network, when \<^verbatim>\<open>get_flow_arcs\<close> reaches the \<open>i\<close>-th arc \<open>(u, v, c)\<close> the cursor of \<open>u\<close> is the
  position of that arc's forward record, and \<open>flow_arcs[i]\<close> is the residual capacity of its
  twin, the backward record: the flow pushed on the forward record minus the flow pushed back.
\<close>

theorem get_flow_arcs_cursor:
  assumes "valid_network network"
    and "valid_pushes ops (adjlist (mk_ResidualNetwork network))"
    and "i < fn_m network"
  defines "adj \<equiv> apply_pushes ops (adjlist (mk_ResidualNetwork network))"
  defines "rn \<equiv> (mk_ResidualNetwork network)\<lparr>adjlist := adj\<rparr>"
  defines "a \<equiv> fn_arcs network ! i"
  shows "snd (foldl (extract_step adj) ([], begin_cursors (fn_n network) rn)
              (take i (fn_arcs network))) ! tail a = fwd_pos network i
       \<and> rhead (adj ! fwd_pos network i) = head a
       \<and> twin (adj ! fwd_pos network i) = Some (bwd_pos network i)
       \<and> rhead (adj ! bwd_pos network i) = tail a
       \<and> twin (adj ! bwd_pos network i) = Some (fwd_pos network i)
       \<and> length (get_flow_arcs network rn) = fn_m network
       \<and> get_flow_arcs network rn ! i = residual_capacity (adj ! bwd_pos network i)
       \<and> unat (get_flow_arcs network rn ! i) + pushed_on (bwd_pos network i) ops
           = pushed_on (fwd_pos network i) ops
       \<and> unat (get_flow_arcs network rn ! i) + unat (residual_capacity (adj ! fwd_pos network i))
           = unat (capacity a)"
proof -
  let ?rn0 = "mk_ResidualNetwork network"
  let ?as = "fn_arcs network" and ?k = "fn_n network"
  note v = assms(1)
  note P = mk_ResidualNetwork_props[OF v]
  note d = valid_network_deg[OF v]
  note A = mk_ResidualNetwork_arena_ok[OF v]
  note ai = valid_network_arc[OF v assms(3)]
  have ends: "endpoints_below ?k ?as" and m: "fn_m network = length ?as"
    using v by (simp_all add: valid_network_def)
  have sh: "same_shape (adjlist ?rn0) adj"
    unfolding adj_def by (rule valid_pushes_shape[OF A assms(2)])
  have S: "\<And>p. p < 2 * fn_m network \<Longrightarrow>
      rhead (adj ! p) = rhead (adjlist ?rn0 ! p) \<and> twin (adj ! p) = twin (adjlist ?rn0 ! p)"
    using sh P(6) by (simp add: same_shape_def)
  have lt: "fwd_pos network j < 2 * fn_m network" "bwd_pos network j < 2 * fn_m network"
    if "j < fn_m network" for j
    using pos_in_span[OF v that] span_subset[OF v valid_network_arc(1)[OF v that]]
      span_subset[OF v valid_network_arc(2)[OF v that]] by auto
  have rec: "adjlist ?rn0 ! fwd_pos network j =
        \<lparr>rhead = head (?as ! j), residual_capacity = capacity (?as ! j),
         twin = Some (bwd_pos network j)\<rparr>"
      "adjlist ?rn0 ! bwd_pos network j =
        \<lparr>rhead = tail (?as ! j), residual_capacity = 0, twin = Some (fwd_pos network j)\<rparr>"
    if "j < fn_m network" for j
    using P(7)[rule_format, OF that] by simp_all
  have tw: "twin_idx adj (fwd_pos network j) = bwd_pos network j" if "j < fn_m network" for j
    using S[OF lt(1)[OF that]] rec(1)[OF that] by (simp add: twin_idx_def)
  have c0: "begin_cursors ?k rn = map (offs (net_deg network)) [0..<?k]"
    using begin_cursors_eq[of rn ?k] P(1,5) by (simp add: rn_def)
  have cl: "length (begin_cursors ?k rn) = ?k"
    "\<forall>u<?k. begin_cursors ?k rn ! u = offs (net_deg network) u"
    by (simp_all add: c0)
  have ex: "\<exists>cur. foldl (extract_step adj) ([], begin_cursors ?k rn) (take j ?as)
           = (map (\<lambda>j. residual_capacity (adj ! bwd_pos network j)) [0..<j], cur)
           \<and> length cur = ?k \<and> (\<forall>u<?k. cur ! u = slot (net_deg network) ?as u j)"
    if j: "j \<le> fn_m network" for j
  proof -
    from foldl_extract_step[OF d ends cl, of j adj] j m obtain cur where
      c: "foldl (extract_step adj) ([], begin_cursors ?k rn) (take j ?as)
           = (map (\<lambda>j. residual_capacity (adj ! twin_idx adj
                 (slot (net_deg network) ?as (tail (?as ! j)) j))) [0..<j], cur)"
      "length cur = ?k" "\<forall>u<?k. cur ! u = slot (net_deg network) ?as u j"
      by auto
    have "map (\<lambda>j. residual_capacity (adj ! twin_idx adj
                 (slot (net_deg network) ?as (tail (?as ! j)) j))) [0..<j]
        = map (\<lambda>j. residual_capacity (adj ! bwd_pos network j)) [0..<j]"
      using tw j by (simp add: fwd_pos_def)
    with c show ?thesis by simp
  qed
  have g: "get_flow_arcs network rn = map (\<lambda>j. residual_capacity (adj ! bwd_pos network j)) [0..<fn_m network]"
    using ex[OF le_refl] m by (auto simp: get_flow_arcs_def rn_def)
  have c1: "snd (foldl (extract_step adj) ([], begin_cursors ?k rn) (take i ?as)) ! tail a
      = fwd_pos network i"
    using ex[of i] assms(3) ai(1) by (auto simp: a_def fwd_pos_def)
  have c2: "rhead (adj ! fwd_pos network i) = head a"
    "twin (adj ! fwd_pos network i) = Some (bwd_pos network i)"
    "rhead (adj ! bwd_pos network i) = tail a"
    "twin (adj ! bwd_pos network i) = Some (fwd_pos network i)"
    using S[OF lt(1)[OF assms(3)]] S[OF lt(2)[OF assms(3)]] rec[OF assms(3)]
    by (simp_all add: a_def)
  have c3: "length (get_flow_arcs network rn) = fn_m network"
    "get_flow_arcs network rn ! i = residual_capacity (adj ! bwd_pos network i)"
    using assms(3) by (simp_all add: g)
  have fl: "fwd_pos network i < length (adjlist ?rn0)" using lt(1)[OF assms(3)] P(6) by simp
  have t0: "twin_idx (adjlist ?rn0) (fwd_pos network i) = bwd_pos network i"
    using rec(1)[OF assms(3)] by (simp add: twin_idx_def)
  have b: "unat (residual_capacity (adjlist ?rn0 ! fwd_pos network i))
      + unat (residual_capacity (adjlist ?rn0 ! twin_idx (adjlist ?rn0) (fwd_pos network i))) < 2 ^ 32"
    using rec[OF assms(3)] unat_flow_bound[of "capacity (?as ! i)"] by (simp add: t0)
  note pr = valid_pushes_pair[OF A assms(2) fl b, unfolded t0, folded adj_def]
  have c4: "unat (get_flow_arcs network rn ! i) + pushed_on (bwd_pos network i) ops
           = pushed_on (fwd_pos network i) ops"
    using pr rec[OF assms(3)] by (simp add: c3)
  have c5: "unat (get_flow_arcs network rn ! i) + unat (residual_capacity (adj ! fwd_pos network i))
           = unat (capacity a)"
    using pr rec[OF assms(3)] by (simp add: c3 a_def)
  show ?thesis using c1 c2 c3 c4 c5 by (intro conjI)
qed

theorem mk_ResidualNetwork_records_witness:
  "valid_network minimal_example \<and> (2::nat) < fn_m minimal_example
   \<and> adjlist (mk_ResidualNetwork minimal_example) ! 3
       = \<lparr>rhead = 2, residual_capacity = 2, twin = Some 7\<rparr>
   \<and> adjlist (mk_ResidualNetwork minimal_example) ! 7
       = \<lparr>rhead = 1, residual_capacity = 0, twin = Some 3\<rparr>"
proof -
  have v: "valid_network minimal_example" by (rule valid_minimal_example)
  have i: "(2::nat) < fn_m minimal_example" by (simp add: minimal_example_def)
  have fp: "fst (arcs_out_span (mk_ResidualNetwork minimal_example) ! tail (fn_arcs minimal_example ! 2))
      + occ (tail (fn_arcs minimal_example ! 2)) (take 2 (fn_arcs minimal_example)) = 3"
    by code_simp
  have bp: "fst (arcs_out_span (mk_ResidualNetwork minimal_example) ! head (fn_arcs minimal_example ! 2))
      + occ (head (fn_arcs minimal_example ! 2)) (take 2 (fn_arcs minimal_example)) = 7"
    by code_simp
  have a: "head (fn_arcs minimal_example ! 2) = 2" "tail (fn_arcs minimal_example ! 2) = 1"
    "capacity (fn_arcs minimal_example ! 2) = 2"
    by (simp_all add: minimal_example_def)
  note T = mk_ResidualNetwork_records[OF v i, unfolded fp bp]
  from T have "adjlist (mk_ResidualNetwork minimal_example) ! 3
       = \<lparr>rhead = 2, residual_capacity = 2, twin = Some 7\<rparr>"
    unfolding a by (rule conjunct1)
  moreover from T have "adjlist (mk_ResidualNetwork minimal_example) ! 7
       = \<lparr>rhead = 1, residual_capacity = 0, twin = Some 3\<rparr>"
    unfolding a by (elim conjE)
  ultimately show ?thesis using v i by (intro conjI)
qed

theorem get_flow_arcs_cursor_witness:
  "valid_network minimal_example
   \<and> valid_pushes [(0, 3), (4, 3), (10, 3), (9, 1)] (adjlist (mk_ResidualNetwork minimal_example))
   \<and> (3::nat) < fn_m minimal_example
   \<and> unat (get_flow_arcs minimal_example ((mk_ResidualNetwork minimal_example)
        \<lparr>adjlist := apply_pushes [(0, 3), (4, 3), (10, 3), (9, 1)]
            (adjlist (mk_ResidualNetwork minimal_example))\<rparr>) ! 3)
      + pushed_on 9 [(0, 3), (4, 3), (10, 3), (9, 1)] = pushed_on 4 [(0, 3), (4, 3), (10, 3), (9, 1)]"
proof -
  have v: "valid_network minimal_example" by (rule valid_minimal_example)
  have i: "(3::nat) < fn_m minimal_example" by (simp add: minimal_example_def)
  have p: "valid_pushes [(0, 3), (4, 3), (10, 3), (9, 1)] (adjlist (mk_ResidualNetwork minimal_example))"
    by code_simp
  have fp: "fwd_pos minimal_example 3 = 4" by code_simp
  have bp: "bwd_pos minimal_example 3 = 9" by code_simp
  note T = get_flow_arcs_cursor[OF v p i, unfolded fp bp]
  from T have "unat (get_flow_arcs minimal_example ((mk_ResidualNetwork minimal_example)
        \<lparr>adjlist := apply_pushes [(0, 3), (4, 3), (10, 3), (9, 1)]
            (adjlist (mk_ResidualNetwork minimal_example))\<rparr>) ! 3)
      + pushed_on 9 [(0, 3), (4, 3), (10, 3), (9, 1)] = pushed_on 4 [(0, 3), (4, 3), (10, 3), (9, 1)]"
    by (elim conjE)
  then show ?thesis using v p i by (intro conjI)
qed

lemma pair_ok_refl: "pair_ok adj adj"
  by (simp add: pair_ok_def same_shape_refl)

lemma same_shape_twin_idx:
  "same_shape adj adj' \<Longrightarrow> p < length adj \<Longrightarrow> twin_idx adj' p = twin_idx adj p"
  by (simp add: same_shape_def twin_idx_def)

lemma same_shape_arc_tail:
  assumes "arena_ok k sp adj" "same_shape adj adj'" "p < length adj"
  shows "arc_tail adj' p = arc_tail adj p"
proof -
  have t: "twin_idx adj' p = twin_idx adj p" by (rule same_shape_twin_idx[OF assms(2,3)])
  have "twin_idx adj p < length adj" by (rule arena_twin(1)[OF assms(1,3)])
  then show ?thesis using assms(2) t by (simp add: arc_tail_def same_shape_def)
qed

lemma span_owner:
  assumes "arena_ok k sp adj" "u < k" "p \<in> span_of sp u"
  shows "p < length adj" "arc_tail adj p = u"
proof -
  show pl: "p < length adj" using assms unfolding arena_ok_def by blast
  note T = arena_twin[OF assms(1) pl]
  show "arc_tail adj p = u"
  proof (rule ccontr)
    assume ne: "arc_tail adj p \<noteq> u"
    have "span_of sp (arc_tail adj p) \<inter> span_of sp u = {}"
      using assms(1,2) T(9) ne unfolding arena_ok_def by blast
    then show False using T(8) assms(3) by blast
  qed
qed

lemma finite_span: "finite (span_of sp v)"
  by (simp add: span_of_def)

lemma sum_change_one:
  fixes g g' :: "nat \<Rightarrow> nat"
  assumes "finite S" "p \<in> S" "\<And>x. x \<in> S \<Longrightarrow> x \<noteq> p \<Longrightarrow> g' x = g x"
  shows "sum g' S + g p = sum g S + g' p"
proof -
  have "sum g' S = g' p + sum g' (S - {p})" using assms(1,2) by (rule sum.remove)
  moreover have "sum g S = g p + sum g (S - {p})" using assms(1,2) by (rule sum.remove)
  moreover have "sum g' (S - {p}) = sum g (S - {p})" using assms(3) by (intro sum.cong) auto
  ultimately show ?thesis by simp
qed

lemma push_flow_ok:
  assumes A: "arena_ok k sp adj0" and cb: "caps_bounded adj0" and po: "pair_ok adj0 adj"
    and p: "p < length adj0" and f: "f \<le> residual_capacity (adj ! p)"
  defines "adj' \<equiv> push_flow p f adj"
  shows "pair_ok adj0 adj'"
    "unat (residual_capacity (adj' ! p)) + unat f = unat (residual_capacity (adj ! p))"
    "unat (residual_capacity (adj' ! twin_idx adj0 p))
       = unat (residual_capacity (adj ! twin_idx adj0 p)) + unat f"
    "\<And>x. x \<noteq> p \<Longrightarrow> x \<noteq> twin_idx adj0 p \<Longrightarrow> adj' ! x = adj ! x"
    "span_sum sp adj' (arc_tail adj0 p) + unat f = span_sum sp adj (arc_tail adj0 p)"
    "span_sum sp adj' (rhead (adj0 ! p)) = span_sum sp adj (rhead (adj0 ! p)) + unat f"
    "\<And>v. v < k \<Longrightarrow> v \<noteq> arc_tail adj0 p \<Longrightarrow> v \<noteq> rhead (adj0 ! p)
        \<Longrightarrow> span_sum sp adj' v = span_sum sp adj v"
proof -
  have sh: "same_shape adj0 adj" using po by (simp add: pair_ok_def)
  have len: "length adj = length adj0" using sh by (simp add: same_shape_def)
  have A': "arena_ok k sp adj" by (rule arena_ok_shape[OF A sh])
  have p': "p < length adj" using p len by simp
  let ?q = "twin_idx adj0 p"
  have tq: "twin_idx adj p = ?q" by (rule same_shape_twin_idx[OF sh p])
  note T = arena_twin[OF A p]
  note R = push_flow_rc[OF A' p', where f = f, folded adj'_def, unfolded tq]
  have sh': "same_shape adj adj'" unfolding adj'_def by (rule push_flow_shape[OF A' p'])
  have sh0: "same_shape adj0 adj'" by (rule same_shape_trans[OF sh sh'])
  have ps: "unat (residual_capacity (adj ! p)) + unat (residual_capacity (adj ! ?q))
      = unat (residual_capacity (adj0 ! p)) + unat (residual_capacity (adj0 ! ?q))"
    using po p by (simp add: pair_ok_def)
  have bd: "unat (residual_capacity (adj0 ! p)) + unat (residual_capacity (adj0 ! ?q)) < 2 ^ 32"
    using cb p by (simp add: caps_bounded_def)
  have le: "unat f \<le> unat (residual_capacity (adj ! p))" by (rule unat_sub_le(2)[OF f])
  show c2: "unat (residual_capacity (adj' ! p)) + unat f = unat (residual_capacity (adj ! p))"
    using R(1) unat_sub_le(1)[OF f] le by simp
  have "unat (residual_capacity (adj ! ?q) + f) = unat (residual_capacity (adj ! ?q)) + unat f"
    using le ps bd by (intro unat_add_no_wrap) simp
  then show c3: "unat (residual_capacity (adj' ! ?q)) = unat (residual_capacity (adj ! ?q)) + unat f"
    using R(2) by simp
  show c4: "\<And>x. x \<noteq> p \<Longrightarrow> x \<noteq> ?q \<Longrightarrow> adj' ! x = adj ! x" using R(3) by simp
  show "pair_ok adj0 adj'"
    unfolding pair_ok_def
  proof (intro conjI allI impI)
    show "same_shape adj0 adj'" by (rule sh0)
  next
    fix x assume x: "x < length adj0"
    note Tx = arena_twin[OF A x]
    let ?y = "twin_idx adj0 x"
    have old: "unat (residual_capacity (adj ! x)) + unat (residual_capacity (adj ! ?y))
      = unat (residual_capacity (adj0 ! x)) + unat (residual_capacity (adj0 ! ?y))"
      using po x by (simp add: pair_ok_def)
    consider (P) "x = p" | (Q) "x = ?q" | (O) "x \<noteq> p" "x \<noteq> ?q" by blast
    then show "unat (residual_capacity (adj' ! x)) + unat (residual_capacity (adj' ! ?y))
      = unat (residual_capacity (adj0 ! x)) + unat (residual_capacity (adj0 ! ?y))"
    proof cases
      case P
      then show ?thesis using c2 c3 old by simp
    next
      case Q
      then have "?y = p" using T(3) by simp
      then show ?thesis using c2 c3 old Q by simp
    next
      case O
      have "?y \<noteq> p" using O(2) Tx(3) by auto
      moreover have "?y \<noteq> ?q" using O(1) Tx(3) T(3) by metis
      ultimately show ?thesis using O c4 old by simp
    qed
  qed
  let ?u = "arc_tail adj0 p" and ?h = "rhead (adj0 ! p)"
  let ?g = "\<lambda>x. unat (residual_capacity (adj ! x))"
  let ?g' = "\<lambda>x. unat (residual_capacity (adj' ! x))"
  have dj: "span_of sp ?u \<inter> span_of sp ?h = {}"
    using A T(5,9,10) unfolding arena_ok_def by blast
  have qu: "?q \<notin> span_of sp ?u" using dj T(6) by blast
  have ph: "p \<notin> span_of sp ?h" by (rule T(7))
  have eu: "?g' x = ?g x" if "x \<in> span_of sp ?u" "x \<noteq> p" for x
  proof -
    have "x \<noteq> ?q" using that(1) qu by blast
    then show ?thesis using c4[OF that(2)] by simp
  qed
  have eh: "?g' x = ?g x" if "x \<in> span_of sp ?h" "x \<noteq> ?q" for x
  proof -
    have "x \<noteq> p" using that(1) ph by blast
    then show ?thesis using c4[OF _ that(2)] by simp
  qed
  have "sum ?g' (span_of sp ?u) + ?g p = sum ?g (span_of sp ?u) + ?g' p"
    using T(8) eu by (intro sum_change_one finite_span)
  then show "span_sum sp adj' ?u + unat f = span_sum sp adj ?u"
    using c2 by (simp add: span_sum_def)
  have "sum ?g' (span_of sp ?h) + ?g ?q = sum ?g (span_of sp ?h) + ?g' ?q"
    using T(6) eh by (intro sum_change_one finite_span)
  then show "span_sum sp adj' ?h = span_sum sp adj ?h + unat f"
    using c3 by (simp add: span_sum_def)
  show "span_sum sp adj' v = span_sum sp adj v"
    if v: "v < k" "v \<noteq> ?u" "v \<noteq> ?h" for v
  proof -
    have "span_of sp ?u \<inter> span_of sp v = {}" "span_of sp ?h \<inter> span_of sp v = {}"
      using A T(5,9) v unfolding arena_ok_def by blast+
    then have "p \<notin> span_of sp v" "?q \<notin> span_of sp v" using T(8) T(6) by blast+
    then have "\<And>x. x \<in> span_of sp v \<Longrightarrow> adj' ! x = adj ! x" using c4 by metis
    then show ?thesis by (simp add: span_sum_def)
  qed
qed

lemma push_list_ok:
  assumes A: "arena_ok k sp adj0" and cb: "caps_bounded adj0"
    and po: "pair_ok adj0 adj" and dc: "distinct cs"
    and cs: "\<forall>a\<in>set cs. a < length adj0 \<and> d \<le> residual_capacity (adj ! a)"
  shows "valid_pushes (map (\<lambda>a. (a, d)) cs) adj
       \<and> pair_ok adj0 (apply_pushes (map (\<lambda>a. (a, d)) cs) adj)
       \<and> (\<forall>v<k. span_sum sp (apply_pushes (map (\<lambda>a. (a, d)) cs) adj) v
                   + unat d * tails_at adj0 v cs
                 = span_sum sp adj v + unat d * heads_at adj0 v cs)"
  using po dc cs
proof (induction cs arbitrary: adj)
  case Nil
  then show ?case by (simp add: tails_at_def heads_at_def)
next
  case (Cons a cs)
  let ?adj1 = "push_flow a d adj"
  let ?adj' = "apply_pushes (map (\<lambda>a. (a, d)) cs) ?adj1"
  have a: "a < length adj0" "d \<le> residual_capacity (adj ! a)" using Cons.prems(3) by simp_all
  have len: "length adj = length adj0" using Cons.prems(1) by (simp add: pair_ok_def same_shape_def)
  note P = push_flow_ok[OF A cb Cons.prems(1) a]
  note T = arena_twin[OF A a(1)]
  have rest: "\<forall>b\<in>set cs. b < length adj0 \<and> d \<le> residual_capacity (?adj1 ! b)"
  proof
    fix b assume b: "b \<in> set cs"
    then have ba: "b \<noteq> a" using Cons.prems(2) by auto
    have bl: "b < length adj0" and bd: "d \<le> residual_capacity (adj ! b)"
      using Cons.prems(3) b by simp_all
    have "d \<le> residual_capacity (?adj1 ! b)"
    proof (cases "b = twin_idx adj0 a")
      case True
      have "unat d \<le> unat (residual_capacity (?adj1 ! b))" using P(3) True by simp
      then show ?thesis by (simp add: word_le_nat_alt)
    next
      case False
      then show ?thesis using P(4)[OF ba] bd by simp
    qed
    with bl show "b < length adj0 \<and> d \<le> residual_capacity (?adj1 ! b)" by simp
  qed
  have dcs: "distinct cs" using Cons.prems(2) by simp
  note IH = Cons.IH[OF P(1) dcs rest]
  have v1: "valid_pushes (map (\<lambda>a. (a, d)) (a # cs)) adj"
    using IH a len by simp
  have v2: "pair_ok adj0 (apply_pushes (map (\<lambda>a. (a, d)) (a # cs)) adj)"
    using IH by simp
  have v3: "span_sum sp (apply_pushes (map (\<lambda>a. (a, d)) (a # cs)) adj) v
                   + unat d * tails_at adj0 v (a # cs)
                 = span_sum sp adj v + unat d * heads_at adj0 v (a # cs)" if v: "v < k" for v
  proof -
    have ih: "span_sum sp ?adj' v + unat d * tails_at adj0 v cs
        = span_sum sp ?adj1 v + unat d * heads_at adj0 v cs"
      using IH v by simp
    have ta: "tails_at adj0 v (a # cs) = (if arc_tail adj0 a = v then 1 else 0) + tails_at adj0 v cs"
      and ha: "heads_at adj0 v (a # cs) = (if rhead (adj0 ! a) = v then 1 else 0) + heads_at adj0 v cs"
      by (simp_all add: tails_at_def heads_at_def)
    consider (U) "v = arc_tail adj0 a" | (H) "v = rhead (adj0 ! a)"
      | (O) "v \<noteq> arc_tail adj0 a" "v \<noteq> rhead (adj0 ! a)" by blast
    then have "span_sum sp ?adj1 v + (if arc_tail adj0 a = v then unat d else 0)
        = span_sum sp adj v + (if rhead (adj0 ! a) = v then unat d else 0)"
    proof cases
      case U
      then show ?thesis using P(5) T(10) by simp
    next
      case H
      then show ?thesis using P(6) T(10) by simp
    next
      case O
      then show ?thesis using P(7)[OF v] by auto
    qed
    then have "span_sum sp ?adj' v + unat d * tails_at adj0 v cs
                 + unat d * (if arc_tail adj0 a = v then 1 else 0)
        = span_sum sp adj v + unat d * heads_at adj0 v cs
                 + unat d * (if rhead (adj0 ! a) = v then 1 else 0)"
      using ih by (simp split: if_splits)
    then show ?thesis unfolding ta ha by (simp add: algebra_simps)
  qed
  show ?case using v1 v2 v3 by blast
qed

lemma chain_pred_update:
  assumes "chain adj prd s v cs" "prd ! h = None" "h \<noteq> s"
  shows "chain adj (prd[h := Some a]) s v cs"
  using assms(1)
proof (induction cs arbitrary: v)
  case Nil
  then show ?case using assms(3) by simp
next
  case (Cons b cs)
  then have "v \<noteq> h" using assms(2) by auto
  then show ?case using Cons by simp
qed

lemma chain_head_lt:
  assumes "arena_ok k sp adj" "chain adj prd s v cs" "s < k"
  shows "v < k"
proof (cases cs)
  case Nil
  then show ?thesis using assms by simp
next
  case (Cons a as)
  then have "a < length adj" "rhead (adj ! a) = v" using assms(2) by simp_all
  then show ?thesis using arena_twin(5)[OF assms(1)] by auto
qed

lemma chain_pred_mono:
  assumes A: "arena_ok k sp adj" and s: "s < k"
    and "chain adj prd s v cs"
    and mono: "\<forall>w<k. prd ! w \<noteq> None \<longrightarrow> prd' ! w = prd ! w"
    and ps: "prd' ! s = None"
  shows "chain adj prd' s v cs"
  using assms(3)
proof (induction cs arbitrary: v)
  case Nil
  then show ?case using ps by simp
next
  case (Cons b cs)
  have "v < k" by (rule chain_head_lt[OF A Cons.prems s])
  then have "prd' ! v = prd ! v" using mono Cons.prems by auto
  then show ?case using Cons by simp
qed

lemma chain_same_shape:
  assumes A: "arena_ok k sp adj" and sh: "same_shape adj adj'"
    and "chain adj prd s v cs"
  shows "chain adj' prd s v cs"
  using assms(3)
proof (induction cs arbitrary: v)
  case Nil
  then show ?case by simp
next
  case (Cons b cs)
  have b: "b < length adj" using Cons.prems by simp
  have "arc_tail adj' b = arc_tail adj b" by (rule same_shape_arc_tail[OF A sh b])
  moreover have "rhead (adj' ! b) = rhead (adj ! b)" "length adj' = length adj"
    using sh b by (simp_all add: same_shape_def)
  ultimately show ?case using Cons by simp
qed

lemma ek_ext_refl: "ek_ext lst st lst st"
  by (simp add: ek_ext_def)

lemma ek_ext_trans:
  assumes "ek_ext l1 s1 l2 s2" "ek_ext l2 s2 l3 s3"
    and "\<forall>v<rn_n (ek_rnetwork s1). ek_pred s1 ! v \<noteq> None \<longrightarrow> ek_pred s2 ! v \<noteq> None"
  shows "ek_ext l1 s1 l3 s3"
proof -
  have "take l1 (ek_bfs_ordering s3) = take l1 (take l2 (ek_bfs_ordering s3))"
    using assms(1) by (simp add: ek_ext_def min_def)
  also have "\<dots> = take l1 (take l2 (ek_bfs_ordering s2))" using assms(2) by (simp add: ek_ext_def)
  also have "\<dots> = take l1 (ek_bfs_ordering s2)" using assms(1) by (simp add: ek_ext_def min_def)
  finally have t: "take l1 (ek_bfs_ordering s3) = take l1 (ek_bfs_ordering s1)"
    using assms(1) by (simp add: ek_ext_def)
  have "ek_pred s3 ! v = ek_pred s1 ! v"
    if "v < rn_n (ek_rnetwork s1)" "ek_pred s1 ! v \<noteq> None" for v
  proof -
    have a: "ek_pred s2 ! v = ek_pred s1 ! v" using assms(1) that by (simp add: ek_ext_def)
    then have "ek_pred s2 ! v \<noteq> None" using that by simp
    then have "ek_pred s3 ! v = ek_pred s2 ! v" using assms(1,2) that by (simp add: ek_ext_def)
    with a show ?thesis by simp
  qed
  then show ?thesis using assms(1,2) t by (simp add: ek_ext_def)
qed

lemma ek_bfs_inv_pred_source:
  assumes "ek_bfs_inv lst st"
  shows "ek_pred st ! rn_source (ek_rnetwork st) = None"
proof (rule ccontr)
  let ?s = "rn_source (ek_rnetwork st)" and ?ord = "ek_bfs_ordering st"
  assume "ek_pred st ! ?s \<noteq> None"
  moreover have sk: "?s < rn_n (ek_rnetwork st)" using assms by (simp add: ek_bfs_inv_def ek_static_def)
  ultimately obtain j where j: "0 < j" "j < lst" "?ord ! j = ?s"
    using assms unfolding ek_bfs_inv_def by blast
  have d: "distinct (take lst ?ord)" and o0: "?ord ! 0 = ?s" and l: "lst \<le> length ?ord"
    using assms by (simp_all add: ek_bfs_inv_def ek_static_def)
  have "take lst ?ord ! j = take lst ?ord ! 0" using j o0 by simp
  moreover have "j < length (take lst ?ord)" "0 < length (take lst ?ord)" using j l by simp_all
  ultimately have "j = 0" using d nth_eq_iff_index_eq by blast
  then show False using j by simp
qed

lemma ek_discover:
  assumes inv: "ek_bfs_inv lst st" and i: "i < lst"
    and a: "a \<in> span_of (arcs_out_span (ek_rnetwork st)) (ek_bfs_ordering st ! i)"
    and h: "h = rhead (adjlist (ek_rnetwork st) ! a)"
    and hn: "ek_pred st ! h = None"
    and rc: "residual_capacity (adjlist (ek_rnetwork st) ! a) \<noteq> 0"
    and hs: "h \<noteq> rn_source (ek_rnetwork st)"
  defines "st1 \<equiv> st\<lparr>ek_pred := (ek_pred st)[h := Some a]\<rparr>"
  defines "st2 \<equiv> st1\<lparr>ek_bfs_ordering := (ek_bfs_ordering st1)[lst := h]\<rparr>"
  shows "h = rn_sink (ek_rnetwork st) \<Longrightarrow> ek_found st1"
    and "h \<noteq> rn_sink (ek_rnetwork st) \<Longrightarrow> ek_bfs_inv (lst + 1) st2"
    and "ek_ext lst st (lst + 1) st2"
    and "ek_pred st2 ! h \<noteq> None"
proof -
  let ?rn = "ek_rnetwork st"
  define k where "k = rn_n ?rn"
  define sp where "sp = arcs_out_span ?rn"
  define adj where "adj = adjlist ?rn"
  define s where "s = rn_source ?rn"
  define t where "t = rn_sink ?rn"
  define prd where "prd = ek_pred st"
  define ord where "ord = ek_bfs_ordering st"
  note defs = k_def sp_def adj_def s_def t_def prd_def ord_def
  have stat: "ek_static st" using inv by (simp add: ek_bfs_inv_def)
  have A: "arena_ok k sp adj" and sk: "s < k" and tk: "t < k" and st: "s \<noteq> t"
    and lp: "length prd = k" and lo: "length ord = k" and o0: "ord ! 0 = s"
    using stat by (simp_all add: ek_static_def defs)
  have l1: "1 \<le> lst" and lk: "lst \<le> k" and dist: "distinct (take lst ord)"
    and ok: "\<forall>j<lst. ord ! j < k"
    and vis: "\<forall>v<k. prd ! v \<noteq> None \<longleftrightarrow> (\<exists>j. 0 < j \<and> j < lst \<and> ord ! j = v)"
    and ch: "\<forall>j<lst. \<exists>cs. chain adj prd s (ord ! j) cs"
    and pt: "prd ! t = None"
    and pr: "\<forall>v<k. \<forall>b. prd ! v = Some b \<longrightarrow> residual_capacity (adj ! b) \<noteq> 0"
    using inv by (simp_all add: ek_bfs_inv_def ek_pred_residual_def defs)
  have ps: "prd ! s = None" using ek_bfs_inv_pred_source[OF inv] by (simp add: defs)
  have uk: "ord ! i < k" using ok i by simp
  have al: "a < length adj" and ta: "arc_tail adj a = ord ! i"
    using span_owner[OF A uk] a by (simp_all add: defs)
  have hk: "h < k" using arena_twin(5)[OF A al] h by (simp add: defs)
  have hs': "h \<noteq> s" using hs by (simp add: defs)
  define prd1 where "prd1 = prd[h := Some a]"
  have prd1h: "prd1 ! h = Some a" using hk lp by (simp add: prd1_def)
  have prd1o: "\<And>v. v \<noteq> h \<Longrightarrow> prd1 ! v = prd ! v" by (simp add: prd1_def)
  have ch1: "chain adj prd1 s v cs" if "chain adj prd s v cs" for v cs
    unfolding prd1_def using that hn hs' by (intro chain_pred_update) (simp_all add: defs)
  from ch i obtain cu where cu: "chain adj prd s (ord ! i) cu" by blast
  have chh: "chain adj prd1 s h (a # cu)"
    using ch1[OF cu] hs' prd1h al h ta by (simp add: defs)
  have pr1: "\<forall>v<k. \<forall>b. prd1 ! v = Some b \<longrightarrow> residual_capacity (adj ! b) \<noteq> 0"
  proof (intro allI impI)
    fix v b assume v: "v < k" and b: "prd1 ! v = Some b"
    show "residual_capacity (adj ! b) \<noteq> 0"
    proof (cases "v = h")
      case True
      then show ?thesis using b prd1h rc by (simp add: defs)
    next
      case False
      then show ?thesis using b prd1o pr v by simp
    qed
  qed
  have f1: "ek_rnetwork st1 = ?rn" "ek_pred st1 = prd1" "ek_bfs_ordering st1 = ord"
    "ek_maxflow st1 = ek_maxflow st" "ek_pushes st1 = ek_pushes st"
    by (simp_all add: st1_def prd1_def defs)
  have stat1: "ek_static st1"
    using stat by (simp add: ek_static_def f1 prd1_def prd_def ord_def)
  show "ek_found st1" if "h = rn_sink (ek_rnetwork st)"
  proof -
    have "chain adj prd1 s t (a # cu)" using chh that by (simp add: defs)
    then have "\<exists>cs. chain adj prd1 s t cs" by blast
    then show ?thesis
      unfolding ek_found_def ek_pred_residual_def f1
      using stat1 pr1 by (simp add: defs)
  qed
  have hnot: "h \<notin> set (take lst ord)"
  proof
    assume "h \<in> set (take lst ord)"
    then obtain j where j: "j < lst" "ord ! j = h"
      using lk lo by (auto simp: in_set_conv_nth)
    have "j \<noteq> 0"
    proof
      assume "j = 0"
      then have "h = s" using j(2) o0 by simp
      then show False using hs' by simp
    qed
    then have "0 < j \<and> j < lst \<and> ord ! j = h" using j by simp
    then have "prd ! h \<noteq> None" using vis hk by blast
    then show False using hn by (simp add: defs)
  qed
  have lst_lt: "lst < k"
  proof -
    have "x \<in> {..<k} - {h}" if x: "x \<in> set (take lst ord)" for x
    proof -
      from x obtain j where "j < lst" "ord ! j = x"
        using lk lo by (auto simp: in_set_conv_nth)
      then have "x < k" using ok by auto
      moreover have "x \<noteq> h" using x hnot by blast
      ultimately show ?thesis by simp
    qed
    then have "set (take lst ord) \<subseteq> {..<k} - {h}" by blast
    then have "card (set (take lst ord)) \<le> card ({..<k} - {h})"
      by (intro card_mono) simp_all
    moreover have "card (set (take lst ord)) = lst"
      using distinct_card[OF dist] lk lo by simp
    moreover have "card ({..<k} - {h}) = k - 1" using hk by simp
    ultimately show ?thesis using hk by simp
  qed
  define ord2 where "ord2 = ord[lst := h]"
  have f2: "ek_rnetwork st2 = ?rn" "ek_pred st2 = prd1" "ek_bfs_ordering st2 = ord2"
    "ek_maxflow st2 = ek_maxflow st" "ek_pushes st2 = ek_pushes st"
    by (simp_all add: st2_def f1 ord2_def)
  have tk2: "take (lst + 1) ord2 = take lst ord @ [h]"
    using lst_lt lo by (simp add: ord2_def take_Suc_conv_app_nth)
  have tk2': "take lst ord2 = take lst ord" by (simp add: ord2_def)
  have o2: "\<And>j. j < lst \<Longrightarrow> ord2 ! j = ord ! j" "ord2 ! lst = h"
    using lst_lt lo by (simp_all add: ord2_def)
  have mono: "\<forall>v<k. prd ! v \<noteq> None \<longrightarrow> prd1 ! v = prd ! v"
  proof (intro allI impI)
    fix v assume "v < k" "prd ! v \<noteq> None"
    then have "v \<noteq> h" using hn by (auto simp: defs)
    then show "prd1 ! v = prd ! v" by (rule prd1o)
  qed
  show "ek_ext lst st (lst + 1) st2"
    unfolding ek_ext_def f2 using tk2' mono by (simp add: defs)
  show "ek_pred st2 ! h \<noteq> None" using prd1h by (simp add: f2)
  show "ek_bfs_inv (lst + 1) st2" if ht: "h \<noteq> rn_sink (ek_rnetwork st)"
  proof -
    have stat2: "ek_static st2"
      using stat l1 by (simp add: ek_static_def f2 prd1_def ord2_def prd_def ord_def)
    have d2: "distinct (take (lst + 1) ord2)" unfolding tk2 using dist hnot by simp
    have ok2: "\<forall>j<lst + 1. ord2 ! j < k"
    proof (intro allI impI)
      fix j assume "j < lst + 1"
      then show "ord2 ! j < k" using o2 ok hk by (cases "j = lst") auto
    qed
    have vis2: "\<forall>v<k. prd1 ! v \<noteq> None \<longleftrightarrow> (\<exists>j. 0 < j \<and> j < lst + 1 \<and> ord2 ! j = v)"
    proof (intro allI impI)
      fix v assume v: "v < k"
      show "prd1 ! v \<noteq> None \<longleftrightarrow> (\<exists>j. 0 < j \<and> j < lst + 1 \<and> ord2 ! j = v)"
      proof (cases "v = h")
        case True
        have "0 < lst \<and> lst < lst + 1 \<and> ord2 ! lst = v" using l1 o2(2) True by simp
        then show ?thesis using prd1h True by blast
      next
        case False
        have "(\<exists>j. 0 < j \<and> j < lst + 1 \<and> ord2 ! j = v) \<longleftrightarrow> (\<exists>j. 0 < j \<and> j < lst \<and> ord ! j = v)"
        proof
          assume "\<exists>j. 0 < j \<and> j < lst + 1 \<and> ord2 ! j = v"
          then obtain j where j: "0 < j" "j < lst + 1" "ord2 ! j = v" by blast
          then have "j \<noteq> lst" using o2(2) False by auto
          then have "j < lst" using j by simp
          then show "\<exists>j. 0 < j \<and> j < lst \<and> ord ! j = v" using j o2(1) by auto
        next
          assume "\<exists>j. 0 < j \<and> j < lst \<and> ord ! j = v"
          then show "\<exists>j. 0 < j \<and> j < lst + 1 \<and> ord2 ! j = v" using o2(1) by auto
        qed
        then show ?thesis using vis v prd1o[OF False] by simp
      qed
    qed
    have ch2: "\<forall>j<lst + 1. \<exists>cs. chain adj prd1 s (ord2 ! j) cs"
    proof (intro allI impI)
      fix j assume j: "j < lst + 1"
      show "\<exists>cs. chain adj prd1 s (ord2 ! j) cs"
      proof (cases "j = lst")
        case True
        then show ?thesis using chh o2(2) by (intro exI[of _ "a # cu"]) simp
      next
        case False
        then have jl: "j < lst" using j by simp
        then obtain cs where "chain adj prd s (ord ! j) cs" using ch by blast
        then have "chain adj prd1 s (ord2 ! j) cs" using ch1 o2(1)[OF jl] by simp
        then show ?thesis by (rule exI)
      qed
    qed
    have pt2: "prd1 ! t = None" using pt prd1o ht by (simp add: defs)
    show ?thesis
      unfolding ek_bfs_inv_def ek_pred_residual_def f2
      using stat2 l1 lst_lt d2 ok2 vis2 ch2 pt2 pr1 by (simp add: defs)
  qed
qed

lemma ek_ext_same: "ek_ext lst st lst' st' \<Longrightarrow> ek_same st st'"
  by (simp add: ek_ext_def ek_same_def)

lemma ek_same_trans: "ek_same a b \<Longrightarrow> ek_same b c \<Longrightarrow> ek_same a c"
  by (simp add: ek_same_def)

lemma ek_scanned_mono:
  assumes A: "arena_ok (rn_n (ek_rnetwork st)) (arcs_out_span (ek_rnetwork st))
               (adjlist (ek_rnetwork st))"
    and S: "S \<subseteq> {..<length (adjlist (ek_rnetwork st))}"
    and sc: "ek_scanned st S" and ext: "ek_ext lst st lst' st'"
  shows "ek_scanned st' S"
  unfolding ek_scanned_def
proof (intro ballI impI)
  fix a assume a: "a \<in> S"
    and r: "residual_capacity (adjlist (ek_rnetwork st') ! a) \<noteq> 0"
  have rn: "ek_rnetwork st' = ek_rnetwork st" using ext by (simp add: ek_ext_def)
  have al: "a < length (adjlist (ek_rnetwork st))" using a S by blast
  have hk: "rhead (adjlist (ek_rnetwork st) ! a) < rn_n (ek_rnetwork st)"
    by (rule arena_twin(5)[OF A al])
  from sc a r have "rhead (adjlist (ek_rnetwork st) ! a) = rn_source (ek_rnetwork st)
      \<or> ek_pred st ! rhead (adjlist (ek_rnetwork st) ! a) \<noteq> None"
    by (simp add: ek_scanned_def rn)
  then show "rhead (adjlist (ek_rnetwork st') ! a) = rn_source (ek_rnetwork st')
      \<or> ek_pred st' ! rhead (adjlist (ek_rnetwork st') ! a) \<noteq> None"
  proof
    assume "rhead (adjlist (ek_rnetwork st) ! a) = rn_source (ek_rnetwork st)"
    then show ?thesis by (simp add: rn)
  next
    assume n: "ek_pred st ! rhead (adjlist (ek_rnetwork st) ! a) \<noteq> None"
    then have "ek_pred st' ! rhead (adjlist (ek_rnetwork st) ! a)
        = ek_pred st ! rhead (adjlist (ek_rnetwork st) ! a)"
      using ext hk by (simp add: ek_ext_def)
    then show ?thesis using n by (simp add: rn)
  qed
qed

lemma ek_scan_arcs_spec:
  assumes "ek_bfs_inv lst st" "i < lst"
    and "set as \<subseteq> span_of (arcs_out_span (ek_rnetwork st)) (ek_bfs_ordering st ! i)"
  shows "\<exists>found lst' st'. ek_scan_arcs as lst st = (found, lst', st') \<and> ek_same st st'
       \<and> (found \<longrightarrow> ek_found st')
       \<and> (\<not> found \<longrightarrow> ek_bfs_inv lst' st' \<and> ek_ext lst st lst' st' \<and> ek_scanned st' (set as))"
  using assms
proof (induction as arbitrary: lst st)
  case Nil
  then show ?case by (auto simp: ek_same_def ek_ext_refl ek_scanned_def)
next
  case (Cons a as)
  let ?rn = "ek_rnetwork st"
  let ?adj = "adjlist ?rn"
  define h where "h = rhead (?adj ! a)"
  have stat: "ek_static st" using Cons.prems(1) by (simp add: ek_bfs_inv_def)
  have A: "arena_ok (rn_n ?rn) (arcs_out_span ?rn) ?adj" using stat by (simp add: ek_static_def)
  have uk: "ek_bfs_ordering st ! i < rn_n ?rn"
    using Cons.prems(1,2) by (simp add: ek_bfs_inv_def)
  have ain: "a \<in> span_of (arcs_out_span ?rn) (ek_bfs_ordering st ! i)"
    and asin: "set as \<subseteq> span_of (arcs_out_span ?rn) (ek_bfs_ordering st ! i)"
    using Cons.prems(3) by simp_all
  have al: "a < length ?adj" by (rule span_owner(1)[OF A uk ain])
  have hk: "h < rn_n ?rn" unfolding h_def by (rule arena_twin(5)[OF A al])
  have sub: "set (a # as) \<subseteq> {..<length ?adj}"
    using Cons.prems(3) span_owner(1)[OF A uk] by auto
  show ?case
  proof (cases "ek_pred st ! h = None \<and> residual_capacity (?adj ! a) \<noteq> 0 \<and> h \<noteq> rn_source ?rn")
    case True
    define st1 where "st1 = st\<lparr>ek_pred := (ek_pred st)[h := Some a]\<rparr>"
    define st2 where "st2 = st1\<lparr>ek_bfs_ordering := (ek_bfs_ordering st1)[lst := h]\<rparr>"
    note D = ek_discover[OF Cons.prems(1,2) ain h_def, folded st1_def, folded st2_def]
    have s1: "ek_same st st1" by (simp add: ek_same_def st1_def)
    show ?thesis
    proof (cases "h = rn_sink ?rn")
      case ht: True
      have "ek_scan_arcs (a # as) lst st = (True, lst, st1)"
        using True ht by (simp add: Let_def h_def[symmetric] is_residual_def is_saturated_def st1_def)
      moreover have "ek_found st1" using D(1) True ht by simp
      ultimately show ?thesis using s1 by blast
    next
      case hnt: False
      have step: "ek_scan_arcs (a # as) lst st = ek_scan_arcs as (lst + 1) st2"
        using True hnt
        by (simp add: Let_def h_def[symmetric] is_residual_def is_saturated_def st1_def st2_def)
      have inv2: "ek_bfs_inv (lst + 1) st2" using D(2) True hnt by simp
      have ext2: "ek_ext lst st (lst + 1) st2" using D(3) True by simp
      have ph: "ek_pred st2 ! h \<noteq> None" using D(4) True by simp
      have rn2: "ek_rnetwork st2 = ?rn" using ext2 by (simp add: ek_ext_def)
      have "take lst (ek_bfs_ordering st2) ! i = take lst (ek_bfs_ordering st) ! i"
        using ext2 by (simp add: ek_ext_def)
      then have oi: "ek_bfs_ordering st2 ! i = ek_bfs_ordering st ! i"
        using Cons.prems(2) by simp
      have asin2: "set as \<subseteq> span_of (arcs_out_span (ek_rnetwork st2)) (ek_bfs_ordering st2 ! i)"
        using asin by (simp add: rn2 oi)
      have i2: "i < lst + 1" using Cons.prems(2) by simp
      from Cons.IH[OF inv2 i2 asin2] obtain found lst' st' where
        r: "ek_scan_arcs as (lst + 1) st2 = (found, lst', st')" "ek_same st2 st'"
          "found \<longrightarrow> ek_found st'"
          "\<not> found \<longrightarrow> ek_bfs_inv lst' st' \<and> ek_ext (lst + 1) st2 lst' st' \<and> ek_scanned st' (set as)"
        by blast
      have same: "ek_same st st'" using ek_same_trans[OF ek_ext_same[OF ext2] r(2)] .
      have nf: "ek_bfs_inv lst' st' \<and> ek_ext lst st lst' st' \<and> ek_scanned st' (set (a # as))"
        if "\<not> found"
      proof -
        have inv': "ek_bfs_inv lst' st'" and ext': "ek_ext (lst + 1) st2 lst' st'"
          and sc': "ek_scanned st' (set as)" using r(4) that by simp_all
        have m: "\<forall>v<rn_n ?rn. ek_pred st ! v \<noteq> None \<longrightarrow> ek_pred st2 ! v \<noteq> None"
          using ext2 by (simp add: ek_ext_def)
        have ext: "ek_ext lst st lst' st'" by (rule ek_ext_trans[OF ext2 ext' m])
        have "ek_pred st' ! h = ek_pred st2 ! h" using ext' ph hk by (simp add: ek_ext_def rn2)
        then have "ek_pred st' ! h \<noteq> None" using ph by simp
        moreover have "ek_rnetwork st' = ?rn" using same by (simp add: ek_same_def)
        ultimately have "ek_scanned st' (set (a # as))"
          using sc' by (simp add: ek_scanned_def h_def)
        with inv' ext show ?thesis by simp
      qed
      show ?thesis unfolding step using r(1,3) same nf by blast
    qed
  next
    case False
    have step: "ek_scan_arcs (a # as) lst st = ek_scan_arcs as lst st"
      using False by (auto simp: Let_def h_def[symmetric] is_residual_def is_saturated_def)
    from Cons.IH[OF Cons.prems(1,2) asin] obtain found lst' st' where
      r: "ek_scan_arcs as lst st = (found, lst', st')" "ek_same st st'"
        "found \<longrightarrow> ek_found st'"
        "\<not> found \<longrightarrow> ek_bfs_inv lst' st' \<and> ek_ext lst st lst' st' \<and> ek_scanned st' (set as)"
      by blast
    have sa: "ek_scanned st {a}"
      using False by (auto simp: ek_scanned_def h_def)
    have nf: "ek_bfs_inv lst' st' \<and> ek_ext lst st lst' st' \<and> ek_scanned st' (set (a # as))"
      if "\<not> found"
    proof -
      have inv': "ek_bfs_inv lst' st'" and ext': "ek_ext lst st lst' st'"
        and sc': "ek_scanned st' (set as)" using r(4) that by simp_all
      have "ek_scanned st' {a}"
        using ek_scanned_mono[OF A _ sa ext'] al by simp
      then have "ek_scanned st' (set (a # as))" using sc' by (simp add: ek_scanned_def)
      with inv' ext' show ?thesis by simp
    qed
    show ?thesis unfolding step using r(1,2,3) nf by blast
  qed
qed

lemma res_closed_path:
  assumes "res_closed adj D" "res_path adj u ps v" "u \<in> D"
  shows "v \<in> D"
  using assms(2,3)
proof (induction ps arbitrary: u)
  case Nil
  then show ?case by simp
next
  case (Cons p ps)
  then have "rhead (adj ! p) \<in> D" using assms(1) by (simp add: res_closed_def)
  moreover have "res_path adj (rhead (adj ! p)) ps v" using Cons.prems(1) by simp
  ultimately show ?case using Cons.IH by blast
qed

lemma ek_bfs_loop_spec:
  assumes "ek_bfs_inv lst st" "i \<le> lst" "ek_closed i st"
  shows "\<exists>found st'. ek_bfs_loop i lst st = Some (found, st') \<and> ek_same st st'
       \<and> (found \<longrightarrow> ek_found st')
       \<and> (\<not> found \<longrightarrow> (\<exists>lst'. ek_bfs_inv lst' st' \<and> ek_closed lst' st'))"
  using assms
proof (induction "rn_n (ek_rnetwork st) - i" arbitrary: i lst st rule: less_induct)
  case less
  let ?rn = "ek_rnetwork st"
  show ?case
  proof (cases "i = lst")
    case True
    have "ek_bfs_loop i lst st = Some (False, st)"
      using True by (subst ek_bfs_loop.simps) simp
    moreover have "ek_same st st" by (simp add: ek_same_def)
    ultimately show ?thesis using less.prems True by blast
  next
    case False
    then have il: "i < lst" using less.prems(2) by simp
    define u where "u = ek_bfs_ordering st ! i"
    define as where "as = [fst (arcs_out_span ?rn ! u)..<snd (arcs_out_span ?rn ! u)]"
    have stat: "ek_static st" using less.prems(1) by (simp add: ek_bfs_inv_def)
    have A: "arena_ok (rn_n ?rn) (arcs_out_span ?rn) (adjlist ?rn)"
      using stat by (simp add: ek_static_def)
    have lk: "lst \<le> rn_n ?rn" using less.prems(1) by (simp add: ek_bfs_inv_def)
    have sas: "set as = span_of (arcs_out_span ?rn) u" by (simp add: as_def span_of_def)
    then have sub: "set as \<subseteq> span_of (arcs_out_span ?rn) (ek_bfs_ordering st ! i)"
      by (simp add: u_def)
    from ek_scan_arcs_spec[OF less.prems(1) il sub] obtain found lst' st' where
      r: "ek_scan_arcs as lst st = (found, lst', st')" "ek_same st st'"
        "found \<longrightarrow> ek_found st'"
        "\<not> found \<longrightarrow> ek_bfs_inv lst' st' \<and> ek_ext lst st lst' st' \<and> ek_scanned st' (set as)"
      by blast
    show ?thesis
    proof (cases found)
      case True
      have "ek_bfs_loop i lst st = Some (True, st')"
        using False r(1) True
        by (subst ek_bfs_loop.simps) (simp add: Let_def u_def[symmetric] as_def[symmetric])
      then show ?thesis using r(2,3) True by blast
    next
      case nf: False
      have step: "ek_bfs_loop i lst st = ek_bfs_loop (i + 1) lst' st'"
        using False r(1) nf
        by (subst ek_bfs_loop.simps) (simp add: Let_def u_def[symmetric] as_def[symmetric])
      have inv': "ek_bfs_inv lst' st'" and ext': "ek_ext lst st lst' st'"
        and sc': "ek_scanned st' (set as)" using r(4) nf by simp_all
      have rn': "ek_rnetwork st' = ?rn" using ext' by (simp add: ek_ext_def)
      have ll: "lst \<le> lst'" using ext' by (simp add: ek_ext_def)
      have ord': "ek_bfs_ordering st' ! j = ek_bfs_ordering st ! j" if "j < lst" for j
      proof -
        have "take lst (ek_bfs_ordering st') ! j = take lst (ek_bfs_ordering st) ! j"
          using ext' by (simp add: ek_ext_def)
        then show ?thesis using that by simp
      qed
      have cl': "ek_closed (i + 1) st'"
        unfolding ek_closed_def
      proof (intro allI impI)
        fix j assume j: "j < i + 1"
        have jl: "j < lst" using j il by simp
        have uj: "ek_bfs_ordering st ! j < rn_n ?rn"
          using less.prems(1) jl by (simp add: ek_bfs_inv_def)
        have subj: "span_of (arcs_out_span ?rn) (ek_bfs_ordering st ! j) \<subseteq> {..<length (adjlist ?rn)}"
          using A uj unfolding arena_ok_def by blast
        have "ek_scanned st' (span_of (arcs_out_span ?rn) (ek_bfs_ordering st ! j))"
        proof (cases "j = i")
          case True
          then show ?thesis using sc' sas by (simp add: u_def)
        next
          case False
          then have "j < i" using j by simp
          then have "ek_scanned st (span_of (arcs_out_span ?rn) (ek_bfs_ordering st ! j))"
            using less.prems(3) by (simp add: ek_closed_def)
          then show ?thesis by (rule ek_scanned_mono[OF A subj _ ext'])
        qed
        then show "ek_scanned st' (span_of (arcs_out_span (ek_rnetwork st'))
            (ek_bfs_ordering st' ! j))"
          by (simp add: rn' ord'[OF jl])
      qed
      have meas: "rn_n (ek_rnetwork st') - (i + 1) < rn_n ?rn - i"
        using il lk by (simp add: rn')
      have i': "i + 1 \<le> lst'" using il ll by simp
      from less.hyps[OF meas inv' i' cl'] obtain found2 st2 where
        r2: "ek_bfs_loop (i + 1) lst' st' = Some (found2, st2)" "ek_same st' st2"
          "found2 \<longrightarrow> ek_found st2"
          "\<not> found2 \<longrightarrow> (\<exists>l. ek_bfs_inv l st2 \<and> ek_closed l st2)"
        by blast
      have "ek_same st st2" by (rule ek_same_trans[OF r(2) r2(2)])
      then show ?thesis unfolding step using r2(1,3,4) by blast
    qed
  qed
qed

lemma ek_closed_cut:
  assumes inv: "ek_bfs_inv lst st" and cl: "ek_closed lst st"
  shows "ek_cut st"
proof -
  let ?rn = "ek_rnetwork st"
  let ?k = "rn_n ?rn" and ?s = "rn_source ?rn" and ?t = "rn_sink ?rn"
  let ?adj = "adjlist ?rn" and ?sp = "arcs_out_span ?rn"
  define D where "D = {v. v < ?k \<and> (v = ?s \<or> ek_pred st ! v \<noteq> None)}"
  have stat: "ek_static st" using inv by (simp add: ek_bfs_inv_def)
  have A: "arena_ok ?k ?sp ?adj" and sk: "?s < ?k" and st: "?s \<noteq> ?t"
    and o0: "ek_bfs_ordering st ! 0 = ?s"
    using stat by (simp_all add: ek_static_def)
  have l1: "1 \<le> lst" and pt: "ek_pred st ! ?t = None"
    and vis: "\<forall>v<?k. ek_pred st ! v \<noteq> None
                \<longleftrightarrow> (\<exists>j. 0 < j \<and> j < lst \<and> ek_bfs_ordering st ! j = v)"
    using inv by (simp_all add: ek_bfs_inv_def)
  have sD: "?s \<in> D" using sk by (simp add: D_def)
  have tD: "?t \<notin> D" using st pt by (auto simp: D_def)
  have "res_closed ?adj D"
    unfolding res_closed_def
  proof (intro allI impI)
    fix p assume p: "p < length ?adj"
      and h: "arc_tail ?adj p \<in> D \<and> residual_capacity (?adj ! p) \<noteq> 0"
    note T = arena_twin[OF A p]
    let ?u = "arc_tail ?adj p"
    have "\<exists>j<lst. ek_bfs_ordering st ! j = ?u"
    proof (cases "?u = ?s")
      case True
      then show ?thesis using o0 l1 by (intro exI[of _ 0]) simp
    next
      case False
      then have "ek_pred st ! ?u \<noteq> None" using h by (simp add: D_def)
      then show ?thesis using vis T(9) by blast
    qed
    then obtain j where j: "j < lst" "ek_bfs_ordering st ! j = ?u" by blast
    have "ek_scanned st (span_of ?sp ?u)" using cl j by (auto simp: ek_closed_def)
    then have "rhead (?adj ! p) = ?s \<or> ek_pred st ! rhead (?adj ! p) \<noteq> None"
      using T(8) h by (simp add: ek_scanned_def)
    then show "rhead (?adj ! p) \<in> D" using T(5) by (auto simp: D_def)
  qed
  moreover have "D \<subseteq> {..<?k}" by (auto simp: D_def)
  ultimately show ?thesis unfolding ek_cut_def using sD tD by blast
qed

lemma bfs_find_augmenting_path_spec:
  assumes "ek_static st"
  shows "\<exists>found st'. bfs_find_augmenting_path st = Some (found, st') \<and> ek_same st st'
       \<and> ek_static st'
       \<and> (found \<longrightarrow> ek_found st') \<and> (\<not> found \<longrightarrow> ek_cut st')"
proof -
  let ?rn = "ek_rnetwork st"
  define st0 where "st0 = st\<lparr>ek_pred := replicate (length (ek_pred st)) None\<rparr>"
  have f0: "ek_rnetwork st0 = ?rn" "ek_bfs_ordering st0 = ek_bfs_ordering st"
    "ek_pred st0 = replicate (rn_n ?rn) None"
    using assms by (simp_all add: st0_def ek_static_def)
  have stat0: "ek_static st0" using assms by (simp add: ek_static_def f0)
  have sk: "rn_source ?rn < rn_n ?rn" "rn_sink ?rn < rn_n ?rn"
    and o0: "ek_bfs_ordering st ! 0 = rn_source ?rn"
    and lo: "length (ek_bfs_ordering st) = rn_n ?rn"
    using assms by (simp_all add: ek_static_def)
  have c0: "chain (adjlist ?rn) (replicate (rn_n ?rn) None) (rn_source ?rn)
      (ek_bfs_ordering st ! 0) []"
    using sk o0 by simp
  have tk: "take 1 (ek_bfs_ordering st) = [rn_source ?rn]"
    using sk lo o0 by (cases "ek_bfs_ordering st") simp_all
  have inv0: "ek_bfs_inv 1 st0"
    unfolding ek_bfs_inv_def ek_pred_residual_def f0
    using stat0 sk o0 c0 tk by (auto simp del: chain.simps)
  have cl0: "ek_closed 0 st0" by (simp add: ek_closed_def)
  have s0: "ek_same st st0" by (simp add: ek_same_def st0_def)
  from ek_bfs_loop_spec[OF inv0 _ cl0] obtain found st' where
    r: "ek_bfs_loop 0 1 st0 = Some (found, st')" "ek_same st0 st'"
      "found \<longrightarrow> ek_found st'"
      "\<not> found \<longrightarrow> (\<exists>l. ek_bfs_inv l st' \<and> ek_closed l st')"
    by auto
  have b: "bfs_find_augmenting_path st = Some (found, st')"
    using r(1) by (simp add: bfs_find_augmenting_path_def st0_def)
  have same: "ek_same st st'" by (rule ek_same_trans[OF s0 r(2)])
  have cut: "\<not> found \<longrightarrow> ek_cut st'" using r(4) ek_closed_cut by blast
  have "ek_static st'"
  proof (cases found)
    case True
    then show ?thesis using r(3) by (simp add: ek_found_def)
  next
    case False
    then show ?thesis using r(4) by (auto simp: ek_bfs_inv_def)
  qed
  then show ?thesis using b same r(3) cut by blast
qed

lemma apply_pushes_append:
  "apply_pushes (xs @ ys) adj = apply_pushes ys (apply_pushes xs adj)"
  by (induction xs arbitrary: adj) simp_all

lemma valid_pushes_append:
  "valid_pushes (xs @ ys) adj \<longleftrightarrow> valid_pushes xs adj \<and> valid_pushes ys (apply_pushes xs adj)"
  by (induction xs arbitrary: adj) auto

lemma back_path_append:
  assumes "back_path adj v cs h" "a < length adj" "rhead (adj ! a) = h" "arc_tail adj a = u"
  shows "back_path adj v (cs @ [a]) u"
  using assms(1)
proof (induction cs arbitrary: v)
  case Nil
  then show ?case using assms(2-4) by simp
next
  case (Cons b cs)
  then show ?case by simp
qed

lemma back_path_counts:
  assumes "back_path adj v cs u"
  shows "heads_at adj w cs + (if cs \<noteq> [] \<and> w = u then 1 else 0)
       = tails_at adj w cs + (if cs \<noteq> [] \<and> w = v then 1 else 0)"
  using assms
proof (induction cs arbitrary: v)
  case Nil
  then show ?case by (simp add: heads_at_def tails_at_def)
next
  case (Cons a as)
  have bp: "back_path adj (arc_tail adj a) as u" and ha: "rhead (adj ! a) = v"
    using Cons.prems by simp_all
  note ih = Cons.IH[OF bp]
  have h: "heads_at adj w (a # as) = (if w = v then 1 else 0) + heads_at adj w as"
    and t: "tails_at adj w (a # as) = (if w = arc_tail adj a then 1 else 0) + tails_at adj w as"
    using ha by (auto simp: heads_at_def tails_at_def)
  show ?case
  proof (cases "as = []")
    case True
    then have "arc_tail adj a = u" using bp by simp
    then show ?thesis unfolding h t using True by (simp add: heads_at_def tails_at_def)
  next
    case False
    then show ?thesis unfolding h t using ih by simp
  qed
qed

lemma back_path_lt:
  assumes "back_path adj v cs u"
  shows "\<forall>a\<in>set cs. a < length adj"
  using assms by (induction cs arbitrary: v) auto

lemma augment_ok:
  assumes A: "arena_ok (rn_n rn0) (arcs_out_span rn0) (adjlist rn0)"
    and cb: "caps_bounded (adjlist rn0)"
    and st: "rn_source rn0 < rn_n rn0" "rn_sink rn0 < rn_n rn0" "rn_source rn0 \<noteq> rn_sink rn0"
    and ok: "flow_state_ok rn0 adj pushes mf"
    and bp: "back_path (adjlist rn0) (rn_sink rn0) cs (rn_source rn0)"
    and dc: "distinct cs"
    and d: "\<forall>a\<in>set cs. d \<le> residual_capacity (adj ! a)" "d \<noteq> 0"
  defines "adj' \<equiv> apply_pushes (map (\<lambda>a. (a, d)) cs) adj"
  shows "flow_state_ok rn0 adj' (pushes @ map (\<lambda>a. (a, d)) cs) (mf + d)"
    and "span_sum (arcs_out_span rn0) adj' (rn_source rn0) + unat d
       = span_sum (arcs_out_span rn0) adj (rn_source rn0)"
proof -
  let ?k = "rn_n rn0" and ?sp = "arcs_out_span rn0" and ?adj0 = "adjlist rn0"
  let ?s = "rn_source rn0" and ?t = "rn_sink rn0"
  let ?ops = "map (\<lambda>a. (a, d)) cs"
  have po: "pair_ok ?adj0 adj"
    and cons: "\<forall>v<?k. v \<noteq> ?s \<longrightarrow> v \<noteq> ?t \<longrightarrow> span_sum ?sp adj v = span_sum ?sp ?adj0 v"
    and sle: "span_sum ?sp adj ?s \<le> span_sum ?sp ?adj0 ?s"
    and mf: "mf = of_nat (span_sum ?sp ?adj0 ?s - span_sum ?sp adj ?s)"
    and tot: "span_sum ?sp adj ?t + span_sum ?sp adj ?s = span_sum ?sp ?adj0 ?t + span_sum ?sp ?adj0 ?s"
    and vp: "valid_pushes pushes ?adj0" and ap: "adj = apply_pushes pushes ?adj0"
    and nz: "\<forall>x\<in>set pushes. snd x \<noteq> 0"
    using ok unfolding flow_state_ok_def by blast+
  have cs': "\<forall>a\<in>set cs. a < length ?adj0 \<and> d \<le> residual_capacity (adj ! a)"
    using back_path_lt[OF bp] d(1) by blast
  note L = push_list_ok[OF A cb po dc cs']
  have vp': "valid_pushes ?ops adj" and po': "pair_ok ?adj0 adj'"
    and ss: "\<And>v. v < ?k \<Longrightarrow> span_sum ?sp adj' v + unat d * tails_at ?adj0 v cs
                 = span_sum ?sp adj v + unat d * heads_at ?adj0 v cs"
    using L by (simp_all add: adj'_def)
  have ne: "cs \<noteq> []" using bp st(3) by (cases cs) auto
  note C = back_path_counts[OF bp]
  have cs_s: "heads_at ?adj0 ?s cs + 1 = tails_at ?adj0 ?s cs"
    using C[of ?s] ne st(3) by simp
  have cs_t: "heads_at ?adj0 ?t cs = tails_at ?adj0 ?t cs + 1"
    using C[of ?t] ne st(3) by simp
  have cs_o: "heads_at ?adj0 v cs = tails_at ?adj0 v cs" if "v \<noteq> ?s" "v \<noteq> ?t" for v
    using C[of v] that by simp
  have e_s: "span_sum ?sp adj' ?s + unat d = span_sum ?sp adj ?s"
  proof -
    have "span_sum ?sp adj' ?s + unat d * (heads_at ?adj0 ?s cs + 1)
        = span_sum ?sp adj ?s + unat d * heads_at ?adj0 ?s cs"
      using ss[OF st(1)] cs_s by simp
    then show ?thesis by simp
  qed
  have e_t: "span_sum ?sp adj' ?t = span_sum ?sp adj ?t + unat d"
  proof -
    have "span_sum ?sp adj' ?t + unat d * tails_at ?adj0 ?t cs
        = span_sum ?sp adj ?t + unat d * (tails_at ?adj0 ?t cs + 1)"
      using ss[OF st(2)] cs_t by simp
    then show ?thesis by simp
  qed
  have e_o: "span_sum ?sp adj' v = span_sum ?sp adj v" if "v < ?k" "v \<noteq> ?s" "v \<noteq> ?t" for v
    using ss[OF that(1)] cs_o[OF that(2,3)] by simp
  show "span_sum ?sp adj' ?s + unat d = span_sum ?sp adj ?s" by (rule e_s)
  have m': "mf + d = of_nat (span_sum ?sp ?adj0 ?s - span_sum ?sp adj' ?s)"
  proof -
    have "span_sum ?sp ?adj0 ?s - span_sum ?sp adj' ?s
        = (span_sum ?sp ?adj0 ?s - span_sum ?sp adj ?s) + unat d"
      using e_s sle by simp
    then show ?thesis using mf by simp
  qed
  have v1: "valid_pushes (pushes @ ?ops) ?adj0"
    using vp vp' ap by (simp add: valid_pushes_append)
  have v2: "adj' = apply_pushes (pushes @ ?ops) ?adj0"
    using ap by (simp add: apply_pushes_append adj'_def)
  have v3: "\<forall>x\<in>set (pushes @ ?ops). snd x \<noteq> 0" using nz d(2) by auto
  show "flow_state_ok rn0 adj' (pushes @ ?ops) (mf + d)"
    unfolding flow_state_ok_def
    using po' e_o cons e_s sle m' e_t tot v1 v2 v3 by simp
qed

lemma chain_unique:
  assumes "chain adj prd s v cs" "chain adj prd s v cs'"
  shows "cs = cs'"
  using assms
proof (induction cs arbitrary: v cs')
  case Nil
  then show ?case by (cases cs') simp_all
next
  case (Cons a as)
  then obtain b bs where c: "cs' = b # bs" by (cases cs') auto
  have "a = b" using Cons.prems c by simp
  moreover have "as = bs" using Cons.prems c Cons.IH[of "arc_tail adj a" bs] by simp
  ultimately show ?case using c by simp
qed

lemma chain_suffix:
  assumes "chain adj prd s v (xs @ a # ys)"
  shows "chain adj prd s (rhead (adj ! a)) (a # ys)"
  using assms
proof (induction xs arbitrary: v)
  case Nil
  then show ?case by simp
next
  case (Cons x xs)
  then have "chain adj prd s (arc_tail adj x) (xs @ a # ys)" by simp
  then show ?case by (rule Cons.IH)
qed

lemma chain_distinct:
  assumes "chain adj prd s v cs"
  shows "distinct cs"
  using assms
proof (induction cs arbitrary: v)
  case Nil
  then show ?case by simp
next
  case (Cons a as)
  have rest: "chain adj prd s (arc_tail adj a) as" and hv: "rhead (adj ! a) = v"
    using Cons.prems by simp_all
  have "a \<notin> set as"
  proof
    assume "a \<in> set as"
    then obtain xs ys where sp: "as = xs @ a # ys" by (meson split_list)
    have "chain adj prd s (rhead (adj ! a)) (a # ys)"
      using rest unfolding sp by (rule chain_suffix)
    then have "chain adj prd s v (a # ys)" using hv by simp
    then have "a # as = a # ys" using Cons.prems chain_unique by blast
    then show False using sp by simp
  qed
  then show ?case using Cons.IH[OF rest] by simp
qed

lemma chain_back_path:
  assumes "chain adj prd s v cs"
  shows "back_path adj v cs s"
  using assms by (induction cs arbitrary: v) simp_all

lemma chain_pred:
  assumes "chain adj prd s v cs" "a \<in> set cs"
  shows "a < length adj \<and> prd ! rhead (adj ! a) = Some a"
  using assms by (induction cs arbitrary: v) auto

lemma back_path_same_shape:
  assumes A: "arena_ok k sp adj" and sh: "same_shape adj adj'"
    and "back_path adj v cs u"
  shows "back_path adj' v cs u"
  using assms(3)
proof (induction cs arbitrary: v)
  case Nil
  then show ?case by simp
next
  case (Cons b cs)
  have b: "b < length adj" using Cons.prems by simp
  have "arc_tail adj' b = arc_tail adj b" by (rule same_shape_arc_tail[OF A sh b])
  moreover have "rhead (adj' ! b) = rhead (adj ! b)" "length adj' = length adj"
    using sh b by (simp_all add: same_shape_def)
  ultimately show ?case using Cons by simp
qed

lemma min_rc_le: "min_rc adj mn cs \<le> mn"
proof (induction cs arbitrary: mn)
  case Nil
  then show ?case by (simp add: min_rc_def)
next
  case (Cons a cs)
  have "min_rc adj mn (a # cs) = min_rc adj (min mn (residual_capacity (adj ! a))) cs"
    by (simp add: min_rc_def)
  also have "\<dots> \<le> min mn (residual_capacity (adj ! a))" by (rule Cons.IH)
  finally show ?case by simp
qed

lemma min_rc_le_arc: "a \<in> set cs \<Longrightarrow> min_rc adj mn cs \<le> residual_capacity (adj ! a)"
proof (induction cs arbitrary: mn)
  case Nil
  then show ?case by simp
next
  case (Cons b cs)
  have e: "min_rc adj mn (b # cs) = min_rc adj (min mn (residual_capacity (adj ! b))) cs"
    by (simp add: min_rc_def)
  show ?case
  proof (cases "a = b")
    case True
    have "min_rc adj (min mn (residual_capacity (adj ! b))) cs \<le> min mn (residual_capacity (adj ! b))"
      by (rule min_rc_le)
    then show ?thesis using True e by simp
  next
    case False
    then have "a \<in> set cs" using Cons.prems by simp
    then show ?thesis using Cons.IH e by simp
  qed
qed

lemma min_rc_nonzero:
  assumes "mn \<noteq> 0" "\<forall>a\<in>set cs. residual_capacity (adj ! a) \<noteq> 0"
  shows "min_rc adj mn cs \<noteq> 0"
  using assms
proof (induction cs arbitrary: mn)
  case Nil
  then show ?case by (simp add: min_rc_def)
next
  case (Cons b cs)
  have e: "min_rc adj mn (b # cs) = min_rc adj (min mn (residual_capacity (adj ! b))) cs"
    by (simp add: min_rc_def)
  have "min mn (residual_capacity (adj ! b)) \<noteq> 0" using Cons.prems by (simp add: min_def)
  then show ?case using Cons.IH Cons.prems(2) e by simp
qed

lemma ek_min_loop_chain:
  assumes "chain (adjlist (ek_rnetwork st)) (ek_pred st) s v cs"
  shows "ek_min_loop st (ek_pred st ! v) mn = Some (min_rc (adjlist (ek_rnetwork st)) mn cs)"
  using assms
proof (induction cs arbitrary: v mn)
  case Nil
  then show ?case by (subst ek_min_loop.simps) (simp add: min_rc_def)
next
  case (Cons a as)
  have pv: "ek_pred st ! v = Some a"
    and rest: "chain (adjlist (ek_rnetwork st)) (ek_pred st) s (arc_tail (adjlist (ek_rnetwork st)) a) as"
    using Cons.prems by simp_all
  have "ek_min_loop st (ek_pred st ! v) mn
      = ek_min_loop st (ek_pred st ! arc_tail (adjlist (ek_rnetwork st)) a)
          (min mn (residual_capacity (adjlist (ek_rnetwork st) ! a)))"
    by (subst ek_min_loop.simps) (simp add: pv)
  also have "\<dots> = Some (min_rc (adjlist (ek_rnetwork st))
      (min mn (residual_capacity (adjlist (ek_rnetwork st) ! a))) as)"
    by (rule Cons.IH[OF rest])
  finally show ?case by (simp add: min_rc_def)
qed

lemma ek_push_loop_chain:
  assumes "arena_ok k sp (adjlist (ek_rnetwork st))"
    and "chain (adjlist (ek_rnetwork st)) (ek_pred st) s v cs"
  shows "ek_push_loop d (ek_pred st ! v) st
       = Some (st\<lparr>ek_rnetwork := (ek_rnetwork st)\<lparr>adjlist :=
                     apply_pushes (map (\<lambda>a. (a, d)) cs) (adjlist (ek_rnetwork st))\<rparr>,
                  ek_pushes := ek_pushes st @ map (\<lambda>a. (a, d)) cs\<rparr>)"
  using assms
proof (induction cs arbitrary: v st)
  case Nil
  then show ?case by (subst ek_push_loop.simps) simp
next
  case (Cons a as)
  let ?adj = "adjlist (ek_rnetwork st)"
  define s1 where "s1 = ek_push a d st"
  have pv: "ek_pred st ! v = Some a" and al: "a < length ?adj"
    and rest: "chain ?adj (ek_pred st) s (arc_tail ?adj a) as"
    using Cons.prems(2) by simp_all
  have f1: "adjlist (ek_rnetwork s1) = push_flow a d ?adj" "ek_pred s1 = ek_pred st"
    "ek_pushes s1 = ek_pushes st @ [(a, d)]"
    by (simp_all add: s1_def ek_push_def)
  have sh: "same_shape ?adj (push_flow a d ?adj)" by (rule push_flow_shape[OF Cons.prems(1) al])
  have A1: "arena_ok k sp (adjlist (ek_rnetwork s1))"
    unfolding f1 by (rule arena_ok_shape[OF Cons.prems(1) sh])
  have ta: "arc_tail (adjlist (ek_rnetwork s1)) a = arc_tail ?adj a"
    unfolding f1 by (rule same_shape_arc_tail[OF Cons.prems(1) sh al])
  have c1: "chain (adjlist (ek_rnetwork s1)) (ek_pred s1) s (arc_tail ?adj a) as"
    unfolding f1 by (rule chain_same_shape[OF Cons.prems(1) sh rest])
  have "ek_push_loop d (ek_pred st ! v) st
      = ek_push_loop d (ek_pred s1 ! arc_tail ?adj a) s1"
    by (subst ek_push_loop.simps) (simp add: pv Let_def s1_def[symmetric] ta)
  also note Cons.IH[OF A1 c1]
  finally show ?case by (simp add: f1) (simp add: s1_def ek_push_def)
qed

lemma ek_inv_fields:
  assumes "ek_inv rn0 st"
  shows "rn_n (ek_rnetwork st) = rn_n rn0" "arcs_out_span (ek_rnetwork st) = arcs_out_span rn0"
    "rn_source (ek_rnetwork st) = rn_source rn0" "rn_sink (ek_rnetwork st) = rn_sink rn0"
proof -
  have e: "ek_rnetwork st = rn0\<lparr>adjlist := adjlist (ek_rnetwork st)\<rparr>"
    using assms by (simp add: ek_inv_def)
  show "rn_n (ek_rnetwork st) = rn_n rn0" by (subst e) simp
  show "arcs_out_span (ek_rnetwork st) = arcs_out_span rn0" by (subst e) simp
  show "rn_source (ek_rnetwork st) = rn_source rn0" by (subst e) simp
  show "rn_sink (ek_rnetwork st) = rn_sink rn0" by (subst e) simp
qed

lemma ek_inv_static:
  assumes R: "rn_ok rn0" and I: "ek_inv rn0 st"
  shows "ek_static st"
proof -
  note F = ek_inv_fields[OF I]
  have po: "pair_ok (adjlist rn0) (adjlist (ek_rnetwork st))"
    using I unfolding ek_inv_def flow_state_ok_def by blast
  then have sh: "same_shape (adjlist rn0) (adjlist (ek_rnetwork st))" by (simp add: pair_ok_def)
  have A: "arena_ok (rn_n rn0) (arcs_out_span rn0) (adjlist rn0)" using R by (simp add: rn_ok_def)
  have "arena_ok (rn_n rn0) (arcs_out_span rn0) (adjlist (ek_rnetwork st))"
    by (rule arena_ok_shape[OF A sh])
  then show ?thesis
    using R I unfolding ek_static_def F by (simp add: rn_ok_def ek_inv_def)
qed

lemma ek_loop_spec:
  assumes R: "rn_ok rn0" and I: "ek_inv rn0 st"
  shows "\<exists>st'. ek_loop st = Some st' \<and> ek_inv rn0 st' \<and> ek_cut st'"
  using I
proof (induction "span_sum (arcs_out_span rn0) (adjlist (ek_rnetwork st)) (rn_source rn0)"
    arbitrary: st rule: less_induct)
  case less
  note I = less.prems
  let ?k = "rn_n rn0" and ?sp = "arcs_out_span rn0" and ?ini = "adjlist rn0"
  let ?s = "rn_source rn0" and ?t = "rn_sink rn0"
  have A0: "arena_ok ?k ?sp ?ini" and cb: "caps_bounded ?ini"
    and sk: "?s < ?k" and tk: "?t < ?k" and st: "?s \<noteq> ?t"
    using R by (simp_all add: rn_ok_def)
  from bfs_find_augmenting_path_spec[OF ek_inv_static[OF R I]] obtain found st1 where
    b: "bfs_find_augmenting_path st = Some (found, st1)" and same: "ek_same st st1"
    and stat1: "ek_static st1" and fnd: "found \<longrightarrow> ek_found st1"
    and cut: "\<not> found \<longrightarrow> ek_cut st1"
    by blast
  have rn1: "ek_rnetwork st1 = ek_rnetwork st" and mf1: "ek_maxflow st1 = ek_maxflow st"
    and pu1: "ek_pushes st1 = ek_pushes st"
    using same by (simp_all add: ek_same_def)
  note F = ek_inv_fields[OF I]
  have I1: "ek_inv rn0 st1"
    using I stat1 unfolding ek_inv_def ek_static_def rn1 mf1 pu1 F by simp
  show ?case
  proof (cases found)
    case False
    have "ek_loop st = Some st1" using b False by (subst ek_loop.simps) simp
    then show ?thesis using I1 cut False by blast
  next
    case True
    let ?adj = "adjlist (ek_rnetwork st)"
    let ?prd = "ek_pred st1"
    have fs: "flow_state_ok rn0 ?adj (ek_pushes st) (ek_maxflow st)"
      using I by (simp add: ek_inv_def)
    have po: "pair_ok ?ini ?adj" using fs unfolding flow_state_ok_def by blast
    then have sh: "same_shape ?ini ?adj" by (simp add: pair_ok_def)
    have A: "arena_ok ?k ?sp ?adj" by (rule arena_ok_shape[OF A0 sh])
    from fnd True obtain cs where
      ch: "chain ?adj ?prd ?s ?t cs"
      and pr: "ek_pred_residual st1"
      unfolding ek_found_def rn1 F by blast
    obtain a1 cs1 where cs: "cs = a1 # cs1" using ch st by (cases cs) auto
    have p1: "?prd ! ?t = Some a1" using ch cs by simp
    have arcs: "a < length ?adj \<and> residual_capacity (?adj ! a) \<noteq> 0" if "a \<in> set cs" for a
    proof -
      have al: "a < length ?adj" and pa: "?prd ! rhead (?adj ! a) = Some a"
        using chain_pred[OF ch that] by simp_all
      have "rhead (?adj ! a) < ?k" by (rule arena_twin(5)[OF A al])
      then show ?thesis using pr pa al unfolding ek_pred_residual_def rn1 F by blast
    qed
    define d where "d = min_rc ?adj (residual_capacity (?adj ! a1)) cs"
    have mn: "ek_min_loop st1 (?prd ! ?t) (residual_capacity (?adj ! a1)) = Some d"
      using ek_min_loop_chain[of st1 ?s ?t cs] ch by (simp add: rn1 d_def)
    have dle: "\<forall>a\<in>set cs. d \<le> residual_capacity (?adj ! a)"
      unfolding d_def using min_rc_le_arc by blast
    have dnz: "d \<noteq> 0"
      unfolding d_def using arcs cs by (intro min_rc_nonzero) auto
    define ops where "ops = map (\<lambda>a. (a, d)) cs"
    define st2 where "st2 = st1\<lparr>ek_rnetwork := (ek_rnetwork st1)\<lparr>adjlist :=
                     apply_pushes ops ?adj\<rparr>, ek_pushes := ek_pushes st1 @ ops\<rparr>"
    have A1: "arena_ok ?k ?sp (adjlist (ek_rnetwork st1))" using A by (simp add: rn1)
    have pl: "ek_push_loop d (?prd ! ?t) st1 = Some st2"
      using ek_push_loop_chain[OF A1, of ?s ?t cs d] ch
      by (simp add: rn1 st2_def ops_def)
    define st3 where "st3 = st2\<lparr>ek_maxflow := ek_maxflow st2 + d\<rparr>"
    have step: "ek_loop st = ek_loop st3"
      by (subst ek_loop.simps)
        (simp add: b True Let_def F rn1 p1 mn[unfolded p1] pl[unfolded p1] st3_def)
    have bp: "back_path ?ini ?t cs ?s"
      by (rule back_path_same_shape[OF A same_shape_sym[OF sh] chain_back_path[OF ch]])
    note AU = augment_ok[OF A0 cb sk tk st fs bp chain_distinct[OF ch] dle dnz, folded ops_def]
    have e: "ek_rnetwork st = rn0\<lparr>adjlist := ?adj\<rparr>" using I by (simp add: ek_inv_def)
    have e': "(ek_rnetwork st)\<lparr>adjlist := apply_pushes ops ?adj\<rparr>
        = rn0\<lparr>adjlist := apply_pushes ops ?adj\<rparr>"
      by (subst e) simp
    have f3: "adjlist (ek_rnetwork st3) = apply_pushes ops ?adj"
      "ek_pushes st3 = ek_pushes st @ ops" "ek_maxflow st3 = ek_maxflow st + d"
      "ek_pred st3 = ek_pred st1" "ek_bfs_ordering st3 = ek_bfs_ordering st1"
      "ek_rnetwork st3 = rn0\<lparr>adjlist := apply_pushes ops ?adj\<rparr>"
      using e' by (simp_all add: st3_def st2_def rn1 pu1 mf1)
    have I3: "ek_inv rn0 st3"
      using AU(1) I1 unfolding ek_inv_def f3 by simp
    have meas: "span_sum ?sp (adjlist (ek_rnetwork st3)) ?s < span_sum ?sp ?adj ?s"
    proof -
      have "unat d \<noteq> 0" using dnz by (simp add: unat_eq_0)
      then show ?thesis using AU(2) by (simp add: f3)
    qed
    from less.hyps[OF meas I3] show ?thesis unfolding step .
  qed
qed

lemma dc_ext_refl: "dc_ext lst st lst st"
  by (simp add: dc_ext_def)

lemma dc_ext_trans:
  assumes "dc_ext l1 s1 l2 s2" "dc_ext l2 s2 l3 s3"
  shows "dc_ext l1 s1 l3 s3"
proof -
  have "take l1 (dc_bfs_ordering s3) = take l1 (take l2 (dc_bfs_ordering s3))"
    using assms(1) by (simp add: dc_ext_def min_def)
  also have "\<dots> = take l1 (take l2 (dc_bfs_ordering s2))" using assms(2) by (simp add: dc_ext_def)
  also have "\<dots> = take l1 (dc_bfs_ordering s2)" using assms(1) by (simp add: dc_ext_def min_def)
  finally have t: "take l1 (dc_bfs_ordering s3) = take l1 (dc_bfs_ordering s1)"
    using assms(1) by (simp add: dc_ext_def)
  have "dc_rank s3 ! v = dc_rank s1 ! v"
    if "v < rn_n (dc_rnetwork s1)" "dc_rank s1 ! v \<noteq> Unreached" for v
  proof -
    have a: "dc_rank s2 ! v = dc_rank s1 ! v" using assms(1) that by (simp add: dc_ext_def)
    then have "dc_rank s2 ! v \<noteq> Unreached" using that by simp
    then have "dc_rank s3 ! v = dc_rank s2 ! v" using assms(1,2) that by (simp add: dc_ext_def)
    with a show ?thesis by simp
  qed
  then show ?thesis using assms(1,2) t by (simp add: dc_ext_def)
qed

lemma dc_scanned_mono:
  assumes A: "arena_ok (rn_n (dc_rnetwork st)) (arcs_out_span (dc_rnetwork st))
               (adjlist (dc_rnetwork st))"
    and S: "S \<subseteq> {..<length (adjlist (dc_rnetwork st))}"
    and sc: "dc_scanned st S" and ext: "dc_ext lst st lst' st'"
  shows "dc_scanned st' S"
  unfolding dc_scanned_def
proof (intro ballI impI)
  let ?adj = "adjlist (dc_rnetwork st)"
  fix a assume a: "a \<in> S"
    and r: "residual_capacity (adjlist (dc_rnetwork st') ! twin_idx (adjlist (dc_rnetwork st')) a) \<noteq> 0"
  have rn: "dc_rnetwork st' = dc_rnetwork st" using ext by (simp add: dc_ext_def)
  have al: "a < length ?adj" using a S by blast
  have hk: "rhead (?adj ! a) < rn_n (dc_rnetwork st)" by (rule arena_twin(5)[OF A al])
  from sc a r have n: "dc_rank st ! rhead (?adj ! a) \<noteq> Unreached"
    by (simp add: dc_scanned_def rn)
  then have "dc_rank st' ! rhead (?adj ! a) = dc_rank st ! rhead (?adj ! a)"
    using ext hk by (simp add: dc_ext_def)
  then show "dc_rank st' ! rhead (adjlist (dc_rnetwork st') ! a) \<noteq> Unreached"
    using n by (simp add: rn)
qed

lemma Unreached_unat: "unat Unreached = 2 ^ 32 - 1"
  by (simp add: Unreached_def)

lemma rank_succ:
  fixes r :: rank_t
  assumes "unat r < 2 ^ 32 - 1"
  shows "unat (r + 1) = unat r + 1" "r + 1 \<noteq> 0" "r + 1 \<noteq> Unreached \<longleftrightarrow> unat r + 1 < 2 ^ 32 - 1"
proof -
  have "unat r + unat (1 :: rank_t) < 2 ^ 32" using assms by simp
  then have "unat (r + 1) = unat r + unat (1 :: rank_t)" by (rule unat_add_no_wrap)
  then show u: "unat (r + 1) = unat r + 1" by simp
  then show "r + 1 \<noteq> 0" by (metis Suc_eq_plus1 nat.simps(3) unat_0)
  show "r + 1 \<noteq> Unreached \<longleftrightarrow> unat r + 1 < 2 ^ 32 - 1"
  proof
    assume "r + 1 \<noteq> Unreached"
    then have "unat (r + 1) \<noteq> unat Unreached" by (simp add: word_unat_eq_iff)
    then show "unat r + 1 < 2 ^ 32 - 1" using u assms by (simp add: Unreached_unat)
  next
    assume "unat r + 1 < 2 ^ 32 - 1"
    then have "unat (r + 1) \<noteq> unat Unreached" using u by (simp add: Unreached_unat)
    then show "r + 1 \<noteq> Unreached" by auto
  qed
qed

lemma dc_discover:
  assumes inv: "dc_bfs_inv lst st" and i: "i < lst"
    and a: "a \<in> span_of (arcs_out_span (dc_rnetwork st)) (dc_bfs_ordering st ! i)"
    and h: "h = rhead (adjlist (dc_rnetwork st) ! a)"
    and hn: "dc_rank st ! h = Unreached"
    and rc: "residual_capacity (adjlist (dc_rnetwork st)
                ! twin_idx (adjlist (dc_rnetwork st)) a) \<noteq> 0"
  defines "st' \<equiv> st\<lparr>dc_rank := (dc_rank st)[h := dc_rank st ! (dc_bfs_ordering st ! i) + 1],
                     dc_bfs_ordering := (dc_bfs_ordering st)[lst := h]\<rparr>"
  shows "dc_bfs_inv (lst + 1) st'"
    and "dc_ext lst st (lst + 1) st'"
    and "dc_rank st' ! h \<noteq> Unreached"
proof -
  let ?rn = "dc_rnetwork st"
  define k where "k = rn_n ?rn"
  define sp where "sp = arcs_out_span ?rn"
  define adj where "adj = adjlist ?rn"
  define t where "t = rn_sink ?rn"
  define rk where "rk = dc_rank st"
  define ord where "ord = dc_bfs_ordering st"
  note defs = k_def sp_def adj_def t_def rk_def ord_def
  have stat: "dc_static st" using inv by (simp add: dc_bfs_inv_def)
  have A: "arena_ok k sp adj" and tk: "t < k" and k32: "k < 2 ^ 32"
    and lr: "length rk = k" and lo: "length ord = k" and o0: "ord ! 0 = t"
    using stat by (simp_all add: dc_static_def defs)
  have l1: "1 \<le> lst" and lk: "lst \<le> k" and dist: "distinct (take lst ord)"
    and ok: "\<forall>j<lst. ord ! j < k"
    and vis: "\<forall>v<k. rk ! v \<noteq> Unreached \<longleftrightarrow> (\<exists>j<lst. ord ! j = v)"
    and rt: "rk ! t = 0"
    and dep: "\<forall>j<lst. unat (rk ! (ord ! j)) \<le> j"
    and nz: "\<forall>j. 0 < j \<and> j < lst \<longrightarrow> rk ! (ord ! j) \<noteq> 0"
    and par: "\<forall>j. 0 < j \<and> j < lst \<longrightarrow> dc_parent st (ord ! j)"
    using inv by (simp_all add: dc_bfs_inv_def defs)
  define u where "u = ord ! i"
  have uk: "u < k" using ok i by (simp add: u_def)
  have al: "a < length adj" and ta: "arc_tail adj a = u"
    using span_owner[OF A uk] a by (simp_all add: defs u_def)
  note T = arena_twin[OF A al]
  have hk: "h < k" using T(5) h by (simp add: defs)
  have uvis: "rk ! u \<noteq> Unreached" using vis uk i by (auto simp: u_def)
  have hu: "h \<noteq> u" using uvis hn by (auto simp: defs)
  have hnot: "h \<notin> set (take lst ord)"
  proof
    assume "h \<in> set (take lst ord)"
    then obtain j where j: "j < lst" "ord ! j = h"
      using lk lo by (auto simp: in_set_conv_nth)
    then have "rk ! h \<noteq> Unreached" using vis hk by blast
    then show False using hn by (simp add: defs)
  qed
  have lst_lt: "lst < k"
  proof -
    have "x \<in> {..<k} - {h}" if x: "x \<in> set (take lst ord)" for x
    proof -
      from x obtain j where "j < lst" "ord ! j = x"
        using lk lo by (auto simp: in_set_conv_nth)
      then have "x < k" using ok by auto
      moreover have "x \<noteq> h" using x hnot by blast
      ultimately show ?thesis by simp
    qed
    then have "set (take lst ord) \<subseteq> {..<k} - {h}" by blast
    then have "card (set (take lst ord)) \<le> card ({..<k} - {h})"
      by (intro card_mono) simp_all
    moreover have "card (set (take lst ord)) = lst"
      using distinct_card[OF dist] lk lo by simp
    moreover have "card ({..<k} - {h}) = k - 1" using hk by simp
    ultimately show ?thesis using hk by simp
  qed
  define r where "r = rk ! u + 1"
  have ru: "unat (rk ! u) \<le> i" using dep i by (simp add: u_def)
  have rsmall: "unat (rk ! u) < 2 ^ 32 - 1" using ru i lst_lt k32 by simp
  note RS = rank_succ[OF rsmall]
  have r_unat: "unat r = unat (rk ! u) + 1" using RS(1) by (simp add: r_def)
  have r_nz: "r \<noteq> 0" using RS(2) by (simp add: r_def)
  have r_reach: "r \<noteq> Unreached"
    unfolding r_def RS(3) using ru i lst_lt k32 by simp
  define rk' where "rk' = rk[h := r]"
  define ord' where "ord' = ord[lst := h]"
  have f: "dc_rnetwork st' = ?rn" "dc_rank st' = rk'" "dc_bfs_ordering st' = ord'"
    "dc_current_arc st' = dc_current_arc st" "dc_pushes st' = dc_pushes st"
    by (simp_all add: st'_def rk'_def ord'_def r_def u_def defs)
  have rk'h: "rk' ! h = r" using hk lr by (simp add: rk'_def)
  have rk'o: "\<And>v. v \<noteq> h \<Longrightarrow> rk' ! v = rk ! v" by (simp add: rk'_def)
  have tk2: "take (lst + 1) ord' = take lst ord @ [h]"
    using lst_lt lo by (simp add: ord'_def take_Suc_conv_app_nth)
  have tk2': "take lst ord' = take lst ord" by (simp add: ord'_def)
  have o2: "\<And>j. j < lst \<Longrightarrow> ord' ! j = ord ! j" "ord' ! lst = h"
    using lst_lt lo by (simp_all add: ord'_def)
  have oh: "ord ! j \<noteq> h" if "j < lst" for j
  proof
    assume "ord ! j = h"
    then have "h \<in> set (take lst ord)" using that lk lo by (auto simp: in_set_conv_nth)
    then show False using hnot by simp
  qed
  show "dc_rank st' ! h \<noteq> Unreached" using rk'h r_reach by (simp add: f)
  have mono: "\<forall>v<k. rk ! v \<noteq> Unreached \<longrightarrow> rk' ! v = rk ! v"
  proof (intro allI impI)
    fix v assume "v < k" "rk ! v \<noteq> Unreached"
    then have "v \<noteq> h" using hn by (auto simp: defs)
    then show "rk' ! v = rk ! v" by (rule rk'o)
  qed
  show "dc_ext lst st (lst + 1) st'"
    unfolding dc_ext_def f using tk2' mono by (simp add: defs)
  have stat': "dc_static st'"
    using stat l1 unfolding dc_static_def f by (simp add: rk'_def ord'_def defs)
  have d2: "distinct (take (lst + 1) ord')" unfolding tk2 using dist hnot by simp
  have ok2: "\<forall>j<lst + 1. ord' ! j < k"
  proof (intro allI impI)
    fix j assume "j < lst + 1"
    then show "ord' ! j < k" using o2 ok hk by (cases "j = lst") auto
  qed
  have vis2: "\<forall>v<k. rk' ! v \<noteq> Unreached \<longleftrightarrow> (\<exists>j<lst + 1. ord' ! j = v)"
  proof (intro allI impI)
    fix v assume v: "v < k"
    show "rk' ! v \<noteq> Unreached \<longleftrightarrow> (\<exists>j<lst + 1. ord' ! j = v)"
    proof (cases "v = h")
      case True
      have "lst < lst + 1 \<and> ord' ! lst = v" using o2(2) True by simp
      then show ?thesis using rk'h r_reach True by blast
    next
      case False
      have "(\<exists>j<lst + 1. ord' ! j = v) \<longleftrightarrow> (\<exists>j<lst. ord ! j = v)"
      proof
        assume "\<exists>j<lst + 1. ord' ! j = v"
        then obtain j where j: "j < lst + 1" "ord' ! j = v" by blast
        then have "j \<noteq> lst" using o2(2) False by auto
        then have "j < lst" using j by simp
        then show "\<exists>j<lst. ord ! j = v" using j o2(1) by auto
      next
        assume "\<exists>j<lst. ord ! j = v"
        then obtain j where "j < lst" "ord ! j = v" by blast
        then have "j < lst + 1 \<and> ord' ! j = v" using o2(1) by simp
        then show "\<exists>j<lst + 1. ord' ! j = v" by blast
      qed
      then show ?thesis using vis v rk'o[OF False] by simp
    qed
  qed
  have ht: "h \<noteq> t" using hn rt by (auto simp: defs Unreached_def)
  have rt2: "rk' ! t = 0" using rt rk'o ht by simp
  have dep2: "\<forall>j<lst + 1. unat (rk' ! (ord' ! j)) \<le> j"
  proof (intro allI impI)
    fix j assume j: "j < lst + 1"
    show "unat (rk' ! (ord' ! j)) \<le> j"
    proof (cases "j = lst")
      case True
      then show ?thesis using o2(2) rk'h r_unat ru i by simp
    next
      case False
      then have jl: "j < lst" using j by simp
      then show ?thesis using o2(1)[OF jl] rk'o[OF oh[OF jl]] dep by simp
    qed
  qed
  have nz2: "\<forall>j. 0 < j \<and> j < lst + 1 \<longrightarrow> rk' ! (ord' ! j) \<noteq> 0"
  proof (intro allI impI)
    fix j assume j: "0 < j \<and> j < lst + 1"
    show "rk' ! (ord' ! j) \<noteq> 0"
    proof (cases "j = lst")
      case True
      then show ?thesis using o2(2) rk'h r_nz by simp
    next
      case False
      then have jl: "j < lst" using j by simp
      then show ?thesis using o2(1)[OF jl] rk'o[OF oh[OF jl]] nz j by simp
    qed
  qed
  have par_h: "dc_parent st' h"
  proof -
    let ?q = "twin_idx adj a"
    have "arc_tail adj ?q = h" using T(3) h by (simp add: arc_tail_def defs)
    moreover have "rhead (adj ! ?q) = u" using ta by (simp add: arc_tail_def)
    moreover have "rk' ! u = rk ! u" using rk'o hu by simp
    ultimately have "arc_tail adj ?q = h \<and> residual_capacity (adj ! ?q) \<noteq> 0
        \<and> rk' ! h = rk' ! rhead (adj ! ?q) + 1 \<and> rk' ! rhead (adj ! ?q) \<noteq> Unreached"
      using rc rk'h uvis by (simp add: r_def defs)
    then show ?thesis unfolding dc_parent_def f using T(1) by (auto simp: defs)
  qed
  have par2: "\<forall>j. 0 < j \<and> j < lst + 1 \<longrightarrow> dc_parent st' (ord' ! j)"
  proof (intro allI impI)
    fix j assume j: "0 < j \<and> j < lst + 1"
    show "dc_parent st' (ord' ! j)"
    proof (cases "j = lst")
      case True
      then show ?thesis using o2(2) par_h by simp
    next
      case False
      then have jl: "j < lst" using j by simp
      from par j jl obtain q where q: "q < length adj" "arc_tail adj q = ord ! j"
        "residual_capacity (adj ! q) \<noteq> 0" "rk ! (ord ! j) = rk ! rhead (adj ! q) + 1"
        "rk ! rhead (adj ! q) \<noteq> Unreached"
        unfolding dc_parent_def defs by blast
      have "rhead (adj ! q) \<noteq> h" using q(5) hn by (auto simp: defs)
      then have "rk' ! rhead (adj ! q) = rk ! rhead (adj ! q)" by (rule rk'o)
      moreover have "rk' ! (ord ! j) = rk ! (ord ! j)" using rk'o[OF oh[OF jl]] .
      ultimately have "arc_tail adj q = ord' ! j \<and> residual_capacity (adj ! q) \<noteq> 0
        \<and> rk' ! (ord' ! j) = rk' ! rhead (adj ! q) + 1 \<and> rk' ! rhead (adj ! q) \<noteq> Unreached"
        using q o2(1)[OF jl] by simp
      then show ?thesis unfolding dc_parent_def f using q(1) by (auto simp: defs)
    qed
  qed
  show "dc_bfs_inv (lst + 1) st'"
    unfolding dc_bfs_inv_def f
    using stat' l1 lst_lt d2 ok2 vis2 rt2 dep2 nz2 par2 by (simp add: defs)
qed

lemma ek_cut_saturated: "ek_cut st \<Longrightarrow> saturated_cut (ek_rnetwork st)"
  by (simp add: ek_cut_def saturated_cut_def)

lemma dc_ext_same: "dc_ext lst st lst' st' \<Longrightarrow> dc_same st st'"
  by (simp add: dc_ext_def dc_same_def)

lemma dc_same_trans: "dc_same a b \<Longrightarrow> dc_same b c \<Longrightarrow> dc_same a c"
  by (simp add: dc_same_def)

lemma dc_rank_fold_spec:
  assumes "dc_bfs_inv lst st" "i < lst"
    and "set as \<subseteq> span_of (arcs_out_span (dc_rnetwork st)) (dc_bfs_ordering st ! i)"
  shows "\<exists>lst' st'. foldl (dc_rank_step i) (lst, st) as = (lst', st')
       \<and> dc_bfs_inv lst' st' \<and> dc_ext lst st lst' st' \<and> dc_scanned st' (set as)"
  using assms
proof (induction as arbitrary: lst st)
  case Nil
  then show ?case by (simp add: dc_ext_refl dc_scanned_def)
next
  case (Cons a as)
  let ?rn = "dc_rnetwork st"
  let ?adj = "adjlist ?rn"
  define h where "h = rhead (?adj ! a)"
  have stat: "dc_static st" using Cons.prems(1) by (simp add: dc_bfs_inv_def)
  have A: "arena_ok (rn_n ?rn) (arcs_out_span ?rn) ?adj" using stat by (simp add: dc_static_def)
  have uk: "dc_bfs_ordering st ! i < rn_n ?rn"
    using Cons.prems(1,2) by (simp add: dc_bfs_inv_def)
  have ain: "a \<in> span_of (arcs_out_span ?rn) (dc_bfs_ordering st ! i)"
    and asin: "set as \<subseteq> span_of (arcs_out_span ?rn) (dc_bfs_ordering st ! i)"
    using Cons.prems(3) by simp_all
  have al: "a < length ?adj" by (rule span_owner(1)[OF A uk ain])
  have hk: "h < rn_n ?rn" unfolding h_def by (rule arena_twin(5)[OF A al])
  show ?case
  proof (cases "dc_rank st ! h = Unreached
      \<and> residual_capacity (?adj ! twin_idx ?adj a) \<noteq> 0")
    case True
    define st2 where "st2 = st\<lparr>dc_rank := (dc_rank st)[h := dc_rank st ! (dc_bfs_ordering st ! i) + 1],
                     dc_bfs_ordering := (dc_bfs_ordering st)[lst := h]\<rparr>"
    note D = dc_discover[OF Cons.prems(1,2) ain h_def, folded st2_def]
    have step: "dc_rank_step i (lst, st) a = (lst + 1, st2)"
      using True
      by (simp add: dc_rank_step_def Let_def h_def[symmetric] is_residual_def is_saturated_def st2_def)
    have inv2: "dc_bfs_inv (lst + 1) st2" using D(1) True by simp
    have ext2: "dc_ext lst st (lst + 1) st2" using D(2) True by simp
    have ph: "dc_rank st2 ! h \<noteq> Unreached" using D(3) True by simp
    have rn2: "dc_rnetwork st2 = ?rn" using ext2 by (simp add: dc_ext_def)
    have "take lst (dc_bfs_ordering st2) ! i = take lst (dc_bfs_ordering st) ! i"
      using ext2 by (simp add: dc_ext_def)
    then have oi: "dc_bfs_ordering st2 ! i = dc_bfs_ordering st ! i"
      using Cons.prems(2) by simp
    have asin2: "set as \<subseteq> span_of (arcs_out_span (dc_rnetwork st2)) (dc_bfs_ordering st2 ! i)"
      using asin by (simp add: rn2 oi)
    have i2: "i < lst + 1" using Cons.prems(2) by simp
    from Cons.IH[OF inv2 i2 asin2] obtain lst' st' where
      r: "foldl (dc_rank_step i) (lst + 1, st2) as = (lst', st')"
        "dc_bfs_inv lst' st'" "dc_ext (lst + 1) st2 lst' st'" "dc_scanned st' (set as)"
      by blast
    have ext: "dc_ext lst st lst' st'" by (rule dc_ext_trans[OF ext2 r(3)])
    have "dc_rank st' ! h = dc_rank st2 ! h" using r(3) ph hk by (simp add: dc_ext_def rn2)
    then have "dc_rank st' ! h \<noteq> Unreached" using ph by simp
    moreover have "dc_rnetwork st' = ?rn" using ext by (simp add: dc_ext_def)
    ultimately have sc: "dc_scanned st' (set (a # as))"
      using r(4) by (simp add: dc_scanned_def h_def)
    have "foldl (dc_rank_step i) (lst, st) (a # as) = (lst', st')"
      using step r(1) by simp
    then show ?thesis using r(2) ext sc by blast
  next
    case False
    have step: "dc_rank_step i (lst, st) a = (lst, st)"
      using False
      by (auto simp: dc_rank_step_def Let_def h_def[symmetric] is_residual_def is_saturated_def)
    from Cons.IH[OF Cons.prems(1,2) asin] obtain lst' st' where
      r: "foldl (dc_rank_step i) (lst, st) as = (lst', st')"
        "dc_bfs_inv lst' st'" "dc_ext lst st lst' st'" "dc_scanned st' (set as)"
      by blast
    have sa: "dc_scanned st {a}" using False by (auto simp: dc_scanned_def h_def)
    have "dc_scanned st' {a}" using dc_scanned_mono[OF A _ sa r(3)] al by simp
    then have sc: "dc_scanned st' (set (a # as))" using r(4) by (simp add: dc_scanned_def)
    have "foldl (dc_rank_step i) (lst, st) (a # as) = (lst', st')"
      using step r(1) by simp
    then show ?thesis using r(2,3) sc by blast
  qed
qed

lemma dc_bfs_loop_spec:
  assumes "dc_bfs_inv lst st" "i \<le> lst" "dc_closed i st"
  shows "\<exists>lst' st'. dc_bfs_loop i lst st = Some st' \<and> dc_same st st'
       \<and> dc_bfs_inv lst' st' \<and> dc_closed lst' st'"
  using assms
proof (induction "rn_n (dc_rnetwork st) - i" arbitrary: i lst st rule: less_induct)
  case less
  let ?rn = "dc_rnetwork st"
  show ?case
  proof (cases "i = lst")
    case True
    have "dc_bfs_loop i lst st = Some st"
      using True by (subst dc_bfs_loop.simps) simp
    moreover have "dc_same st st" by (simp add: dc_same_def)
    ultimately show ?thesis using less.prems True by blast
  next
    case False
    then have il: "i < lst" using less.prems(2) by simp
    define u where "u = dc_bfs_ordering st ! i"
    define as where "as = [fst (arcs_out_span ?rn ! u)..<snd (arcs_out_span ?rn ! u)]"
    have stat: "dc_static st" using less.prems(1) by (simp add: dc_bfs_inv_def)
    have A: "arena_ok (rn_n ?rn) (arcs_out_span ?rn) (adjlist ?rn)"
      using stat by (simp add: dc_static_def)
    have lk: "lst \<le> rn_n ?rn" using less.prems(1) by (simp add: dc_bfs_inv_def)
    have sas: "set as = span_of (arcs_out_span ?rn) u" by (simp add: as_def span_of_def)
    then have sub: "set as \<subseteq> span_of (arcs_out_span ?rn) (dc_bfs_ordering st ! i)"
      by (simp add: u_def)
    from dc_rank_fold_spec[OF less.prems(1) il sub] obtain lst' st' where
      r: "foldl (dc_rank_step i) (lst, st) as = (lst', st')"
        "dc_bfs_inv lst' st'" "dc_ext lst st lst' st'" "dc_scanned st' (set as)"
      by blast
    have step: "dc_bfs_loop i lst st = dc_bfs_loop (i + 1) lst' st'"
      using False r(1)
      by (subst dc_bfs_loop.simps) (simp add: Let_def u_def[symmetric] as_def[symmetric])
    have rn': "dc_rnetwork st' = ?rn" using r(3) by (simp add: dc_ext_def)
    have ll: "lst \<le> lst'" using r(3) by (simp add: dc_ext_def)
    have ord': "dc_bfs_ordering st' ! j = dc_bfs_ordering st ! j" if "j < lst" for j
    proof -
      have "take lst (dc_bfs_ordering st') ! j = take lst (dc_bfs_ordering st) ! j"
        using r(3) by (simp add: dc_ext_def)
      then show ?thesis using that by simp
    qed
    have cl': "dc_closed (i + 1) st'"
      unfolding dc_closed_def
    proof (intro allI impI)
      fix j assume j: "j < i + 1"
      have jl: "j < lst" using j il by simp
      have uj: "dc_bfs_ordering st ! j < rn_n ?rn"
        using less.prems(1) jl by (simp add: dc_bfs_inv_def)
      have subj: "span_of (arcs_out_span ?rn) (dc_bfs_ordering st ! j) \<subseteq> {..<length (adjlist ?rn)}"
        using A uj unfolding arena_ok_def by blast
      have "dc_scanned st' (span_of (arcs_out_span ?rn) (dc_bfs_ordering st ! j))"
      proof (cases "j = i")
        case True
        then show ?thesis using r(4) sas by (simp add: u_def)
      next
        case False
        then have "j < i" using j by simp
        then have "dc_scanned st (span_of (arcs_out_span ?rn) (dc_bfs_ordering st ! j))"
          using less.prems(3) by (simp add: dc_closed_def)
        then show ?thesis by (rule dc_scanned_mono[OF A subj _ r(3)])
      qed
      then show "dc_scanned st' (span_of (arcs_out_span (dc_rnetwork st'))
          (dc_bfs_ordering st' ! j))"
        by (simp add: rn' ord'[OF jl])
    qed
    have meas: "rn_n (dc_rnetwork st') - (i + 1) < rn_n ?rn - i"
      using il lk by (simp add: rn')
    have i': "i + 1 \<le> lst'" using il ll by simp
    from less.hyps[OF meas r(2) i' cl'] obtain l2 st2 where
      r2: "dc_bfs_loop (i + 1) lst' st' = Some st2" "dc_same st' st2"
        "dc_bfs_inv l2 st2" "dc_closed l2 st2"
      by blast
    have "dc_same st st2" by (rule dc_same_trans[OF dc_ext_same[OF r(3)] r2(2)])
    then show ?thesis unfolding step using r2(1,3,4) by blast
  qed
qed

lemma dc_bfs_inv_ranked:
  assumes inv: "dc_bfs_inv lst st"
  shows "\<forall>v<rn_n (dc_rnetwork st). dc_rank st ! v = 0 \<longrightarrow> v = rn_sink (dc_rnetwork st)"
    and "\<forall>v<rn_n (dc_rnetwork st). dc_rank st ! v \<noteq> Unreached
            \<longrightarrow> v \<noteq> rn_sink (dc_rnetwork st) \<longrightarrow> dc_parent st v"
proof -
  let ?rn = "dc_rnetwork st"
  have stat: "dc_static st" using inv by (simp add: dc_bfs_inv_def)
  have o0: "dc_bfs_ordering st ! 0 = rn_sink ?rn" using stat by (simp add: dc_static_def)
  have vis: "\<forall>v<rn_n ?rn. dc_rank st ! v \<noteq> Unreached \<longleftrightarrow> (\<exists>j<lst. dc_bfs_ordering st ! j = v)"
    and nz: "\<forall>j. 0 < j \<and> j < lst \<longrightarrow> dc_rank st ! (dc_bfs_ordering st ! j) \<noteq> 0"
    and par: "\<forall>j. 0 < j \<and> j < lst \<longrightarrow> dc_parent st (dc_bfs_ordering st ! j)"
    using inv by (simp_all add: dc_bfs_inv_def)
  have idx: "\<exists>j. 0 < j \<and> j < lst \<and> dc_bfs_ordering st ! j = v"
    if "v < rn_n ?rn" "dc_rank st ! v \<noteq> Unreached" "v \<noteq> rn_sink ?rn" for v
  proof -
    from vis that obtain j where j: "j < lst" "dc_bfs_ordering st ! j = v" by blast
    have "j \<noteq> 0"
    proof
      assume "j = 0"
      then have "v = rn_sink ?rn" using j(2) o0 by simp
      then show False using that(3) by simp
    qed
    then have "0 < j \<and> j < lst \<and> dc_bfs_ordering st ! j = v" using j by simp
    then show ?thesis by (rule exI)
  qed
  show "\<forall>v<rn_n ?rn. dc_rank st ! v = 0 \<longrightarrow> v = rn_sink ?rn"
  proof (intro allI impI)
    fix v assume v: "v < rn_n ?rn" and z: "dc_rank st ! v = 0"
    show "v = rn_sink ?rn"
    proof (rule ccontr)
      assume ne: "v \<noteq> rn_sink ?rn"
      have "dc_rank st ! v \<noteq> Unreached" using z by (simp add: Unreached_def)
      from idx[OF v this ne] obtain j where "0 < j \<and> j < lst" "dc_bfs_ordering st ! j = v"
        by blast
      then show False using nz z by auto
    qed
  qed
  show "\<forall>v<rn_n ?rn. dc_rank st ! v \<noteq> Unreached \<longrightarrow> v \<noteq> rn_sink ?rn \<longrightarrow> dc_parent st v"
  proof (intro allI impI)
    fix v assume v: "v < rn_n ?rn" "dc_rank st ! v \<noteq> Unreached" "v \<noteq> rn_sink ?rn"
    from idx[OF v] obtain j where "0 < j \<and> j < lst" "dc_bfs_ordering st ! j = v" by blast
    then show "dc_parent st v" using par by auto
  qed
qed

lemma dc_closed_cut:
  assumes inv: "dc_bfs_inv lst st" and cl: "dc_closed lst st"
    and un: "dc_rank st ! rn_source (dc_rnetwork st) = Unreached"
  shows "saturated_cut (dc_rnetwork st)"
proof -
  let ?rn = "dc_rnetwork st"
  let ?k = "rn_n ?rn" and ?s = "rn_source ?rn" and ?t = "rn_sink ?rn"
  let ?adj = "adjlist ?rn" and ?sp = "arcs_out_span ?rn"
  define D where "D = {v. v < ?k \<and> dc_rank st ! v = Unreached}"
  have stat: "dc_static st" using inv by (simp add: dc_bfs_inv_def)
  have A: "arena_ok ?k ?sp ?adj" and sk: "?s < ?k"
    using stat by (simp_all add: dc_static_def)
  have rt: "dc_rank st ! ?t = 0"
    and vis: "\<forall>v<?k. dc_rank st ! v \<noteq> Unreached \<longleftrightarrow> (\<exists>j<lst. dc_bfs_ordering st ! j = v)"
    using inv by (simp_all add: dc_bfs_inv_def)
  have sD: "?s \<in> D" using sk un by (simp add: D_def)
  have tD: "?t \<notin> D" using rt by (simp add: D_def Unreached_def)
  have "res_closed ?adj D"
    unfolding res_closed_def
  proof (intro allI impI)
    fix p assume p: "p < length ?adj"
      and h: "arc_tail ?adj p \<in> D \<and> residual_capacity (?adj ! p) \<noteq> 0"
    note T = arena_twin[OF A p]
    let ?q = "twin_idx ?adj p"
    let ?w = "rhead (?adj ! p)"
    show "?w \<in> D"
    proof (rule ccontr)
      assume "?w \<notin> D"
      then have "dc_rank st ! ?w \<noteq> Unreached" using T(5) by (simp add: D_def)
      then obtain j where j: "j < lst" "dc_bfs_ordering st ! j = ?w" using vis T(5) by blast
      have "dc_scanned st (span_of ?sp ?w)" using cl j by (auto simp: dc_closed_def)
      moreover have "residual_capacity (?adj ! twin_idx ?adj ?q) \<noteq> 0" using h T(3) by simp
      ultimately have "dc_rank st ! rhead (?adj ! ?q) \<noteq> Unreached"
        using T(6) by (simp add: dc_scanned_def)
      then have "dc_rank st ! arc_tail ?adj p \<noteq> Unreached" by (simp add: arc_tail_def)
      then show False using h by (simp add: D_def)
    qed
  qed
  moreover have "D \<subseteq> {..<?k}" by (auto simp: D_def)
  ultimately show ?thesis unfolding saturated_cut_def using sD tD by blast
qed

lemma bfs_compute_rank_spec:
  assumes "dc_static st"
  shows "\<exists>reached st'. bfs_compute_rank st = Some (reached, st') \<and> dc_same st st'
       \<and> dc_static st'
       \<and> (reached \<longrightarrow> dc_ranked st') \<and> (\<not> reached \<longrightarrow> saturated_cut (dc_rnetwork st'))"
proof -
  let ?rn = "dc_rnetwork st"
  let ?k = "rn_n ?rn" and ?t = "rn_sink ?rn"
  define rk0 where "rk0 = (replicate ?k Unreached)[?t := 0]"
  define st0 where "st0 = st\<lparr>dc_rank := (replicate (length (dc_rank st)) Unreached)[?t := 0]\<rparr>"
  have tk: "?t < ?k" and o0: "dc_bfs_ordering st ! 0 = ?t"
    and lo: "length (dc_bfs_ordering st) = ?k"
    using assms by (simp_all add: dc_static_def)
  have f0: "dc_rnetwork st0 = ?rn" "dc_bfs_ordering st0 = dc_bfs_ordering st"
    "dc_rank st0 = rk0" "dc_current_arc st0 = dc_current_arc st"
    using assms by (simp_all add: st0_def rk0_def dc_static_def)
  have stat0: "dc_static st0" using assms unfolding dc_static_def f0 by (simp add: rk0_def)
  have r0: "rk0 ! v = (if v = ?t then 0 else Unreached)" if "v < ?k" for v
    using that tk by (simp add: rk0_def nth_list_update)
  have tk1: "take 1 (dc_bfs_ordering st) = [?t]"
    using tk lo o0 by (cases "dc_bfs_ordering st") simp_all
  have vis0: "\<forall>v<?k. rk0 ! v \<noteq> Unreached \<longleftrightarrow> (\<exists>j<1. dc_bfs_ordering st ! j = v)"
    using r0 o0 by (auto simp: Unreached_def)
  have inv0: "dc_bfs_inv 1 st0"
    unfolding dc_bfs_inv_def f0
    using stat0 tk o0 tk1 vis0 r0[OF tk] by auto
  have cl0: "dc_closed 0 st0" by (simp add: dc_closed_def)
  have s0: "dc_same st st0" by (simp add: dc_same_def st0_def)
  from dc_bfs_loop_spec[OF inv0 _ cl0] obtain l st' where
    r: "dc_bfs_loop 0 1 st0 = Some st'" "dc_same st0 st'"
      "dc_bfs_inv l st'" "dc_closed l st'"
    by auto
  define reached where "reached = (dc_rank st' ! rn_source (dc_rnetwork st') \<noteq> Unreached)"
  have b: "bfs_compute_rank st = Some (reached, st')"
    using r(1) by (simp add: bfs_compute_rank_def st0_def reached_def)
  have same: "dc_same st st'" by (rule dc_same_trans[OF s0 r(2)])
  have stat': "dc_static st'" using r(3) by (simp add: dc_bfs_inv_def)
  have rk: "reached \<longrightarrow> dc_ranked st'"
    unfolding dc_ranked_def using dc_bfs_inv_ranked[OF r(3)] by (simp add: reached_def)
  have cut: "\<not> reached \<longrightarrow> saturated_cut (dc_rnetwork st')"
    using dc_closed_cut[OF r(3,4)] by (simp add: reached_def)
  show ?thesis using b same stat' rk cut by blast
qed

lemma dc_alive_cong:
  assumes "dc_rnetwork st' = dc_rnetwork st" "dc_rank st' = dc_rank st"
    "dc_current_arc st' = dc_current_arc st"
  shows "dc_alive st' v \<longleftrightarrow> dc_alive st v"
proof
  assume "dc_alive st' v"
  then show "dc_alive st v"
  proof (induction rule: dc_alive.induct)
    case alive_sink
    then show ?case using assms(1) dc_alive.alive_sink[of st] by simp
  next
    case (alive_arc q)
    then show ?case using assms dc_alive.alive_arc[of q st] by simp
  qed
next
  assume "dc_alive st v"
  then show "dc_alive st' v"
  proof (induction rule: dc_alive.induct)
    case alive_sink
    then show ?case using assms(1) dc_alive.alive_sink[of st'] by simp
  next
    case (alive_arc q)
    then show ?case using assms dc_alive.alive_arc[of q st'] by simp
  qed
qed

lemma dc_alive_advance:
  assumes A: "arena_ok (rn_n (dc_rnetwork st)) (arcs_out_span (dc_rnetwork st))
                (adjlist (dc_rnetwork st))"
    and u: "u < rn_n (dc_rnetwork st)" and len: "length (dc_current_arc st) = rn_n (dc_rnetwork st)"
    and a: "a = dc_current_arc st ! u"
    and ain: "a \<in> span_of (arcs_out_span (dc_rnetwork st)) u"
    and dead: "\<not> (dc_rank st ! u = dc_rank st ! rhead (adjlist (dc_rnetwork st) ! a) + 1
                 \<and> residual_capacity (adjlist (dc_rnetwork st) ! a) \<noteq> 0
                 \<and> dc_alive st (rhead (adjlist (dc_rnetwork st) ! a)))"
  defines "st2 \<equiv> st\<lparr>dc_current_arc := (dc_current_arc st)[u := dc_current_arc st ! u + 1]\<rparr>"
  shows "dc_alive st2 v \<longleftrightarrow> dc_alive st v"
proof
  let ?adj = "adjlist (dc_rnetwork st)"
  have f: "dc_rnetwork st2 = dc_rnetwork st" "dc_rank st2 = dc_rank st"
    "dc_current_arc st2 = (dc_current_arc st)[u := a + 1]"
    by (simp_all add: st2_def a)
  have ta: "arc_tail ?adj a = u" by (rule span_owner(2)[OF A u ain])
  {
    assume "dc_alive st2 v"
    then show "dc_alive st v"
    proof (induction rule: dc_alive.induct)
      case alive_sink
      then show ?case using dc_alive.alive_sink[of st] by (simp add: f)
    next
      case (alive_arc q)
      have "dc_current_arc st ! arc_tail ?adj q \<le> q"
      proof (cases "arc_tail ?adj q = u")
        case True
        then show ?thesis using alive_arc(2) u len a by (simp add: f)
      next
        case False
        then show ?thesis using alive_arc(2) by (simp add: f)
      qed
      then show ?case using alive_arc dc_alive.alive_arc[of q st] by (simp add: f)
    qed
  }
  {
    assume "dc_alive st v"
    then show "dc_alive st2 v"
    proof (induction rule: dc_alive.induct)
      case alive_sink
      then show ?case using dc_alive.alive_sink[of st2] by (simp add: f)
    next
      case (alive_arc q)
      have "dc_current_arc st2 ! arc_tail ?adj q \<le> q"
      proof (cases "arc_tail ?adj q = u")
        case True
        have "q \<noteq> a"
        proof
          assume "q = a"
          then show False using dead alive_arc(3,4,5) True by simp
        qed
        then show ?thesis using alive_arc(2) True u len a by (simp add: f)
      next
        case False
        then show ?thesis using alive_arc(2) by (simp add: f)
      qed
      then show ?case using alive_arc dc_alive.alive_arc[of q st2] by (simp add: f)
    qed
  }
qed

lemma dc_not_alive_end:
  assumes A: "arena_ok (rn_n (dc_rnetwork st)) (arcs_out_span (dc_rnetwork st))
                (adjlist (dc_rnetwork st))"
    and u: "u \<noteq> rn_sink (dc_rnetwork st)"
    and e: "dc_current_arc st ! u = snd (arcs_out_span (dc_rnetwork st) ! u)"
  shows "\<not> dc_alive st u"
proof
  assume "dc_alive st u"
  then show False
  proof (cases rule: dc_alive.cases)
    case alive_sink
    then show ?thesis using u by simp
  next
    case (alive_arc q)
    have "q \<in> span_of (arcs_out_span (dc_rnetwork st)) (arc_tail (adjlist (dc_rnetwork st)) q)"
      by (rule arena_twin(8)[OF A alive_arc(2)])
    then have "q < snd (arcs_out_span (dc_rnetwork st) ! u)"
      using alive_arc(1) by (simp add: span_of_def)
    then show ?thesis using alive_arc(1,3) e by simp
  qed
qed

lemma rank_pred:
  fixes r r' :: rank_t
  assumes "r = r' + 1" "r \<noteq> 0"
  shows "unat r = unat r' + 1"
proof -
  have "unat r' < 2 ^ 32 - 1"
  proof (rule ccontr)
    assume "\<not> unat r' < 2 ^ 32 - 1"
    moreover have "unat r' < 2 ^ 32" by (rule unat_flow_bound)
    ultimately have "unat r' = unat Unreached" by (simp add: Unreached_unat)
    then have "r' = Unreached" by (simp add: word_unat_eq_iff)
    then have "r = 0" using assms(1) by (simp add: Unreached_def)
    then show False using assms(2) by simp
  qed
  then show ?thesis using rank_succ(1) assms(1) by simp
qed

lemma dc_result_Nil: "dc_result st cur df [] = st\<lparr>dc_current_arc := cur\<rparr>"
  by (simp add: dc_result_def)

lemma dc_result_fields:
  "dc_rank (dc_result st cur df cs) = dc_rank st"
  "dc_bfs_ordering (dc_result st cur df cs) = dc_bfs_ordering st"
  "dc_current_arc (dc_result st cur df cs) = cur"
  "rn_n (dc_rnetwork (dc_result st cur df cs)) = rn_n (dc_rnetwork st)"
  "rn_source (dc_rnetwork (dc_result st cur df cs)) = rn_source (dc_rnetwork st)"
  "rn_sink (dc_rnetwork (dc_result st cur df cs)) = rn_sink (dc_rnetwork st)"
  "arcs_out_span (dc_rnetwork (dc_result st cur df cs)) = arcs_out_span (dc_rnetwork st)"
  "adjlist (dc_rnetwork (dc_result st cur df cs))
     = apply_pushes (map (\<lambda>a. (a, df)) cs) (adjlist (dc_rnetwork st))"
  "dc_pushes (dc_result st cur df cs) = dc_pushes st @ map (\<lambda>a. (a, df)) cs"
  by (simp_all add: dc_result_def)

lemma dc_push_result:
  "dc_push a df (dc_result st cur df cs) = dc_result st cur df (cs @ [a])"
  by (simp add: dc_result_def dc_push_def apply_pushes_append)

lemma dc_result_cur:
  "dc_result (st\<lparr>dc_current_arc := c\<rparr>) cur df cs = dc_result st cur df cs"
  by (simp add: dc_result_def)

lemma dfs_post_shift:
  assumes P: "dfs_post st2 u flow df st'"
    and e: "st2 = st\<lparr>dc_current_arc := dc_current_arc st2\<rparr>"
    and al: "\<And>v. dc_alive st2 v \<longleftrightarrow> dc_alive st v"
    and fr: "\<forall>v<rn_n (dc_rnetwork st). unat (dc_rank st ! u) < unat (dc_rank st ! v)
              \<longrightarrow> dc_current_arc st2 ! v = dc_current_arc st ! v"
  shows "dfs_post st u flow df st'"
proof -
  have f: "dc_rnetwork st2 = dc_rnetwork st" "dc_rank st2 = dc_rank st"
    by (subst e, simp)+
  have r: "dc_result st2 c df cs = dc_result st c df cs" for c cs
    by (subst e) (simp add: dc_result_cur)
  from P obtain cs where cs: "st' = dc_result st2 (dc_current_arc st') df cs" "df \<le> flow"
    "length (dc_current_arc st') = rn_n (dc_rnetwork st)"
    "\<forall>v<rn_n (dc_rnetwork st).
        fst (arcs_out_span (dc_rnetwork st) ! v) \<le> dc_current_arc st' ! v
        \<and> dc_current_arc st' ! v \<le> snd (arcs_out_span (dc_rnetwork st) ! v)"
    "\<forall>v<rn_n (dc_rnetwork st). unat (dc_rank st ! u) < unat (dc_rank st ! v)
        \<longrightarrow> dc_current_arc st' ! v = dc_current_arc st2 ! v"
    "df = 0 \<longrightarrow> cs = []
        \<and> (flow \<noteq> 0 \<longrightarrow> \<not> dc_alive st2 u \<and> (\<forall>v. dc_alive st' v \<longleftrightarrow> dc_alive st2 v))"
    "df \<noteq> 0 \<longrightarrow>
        back_path (adjlist (dc_rnetwork st)) (rn_sink (dc_rnetwork st)) cs u
        \<and> distinct cs
        \<and> (\<forall>a\<in>set cs. df \<le> residual_capacity (adjlist (dc_rnetwork st) ! a)
              \<and> unat (dc_rank st ! arc_tail (adjlist (dc_rnetwork st)) a)
                  \<le> unat (dc_rank st ! u))"
    unfolding dfs_post_def f by blast
  have c1: "st' = dc_result st (dc_current_arc st') df cs" using cs(1) r by simp
  have c5: "\<forall>v<rn_n (dc_rnetwork st). unat (dc_rank st ! u) < unat (dc_rank st ! v)
        \<longrightarrow> dc_current_arc st' ! v = dc_current_arc st ! v"
    using cs(5) fr by simp
  have c6: "df = 0 \<longrightarrow> cs = []
        \<and> (flow \<noteq> 0 \<longrightarrow> \<not> dc_alive st u \<and> (\<forall>v. dc_alive st' v \<longleftrightarrow> dc_alive st v))"
    using cs(6) al by simp
  show ?thesis unfolding dfs_post_def using c1 cs(2,3,4) c5 c6 cs(7) by blast
qed

lemma span_room:
  assumes A: "arena_ok k sp adj" and v: "v < k"
    and c: "fst (sp ! v) \<le> c" "c \<le> snd (sp ! v)"
  shows "snd (sp ! v) - c \<le> length adj"
proof (cases "c < snd (sp ! v)")
  case True
  then have "c \<in> span_of sp v" using c by (simp add: span_of_def)
  then have "snd (sp ! v) - 1 \<in> span_of sp v" using True c by (simp add: span_of_def)
  then have "snd (sp ! v) - 1 < length adj" using A v unfolding arena_ok_def by blast
  then show ?thesis by simp
next
  case False
  then show ?thesis by simp
qed

lemma dfs_phase_loop_spec:
  assumes "dc_dfs_pre st" "u < rn_n (dc_rnetwork st)"
  shows "\<exists>df st'. dfs_phase_loop u flow st = Some (df, st') \<and> dfs_post st u flow df st'"
  using assms
proof (induction "unat (dc_rank st ! u) * (length (adjlist (dc_rnetwork st)) + 1)
      + (snd (arcs_out_span (dc_rnetwork st) ! u) - dc_current_arc st ! u)"
    arbitrary: st u flow rule: less_induct)
  case less
  let ?rn = "dc_rnetwork st"
  define k where "k = rn_n ?rn"
  define sp where "sp = arcs_out_span ?rn"
  define adj where "adj = adjlist ?rn"
  define t where "t = rn_sink ?rn"
  define rk where "rk = dc_rank st"
  define cur where "cur = dc_current_arc st"
  note defs = k_def sp_def adj_def t_def rk_def cur_def
  have stat: "dc_static st"
    and rz: "\<forall>v<k. rk ! v = 0 \<longrightarrow> v = t"
    and cr: "\<forall>v<k. fst (sp ! v) \<le> cur ! v \<and> cur ! v \<le> snd (sp ! v)"
    using less.prems(1) by (simp_all add: dc_dfs_pre_def defs)
  have A: "arena_ok k sp adj" and lc: "length cur = k"
    using stat by (simp_all add: dc_static_def defs)
  have uk: "u < k" using less.prems(2) by (simp add: defs)
  have self: "st = dc_result st cur d []" for d
    by (simp add: dc_result_Nil cur_def)
  show ?case
  proof (cases "flow = 0 \<or> u = t")
    case True
    have r: "dfs_phase_loop u flow st = Some (flow, st)"
      using True by (subst dfs_phase_loop.simps) (simp add: defs)
    have "dfs_post st u flow flow st"
      unfolding dfs_post_def
      apply (rule exI[of _ "[]"])
      using True self[of flow] cr lc by (auto simp: defs)
    then show ?thesis using r by blast
  next
    case nA: False
    then have fnz: "flow \<noteq> 0" and ut: "u \<noteq> t" by simp_all
    show ?thesis
    proof (cases "cur ! u = snd (sp ! u)")
      case True
      have r: "dfs_phase_loop u flow st = Some (0, st)"
        using nA True by (subst dfs_phase_loop.simps) (simp add: defs)
      have na: "\<not> dc_alive st u"
        using dc_not_alive_end[of st u] A ut True by (simp add: defs)
      have "dfs_post st u flow 0 st"
        unfolding dfs_post_def
        apply (rule exI[of _ "[]"])
        using self[of 0] cr lc na by (auto simp: defs)
      then show ?thesis using r by blast
    next
      case nB: False
      define a where "a = cur ! u"
      define h where "h = rhead (adj ! a)"
      have a_rng: "fst (sp ! u) \<le> a" "a < snd (sp ! u)"
        using cr uk nB by (auto simp: a_def)
      have ain: "a \<in> span_of sp u" using a_rng by (simp add: span_of_def)
      have al: "a < length adj" and ta: "arc_tail adj a = u"
        using span_owner[OF A uk ain] by simp_all
      have hk: "h < k" unfolding h_def by (rule arena_twin(5)[OF A al])
      have advance: "\<exists>df st'. dfs_phase_loop u flow (st\<lparr>dc_current_arc := c1[u := c1 ! u + 1]\<rparr>)
            = Some (df, st') \<and> dfs_post st u flow df st'"
        if c1: "length c1 = k" "c1 ! u = a"
          "\<forall>v<k. fst (sp ! v) \<le> c1 ! v \<and> c1 ! v \<le> snd (sp ! v)"
          "\<forall>v<k. unat (rk ! u) < unat (rk ! v) \<longrightarrow> c1 ! v = cur ! v"
          and al1: "\<And>v. dc_alive (st\<lparr>dc_current_arc := c1\<rparr>) v \<longleftrightarrow> dc_alive st v"
          and dead: "\<not> (rk ! u = rk ! h + 1 \<and> residual_capacity (adj ! a) \<noteq> 0 \<and> dc_alive st h)"
        for c1
      proof -
        define st1 where "st1 = st\<lparr>dc_current_arc := c1\<rparr>"
        define st2 where "st2 = st\<lparr>dc_current_arc := c1[u := c1 ! u + 1]\<rparr>"
        have f1: "dc_rnetwork st1 = ?rn" "dc_rank st1 = rk" "dc_current_arc st1 = c1"
          by (simp_all add: st1_def defs)
        have f2: "dc_rnetwork st2 = ?rn" "dc_rank st2 = rk"
          "dc_current_arc st2 = c1[u := a + 1]" "dc_bfs_ordering st2 = dc_bfs_ordering st"
          by (simp_all add: st2_def defs c1(2))
        have e21: "st2 = st1\<lparr>dc_current_arc := (dc_current_arc st1)[u := dc_current_arc st1 ! u + 1]\<rparr>"
          by (simp add: st2_def st1_def)
        have dead1: "\<not> (dc_rank st1 ! u = dc_rank st1 ! rhead (adjlist (dc_rnetwork st1) ! a) + 1
                 \<and> residual_capacity (adjlist (dc_rnetwork st1) ! a) \<noteq> 0
                 \<and> dc_alive st1 (rhead (adjlist (dc_rnetwork st1) ! a)))"
          unfolding f1 using dead al1[of h] by (simp add: st1_def h_def adj_def)
        have al2: "dc_alive st2 v \<longleftrightarrow> dc_alive st v" for v
        proof -
          have "dc_alive st2 v \<longleftrightarrow> dc_alive st1 v"
            unfolding e21
            apply (rule dc_alive_advance[where a = a])
            using A uk c1(1,2) ain dead1 by (simp_all add: f1 defs)
          then show ?thesis using al1[of v] by (simp add: st1_def)
        qed
        have cr2: "\<forall>v<k. fst (sp ! v) \<le> c1[u := a + 1] ! v \<and> c1[u := a + 1] ! v \<le> snd (sp ! v)"
        proof (intro allI impI)
          fix v assume v: "v < k"
          show "fst (sp ! v) \<le> c1[u := a + 1] ! v \<and> c1[u := a + 1] ! v \<le> snd (sp ! v)"
          proof (cases "v = u")
            case True
            then show ?thesis using a_rng uk c1(1) by simp
          next
            case False
            then show ?thesis using c1(3) v by simp
          qed
        qed
        have stat2: "dc_static st2"
          using stat c1(1) unfolding dc_static_def f2 by (simp add: defs)
        have pre2: "dc_dfs_pre st2"
          unfolding dc_dfs_pre_def f2 using stat2 rz cr2 by (simp add: defs)
        have uk2: "u < rn_n (dc_rnetwork st2)" using uk by (simp add: f2 defs)
        have meas: "unat (dc_rank st2 ! u) * (length (adjlist (dc_rnetwork st2)) + 1)
            + (snd (arcs_out_span (dc_rnetwork st2) ! u) - dc_current_arc st2 ! u)
          < unat (dc_rank st ! u) * (length (adjlist ?rn) + 1)
            + (snd (arcs_out_span ?rn ! u) - dc_current_arc st ! u)"
        proof -
          have "c1[u := a + 1] ! u = a + 1" using uk c1(1) by simp
          moreover have "snd (sp ! u) - (a + 1) < snd (sp ! u) - cur ! u"
            using a_rng by (simp add: a_def)
          ultimately show ?thesis unfolding f2 by (simp add: defs)
        qed
        from less.hyps[OF meas pre2 uk2, of flow] obtain df st' where
          r: "dfs_phase_loop u flow st2 = Some (df, st')" "dfs_post st2 u flow df st'"
          by blast
        have e: "st2 = st\<lparr>dc_current_arc := dc_current_arc st2\<rparr>" by (simp add: st2_def)
        have fr: "\<forall>v<rn_n ?rn. unat (dc_rank st ! u) < unat (dc_rank st ! v)
              \<longrightarrow> dc_current_arc st2 ! v = dc_current_arc st ! v"
        proof (intro allI impI)
          fix v assume v: "v < rn_n ?rn" "unat (dc_rank st ! u) < unat (dc_rank st ! v)"
          then have "v \<noteq> u" by auto
          then show "dc_current_arc st2 ! v = dc_current_arc st ! v"
            using c1(4) v by (simp add: f2 defs)
        qed
        have "dfs_post st u flow df st'" by (rule dfs_post_shift[OF r(2) e al2 fr])
        then show ?thesis using r(1) unfolding st2_def by blast
      qed
      show ?thesis
      proof (cases "rk ! u = rk ! h + 1 \<and> residual_capacity (adj ! a) \<noteq> 0")
        case adm: True
        define flow' where "flow' = min flow (residual_capacity (adj ! a))"
        have f'nz: "flow' \<noteq> 0" using fnz adm by (simp add: flow'_def min_def)
        have f'le: "flow' \<le> flow" "flow' \<le> residual_capacity (adj ! a)"
          by (simp_all add: flow'_def)
        have runz: "rk ! u \<noteq> 0" using rz uk ut by blast
        have ru: "unat (rk ! u) = unat (rk ! h) + 1"
          using rank_pred[of "rk ! u" "rk ! h"] adm runz by simp
        have room: "snd (sp ! h) - cur ! h \<le> length adj"
          using span_room[OF A hk] cr hk by simp
        have meas: "unat (dc_rank st ! h) * (length (adjlist ?rn) + 1)
            + (snd (arcs_out_span ?rn ! h) - dc_current_arc st ! h)
          < unat (dc_rank st ! u) * (length (adjlist ?rn) + 1)
            + (snd (arcs_out_span ?rn ! u) - dc_current_arc st ! u)"
        proof -
          have "unat (rk ! h) * (length adj + 1) + (snd (sp ! h) - cur ! h)
              < (unat (rk ! h) + 1) * (length adj + 1)"
            using room by simp
          also have "\<dots> \<le> unat (rk ! u) * (length adj + 1) + (snd (sp ! u) - cur ! u)"
            using ru by simp
          finally show ?thesis by (simp add: defs)
        qed
        have hk': "h < rn_n ?rn" using hk by (simp add: defs)
        from less.hyps[OF meas less.prems(1) hk', of flow'] obtain df1 st1 where
          r1: "dfs_phase_loop h flow' st = Some (df1, st1)" "dfs_post st h flow' df1 st1"
          by blast
        define c1 where "c1 = dc_current_arc st1"
        from r1(2) obtain cs1 where
          p1: "st1 = dc_result st c1 df1 cs1" "df1 \<le> flow'" "length c1 = k"
            "\<forall>v<k. fst (sp ! v) \<le> c1 ! v \<and> c1 ! v \<le> snd (sp ! v)"
            "\<forall>v<k. unat (rk ! h) < unat (rk ! v) \<longrightarrow> c1 ! v = cur ! v"
            "df1 = 0 \<longrightarrow> cs1 = []
                \<and> (flow' \<noteq> 0 \<longrightarrow> \<not> dc_alive st h \<and> (\<forall>v. dc_alive st1 v \<longleftrightarrow> dc_alive st v))"
            "df1 \<noteq> 0 \<longrightarrow> back_path adj t cs1 h \<and> distinct cs1
                \<and> (\<forall>b\<in>set cs1. df1 \<le> residual_capacity (adj ! b)
                      \<and> unat (rk ! arc_tail adj b) \<le> unat (rk ! h))"
          unfolding dfs_post_def c1_def defs by blast
        have c1u: "c1 ! u = a" using p1(5) uk ru by (simp add: a_def)
        show ?thesis
        proof (cases "df1 = 0")
          case True
          have s1: "st1 = st\<lparr>dc_current_arc := c1\<rparr>" using p1(1,6) True by (simp add: dc_result_Nil)
          have step: "dfs_phase_loop u flow st
              = dfs_phase_loop u flow (st\<lparr>dc_current_arc := c1[u := c1 ! u + 1]\<rparr>)"
            apply (subst dfs_phase_loop.simps)
            using nA nB adm r1(1) True
            by (simp add: defs[symmetric] Let_def a_def[symmetric] h_def[symmetric]
                is_residual_def is_saturated_def flow'_def[symmetric] s1)
          have al1: "\<And>v. dc_alive (st\<lparr>dc_current_arc := c1\<rparr>) v \<longleftrightarrow> dc_alive st v"
            using p1(6) True f'nz s1 by simp
          have dead: "\<not> (rk ! u = rk ! h + 1 \<and> residual_capacity (adj ! a) \<noteq> 0 \<and> dc_alive st h)"
            using p1(6) True f'nz by simp
          have fr1: "\<forall>v<k. unat (rk ! u) < unat (rk ! v) \<longrightarrow> c1 ! v = cur ! v"
            using p1(5) ru by simp
          show ?thesis unfolding step by (rule advance[OF p1(3) c1u p1(4) fr1 al1 dead])
        next
          case False
          then have pos: "0 < df1" by (simp add: word_gt_0)
          have step: "dfs_phase_loop u flow st = Some (df1, dc_push a df1 st1)"
            apply (subst dfs_phase_loop.simps)
            using nA nB adm r1(1) pos
            by (simp add: defs[symmetric] Let_def a_def[symmetric] h_def[symmetric]
                is_residual_def is_saturated_def flow'_def[symmetric])
          have bp1: "back_path adj t cs1 h" and d1: "distinct cs1"
            and b1: "\<forall>b\<in>set cs1. df1 \<le> residual_capacity (adj ! b)
                      \<and> unat (rk ! arc_tail adj b) \<le> unat (rk ! h)"
            using p1(7) False by simp_all
          have res: "dc_push a df1 st1 = dc_result st c1 df1 (cs1 @ [a])"
            by (subst p1(1)) (rule dc_push_result)
          have cur': "dc_current_arc (dc_push a df1 st1) = c1"
            unfolding res by (simp add: dc_result_fields)
          have bp: "back_path adj t (cs1 @ [a]) u"
            by (rule back_path_append[OF bp1 al _ ta]) (simp add: h_def)
          have anot: "a \<notin> set cs1"
          proof
            assume "a \<in> set cs1"
            then have "unat (rk ! arc_tail adj a) \<le> unat (rk ! h)" using b1 by blast
            then show False using ta ru by simp
          qed
          have dist: "distinct (cs1 @ [a])" using d1 anot by simp
          have dle: "df1 \<le> residual_capacity (adj ! a)" using p1(2) f'le(2) by simp
          have ball: "\<forall>b\<in>set (cs1 @ [a]). df1 \<le> residual_capacity (adj ! b)
                      \<and> unat (rk ! arc_tail adj b) \<le> unat (rk ! u)"
            using b1 dle ta ru by auto
          have fr1: "\<forall>v<k. unat (rk ! u) < unat (rk ! v) \<longrightarrow> c1 ! v = cur ! v"
            using p1(5) ru by simp
          have dfl: "df1 \<le> flow" using p1(2) f'le(1) by simp
          have "dfs_post st u flow df1 (dc_push a df1 st1)"
            unfolding dfs_post_def cur'
            apply (rule exI[of _ "cs1 @ [a]"])
            using res dfl p1(3,4) fr1 False bp dist ball by (simp add: defs)
          then show ?thesis using step by blast
        qed
      next
        case nadm: False
        have step: "dfs_phase_loop u flow st
            = dfs_phase_loop u flow (st\<lparr>dc_current_arc := cur[u := cur ! u + 1]\<rparr>)"
          apply (subst dfs_phase_loop.simps)
          using nA nB nadm
          by (auto simp: defs[symmetric] Let_def a_def[symmetric] h_def[symmetric]
              is_residual_def is_saturated_def)
        have al1: "\<And>v. dc_alive (st\<lparr>dc_current_arc := cur\<rparr>) v \<longleftrightarrow> dc_alive st v"
          by (simp add: cur_def)
        have dead: "\<not> (rk ! u = rk ! h + 1 \<and> residual_capacity (adj ! a) \<noteq> 0 \<and> dc_alive st h)"
          using nadm by simp
        have cu: "cur ! u = a" by (simp add: a_def)
        have fr0: "\<forall>v<k. unat (rk ! u) < unat (rk ! v) \<longrightarrow> cur ! v = cur ! v" by simp
        show ?thesis unfolding step by (rule advance[OF lc cu cr fr0 al1 dead])
      qed
    qed
  qed
qed

lemma dc_inv_fields:
  assumes "dc_inv rn0 mf st"
  shows "rn_n (dc_rnetwork st) = rn_n rn0" "arcs_out_span (dc_rnetwork st) = arcs_out_span rn0"
    "rn_source (dc_rnetwork st) = rn_source rn0" "rn_sink (dc_rnetwork st) = rn_sink rn0"
proof -
  have e: "dc_rnetwork st = rn0\<lparr>adjlist := adjlist (dc_rnetwork st)\<rparr>"
    using assms by (simp add: dc_inv_def)
  show "rn_n (dc_rnetwork st) = rn_n rn0" by (subst e) simp
  show "arcs_out_span (dc_rnetwork st) = arcs_out_span rn0" by (subst e) simp
  show "rn_source (dc_rnetwork st) = rn_source rn0" by (subst e) simp
  show "rn_sink (dc_rnetwork st) = rn_sink rn0" by (subst e) simp
qed

lemma dc_inv_static:
  assumes R: "rn_ok rn0" and I: "dc_inv rn0 mf st"
  shows "dc_static st"
proof -
  note F = dc_inv_fields[OF I]
  have po: "pair_ok (adjlist rn0) (adjlist (dc_rnetwork st))"
    using I unfolding dc_inv_def flow_state_ok_def by blast
  then have sh: "same_shape (adjlist rn0) (adjlist (dc_rnetwork st))" by (simp add: pair_ok_def)
  have A: "arena_ok (rn_n rn0) (arcs_out_span rn0) (adjlist rn0)" using R by (simp add: rn_ok_def)
  have "arena_ok (rn_n rn0) (arcs_out_span rn0) (adjlist (dc_rnetwork st))"
    by (rule arena_ok_shape[OF A sh])
  then show ?thesis
    using R I unfolding dc_static_def F by (simp add: rn_ok_def dc_inv_def)
qed

lemma foldl_set_cursors:
  assumes "j \<le> k" "length c = k"
  shows "length (foldl (\<lambda>cur u. cur[u := f u]) c [0..<j]) = k
       \<and> (\<forall>u<j. foldl (\<lambda>cur u. cur[u := f u]) c [0..<j] ! u = f u)"
  using assms(1)
proof (induction j)
  case 0
  then show ?case using assms(2) by simp
next
  case (Suc j)
  then show ?case by (auto simp: nth_list_update)
qed

lemma dc_ranked_alive:
  assumes stat: "dc_static st" and rk: "dc_ranked st"
    and cur: "\<forall>v<rn_n (dc_rnetwork st).
        dc_current_arc st ! v = fst (arcs_out_span (dc_rnetwork st) ! v)"
    and v: "v < rn_n (dc_rnetwork st)" "dc_rank st ! v \<noteq> Unreached"
  shows "dc_alive st v"
  using v
proof (induction "unat (dc_rank st ! v)" arbitrary: v rule: less_induct)
  case less
  let ?rn = "dc_rnetwork st"
  let ?adj = "adjlist ?rn"
  have A: "arena_ok (rn_n ?rn) (arcs_out_span ?rn) ?adj" using stat by (simp add: dc_static_def)
  show ?case
  proof (cases "v = rn_sink ?rn")
    case True
    then show ?thesis using dc_alive.alive_sink[of st] by simp
  next
    case False
    have "dc_parent st v" using rk less.prems False by (simp add: dc_ranked_def)
    then obtain q where q: "q < length ?adj" "arc_tail ?adj q = v"
      "residual_capacity (?adj ! q) \<noteq> 0"
      "dc_rank st ! v = dc_rank st ! rhead (?adj ! q) + 1"
      "dc_rank st ! rhead (?adj ! q) \<noteq> Unreached"
      unfolding dc_parent_def by blast
    note T = arena_twin[OF A q(1)]
    have nz: "dc_rank st ! v \<noteq> 0" using rk less.prems(1) False by (auto simp: dc_ranked_def)
    have "unat (dc_rank st ! v) = unat (dc_rank st ! rhead (?adj ! q)) + 1"
      by (rule rank_pred[OF q(4) nz])
    then have "unat (dc_rank st ! rhead (?adj ! q)) < unat (dc_rank st ! v)" by simp
    from less.hyps[OF this T(5) q(5)] have ah: "dc_alive st (rhead (?adj ! q))" .
    have "q \<in> span_of (arcs_out_span ?rn) v" using T(8) q(2) by simp
    then have "dc_current_arc st ! arc_tail ?adj q \<le> q"
      using cur less.prems(1) q(2) by (simp add: span_of_def)
    from dc_alive.alive_arc[OF q(1) this _ q(3) ah] q(2,4) show ?thesis by simp
  qed
qed

lemma InfiniteFlow_nz: "InfiniteFlow \<noteq> 0"
  by (simp add: InfiniteFlow_def)

lemma dc_phase_loop_spec:
  assumes R: "rn_ok rn0" and I: "dc_inv rn0 mf st" and P: "dc_dfs_pre st"
  shows "\<exists>mf' st'. dc_phase_loop df mf st = Some (mf', st') \<and> dc_inv rn0 mf' st'
       \<and> span_sum (arcs_out_span rn0) (adjlist (dc_rnetwork st')) (rn_source rn0)
           \<le> span_sum (arcs_out_span rn0) (adjlist (dc_rnetwork st)) (rn_source rn0)
       \<and> (df \<noteq> 0 \<and> dc_alive st (rn_source rn0)
            \<longrightarrow> span_sum (arcs_out_span rn0) (adjlist (dc_rnetwork st')) (rn_source rn0)
                < span_sum (arcs_out_span rn0) (adjlist (dc_rnetwork st)) (rn_source rn0))"
  using I P
proof (induction "span_sum (arcs_out_span rn0) (adjlist (dc_rnetwork st)) (rn_source rn0)"
    arbitrary: st df mf rule: less_induct)
  case less
  note I = less.prems(1) and P = less.prems(2)
  let ?k = "rn_n rn0" and ?sp = "arcs_out_span rn0" and ?ini = "adjlist rn0"
  let ?s = "rn_source rn0" and ?t = "rn_sink rn0"
  let ?adj = "adjlist (dc_rnetwork st)"
  note F = dc_inv_fields[OF I]
  have A0: "arena_ok ?k ?sp ?ini" and cb: "caps_bounded ?ini"
    and sk: "?s < ?k" and tk: "?t < ?k" and st: "?s \<noteq> ?t"
    using R by (simp_all add: rn_ok_def)
  show ?case
  proof (cases "df = 0")
    case True
    have "dc_phase_loop df mf st = Some (mf, st)"
      using True by (subst dc_phase_loop.simps) simp
    then show ?thesis using I True by auto
  next
    case False
    have sk': "rn_source (dc_rnetwork st) < rn_n (dc_rnetwork st)" using sk by (simp add: F)
    from dfs_phase_loop_spec[OF P sk', of InfiniteFlow] obtain df1 st1 where
      r1: "dfs_phase_loop (rn_source (dc_rnetwork st)) InfiniteFlow st = Some (df1, st1)"
        "dfs_post st (rn_source (dc_rnetwork st)) InfiniteFlow df1 st1"
      by blast
    define c1 where "c1 = dc_current_arc st1"
    from r1(2) obtain cs where
      p1: "st1 = dc_result st c1 df1 cs" "length c1 = ?k"
        "\<forall>v<?k. fst (?sp ! v) \<le> c1 ! v \<and> c1 ! v \<le> snd (?sp ! v)"
        "df1 = 0 \<longrightarrow> cs = [] \<and> \<not> dc_alive st ?s"
        "df1 \<noteq> 0 \<longrightarrow> back_path ?adj ?t cs ?s \<and> distinct cs
            \<and> (\<forall>b\<in>set cs. df1 \<le> residual_capacity (?adj ! b))"
      unfolding dfs_post_def c1_def F using InfiniteFlow_nz by blast
    have step: "dc_phase_loop df mf st = dc_phase_loop df1 (mf + df1) st1"
      using False r1(1) by (subst dc_phase_loop.simps) simp
    have fs: "flow_state_ok rn0 ?adj (dc_pushes st) mf" using I by (simp add: dc_inv_def)
    have e: "dc_rnetwork st = rn0\<lparr>adjlist := ?adj\<rparr>" using I by (simp add: dc_inv_def)
    show ?thesis
    proof (cases "df1 = 0")
      case True
      have s1: "st1 = st\<lparr>dc_current_arc := c1\<rparr>" using p1(1,4) True by (simp add: dc_result_Nil)
      have "dc_phase_loop df1 (mf + df1) st1 = Some (mf, st1)"
        using True by (subst dc_phase_loop.simps) simp
      moreover have "dc_inv rn0 mf st1"
        using I p1(2) unfolding dc_inv_def s1 by simp
      moreover have "adjlist (dc_rnetwork st1) = ?adj" by (simp add: s1)
      moreover have "\<not> dc_alive st ?s" using p1(4) True by simp
      ultimately show ?thesis unfolding step by auto
    next
      case nz: False
      define ops where "ops = map (\<lambda>a. (a, df1)) cs"
      have po: "pair_ok ?ini ?adj" using fs unfolding flow_state_ok_def by blast
      then have sh: "same_shape ?ini ?adj" by (simp add: pair_ok_def)
      have A: "arena_ok ?k ?sp ?adj" by (rule arena_ok_shape[OF A0 sh])
      have bp: "back_path ?ini ?t cs ?s"
        using back_path_same_shape[OF A same_shape_sym[OF sh]] p1(5) nz by blast
      have dc: "distinct cs" and dle: "\<forall>a\<in>set cs. df1 \<le> residual_capacity (?adj ! a)"
        using p1(5) nz by simp_all
      note AU = augment_ok[OF A0 cb sk tk st fs bp dc dle nz, folded ops_def]
      have f1: "adjlist (dc_rnetwork st1) = apply_pushes ops ?adj"
        "dc_pushes st1 = dc_pushes st @ ops" "dc_rank st1 = dc_rank st"
        "dc_bfs_ordering st1 = dc_bfs_ordering st" "dc_current_arc st1 = c1"
        by (simp_all add: p1(1) dc_result_fields ops_def)
      have e1: "dc_rnetwork st1 = rn0\<lparr>adjlist := apply_pushes ops ?adj\<rparr>"
      proof -
        have "dc_rnetwork st1 = (dc_rnetwork st)\<lparr>adjlist := apply_pushes ops ?adj\<rparr>"
          by (simp add: p1(1) dc_result_def ops_def)
        also have "\<dots> = rn0\<lparr>adjlist := apply_pushes ops ?adj\<rparr>" by (subst e) simp
        finally show ?thesis .
      qed
      have I1: "dc_inv rn0 (mf + df1) st1"
        using AU(1) I p1(2) unfolding dc_inv_def f1 e1 by simp
      have stat1: "dc_static st1" by (rule dc_inv_static[OF R I1])
      note F1 = dc_inv_fields[OF I1]
      have P1: "dc_dfs_pre st1"
        using P p1(3) stat1 unfolding dc_dfs_pre_def F F1 f1 by simp
      have meas: "span_sum ?sp (adjlist (dc_rnetwork st1)) ?s < span_sum ?sp ?adj ?s"
      proof -
        have "unat df1 \<noteq> 0" using nz by (simp add: unat_eq_0)
        then show ?thesis using AU(2) by (simp add: f1)
      qed
      from less.hyps[OF meas I1 P1, of df1] obtain mf' st' where
        r: "dc_phase_loop df1 (mf + df1) st1 = Some (mf', st')" "dc_inv rn0 mf' st'"
          "span_sum ?sp (adjlist (dc_rnetwork st')) ?s
             \<le> span_sum ?sp (adjlist (dc_rnetwork st1)) ?s"
        by blast
      have "span_sum ?sp (adjlist (dc_rnetwork st')) ?s < span_sum ?sp ?adj ?s"
        using r(3) meas by simp
      then show ?thesis unfolding step using r(1,2) by auto
    qed
  qed
qed

lemma reset_current_arc_spec:
  assumes "dc_static st"
  shows "reset_current_arc st = st\<lparr>dc_current_arc := dc_current_arc (reset_current_arc st)\<rparr>"
    "length (dc_current_arc (reset_current_arc st)) = rn_n (dc_rnetwork st)"
    "\<forall>v<rn_n (dc_rnetwork st). dc_current_arc (reset_current_arc st) ! v
        = fst (arcs_out_span (dc_rnetwork st) ! v)"
proof -
  have l: "length (dc_current_arc st) = rn_n (dc_rnetwork st)"
    using assms by (simp add: dc_static_def)
  note C = foldl_set_cursors[OF le_refl l, of "\<lambda>u. fst (arcs_out_span (dc_rnetwork st) ! u)"]
  show "reset_current_arc st = st\<lparr>dc_current_arc := dc_current_arc (reset_current_arc st)\<rparr>"
    by (simp add: reset_current_arc_def)
  show "length (dc_current_arc (reset_current_arc st)) = rn_n (dc_rnetwork st)"
    using C by (simp add: reset_current_arc_def)
  show "\<forall>v<rn_n (dc_rnetwork st). dc_current_arc (reset_current_arc st) ! v
        = fst (arcs_out_span (dc_rnetwork st) ! v)"
    using C by (simp add: reset_current_arc_def)
qed

lemma dc_loop_spec:
  assumes R: "rn_ok rn0" and I: "dc_inv rn0 mf st"
  shows "\<exists>mf' st'. dc_loop mf st = Some (mf', st') \<and> dc_inv rn0 mf' st'
       \<and> saturated_cut (dc_rnetwork st')"
  using I
proof (induction "span_sum (arcs_out_span rn0) (adjlist (dc_rnetwork st)) (rn_source rn0)"
    arbitrary: st mf rule: less_induct)
  case less
  note I = less.prems
  note F = dc_inv_fields[OF I]
  from bfs_compute_rank_spec[OF dc_inv_static[OF R I]] obtain reached st1 where
    b: "bfs_compute_rank st = Some (reached, st1)" and same: "dc_same st st1"
    and stat1: "dc_static st1" and rk: "reached \<longrightarrow> dc_ranked st1"
    and cut: "\<not> reached \<longrightarrow> saturated_cut (dc_rnetwork st1)"
    by blast
  have rn1: "dc_rnetwork st1 = dc_rnetwork st" and pu1: "dc_pushes st1 = dc_pushes st"
    using same by (simp_all add: dc_same_def)
  have I1: "dc_inv rn0 mf st1"
    using I stat1 unfolding dc_inv_def dc_static_def rn1 pu1 F by simp
  show ?case
  proof (cases reached)
    case False
    have "dc_loop mf st = Some (mf, st1)" using b False by (subst dc_loop.simps) simp
    then show ?thesis using I1 cut False by blast
  next
    case True
    define st2 where "st2 = reset_current_arc st1"
    note RS = reset_current_arc_spec[OF stat1, folded st2_def]
    have f2: "dc_rnetwork st2 = dc_rnetwork st" "dc_rank st2 = dc_rank st1"
      "dc_pushes st2 = dc_pushes st" "dc_bfs_ordering st2 = dc_bfs_ordering st1"
      by (subst RS(1), simp add: rn1 pu1)+
    have I2: "dc_inv rn0 mf st2"
      using I1 RS(2) unfolding dc_inv_def f2 rn1 pu1 F by simp
    have stat2: "dc_static st2" by (rule dc_inv_static[OF R I2])
    have ranked2: "dc_ranked st2"
      using rk True unfolding dc_ranked_def dc_parent_def f2 rn1 by simp
    have cur2: "\<forall>v<rn_n (dc_rnetwork st2). dc_current_arc st2 ! v
        = fst (arcs_out_span (dc_rnetwork st2) ! v)"
      using RS(3) by (simp add: f2 rn1)
    have le: "\<forall>v<rn_n rn0. fst (arcs_out_span rn0 ! v) \<le> snd (arcs_out_span rn0 ! v)"
      using R by (simp add: rn_ok_def)
    have P2: "dc_dfs_pre st2"
      unfolding dc_dfs_pre_def using stat2 ranked2 cur2 le
      by (simp add: dc_ranked_def f2 F)
    have sk: "rn_source (dc_rnetwork st2) < rn_n (dc_rnetwork st2)"
      using stat2 by (simp add: dc_static_def)
    have rs: "dc_rank st2 ! rn_source (dc_rnetwork st2) \<noteq> Unreached"
      using ranked2 by (simp add: dc_ranked_def)
    have alive: "dc_alive st2 (rn_source rn0)"
      using dc_ranked_alive[OF stat2 ranked2 cur2 sk rs] by (simp add: f2 F)
    from dc_phase_loop_spec[OF R I2 P2, of InfiniteFlow] alive InfiniteFlow_nz obtain mf3 st3 where
      r3: "dc_phase_loop InfiniteFlow mf st2 = Some (mf3, st3)" "dc_inv rn0 mf3 st3"
        "span_sum (arcs_out_span rn0) (adjlist (dc_rnetwork st3)) (rn_source rn0)
          < span_sum (arcs_out_span rn0) (adjlist (dc_rnetwork st2)) (rn_source rn0)"
      by blast
    have step: "dc_loop mf st = dc_loop mf3 st3"
      using b True r3(1) by (subst dc_loop.simps) (simp add: st2_def)
    have meas: "span_sum (arcs_out_span rn0) (adjlist (dc_rnetwork st3)) (rn_source rn0)
          < span_sum (arcs_out_span rn0) (adjlist (dc_rnetwork st)) (rn_source rn0)"
      using r3(3) by (simp add: f2)
    from less.hyps[OF meas r3(2)] show ?thesis unfolding step .
  qed
qed

lemma pos_lt:
  assumes v: "valid_network network" and i: "i < fn_m network"
  shows "fwd_pos network i < 2 * fn_m network" "bwd_pos network i < 2 * fn_m network"
  using pos_in_span[OF v i] span_subset[OF v valid_network_arc(1)[OF v i]]
    span_subset[OF v valid_network_arc(2)[OF v i]] by auto

lemma pos_cases:
  assumes v: "valid_network network" and p: "p < 2 * fn_m network"
  obtains i where "i < fn_m network" "p = fwd_pos network i"
  | i where "i < fn_m network" "p = bwd_pos network i"
proof -
  have "p \<in> {..<2 * fn_m network}" using p by simp
  then have "p \<in> fwd_pos network ` {..<fn_m network} \<union> bwd_pos network ` {..<fn_m network}"
    by (simp only: pos_cover[OF v])
  then show ?thesis using that by auto
qed

lemma mk_twin_idx:
  assumes v: "valid_network network" and i: "i < fn_m network"
  shows "twin_idx (adjlist (mk_ResidualNetwork network)) (fwd_pos network i) = bwd_pos network i"
    "twin_idx (adjlist (mk_ResidualNetwork network)) (bwd_pos network i) = fwd_pos network i"
  using mk_ResidualNetwork_props(7)[OF v, rule_format, OF i] by (simp_all add: twin_idx_def)

lemma mk_rc:
  assumes v: "valid_network network" and i: "i < fn_m network"
  shows "residual_capacity (adjlist (mk_ResidualNetwork network) ! fwd_pos network i)
      = capacity (fn_arcs network ! i)"
    "residual_capacity (adjlist (mk_ResidualNetwork network) ! bwd_pos network i) = 0"
    "rhead (adjlist (mk_ResidualNetwork network) ! fwd_pos network i) = head (fn_arcs network ! i)"
    "rhead (adjlist (mk_ResidualNetwork network) ! bwd_pos network i) = tail (fn_arcs network ! i)"
  using mk_ResidualNetwork_props(7)[OF v, rule_format, OF i] by simp_all

lemma mk_ResidualNetwork_rn_ok:
  assumes v: "valid_network network"
  shows "rn_ok (mk_ResidualNetwork network)"
proof -
  let ?rn = "mk_ResidualNetwork network"
  note P = mk_ResidualNetwork_props[OF v]
  have A: "arena_ok (rn_n ?rn) (arcs_out_span ?rn) (adjlist ?rn)"
    using mk_ResidualNetwork_arena_ok[OF v] P(1) by simp
  have cb: "caps_bounded (adjlist ?rn)"
    unfolding caps_bounded_def
  proof (intro allI impI)
    fix p assume "p < length (adjlist ?rn)"
    then have p: "p < 2 * fn_m network" using P(6) by simp
    show "unat (residual_capacity (adjlist ?rn ! p))
        + unat (residual_capacity (adjlist ?rn ! twin_idx (adjlist ?rn) p)) < 2 ^ 32"
    proof (rule pos_cases[OF v p])
      fix i assume i: "i < fn_m network" "p = fwd_pos network i"
      then show ?thesis
        using mk_twin_idx[OF v i(1)] mk_rc[OF v i(1)] unat_flow_bound[of "capacity (fn_arcs network ! i)"]
        by simp
    next
      fix i assume i: "i < fn_m network" "p = bwd_pos network i"
      then show ?thesis
        using mk_twin_idx[OF v i(1)] mk_rc[OF v i(1)] unat_flow_bound[of "capacity (fn_arcs network ! i)"]
        by simp
    qed
  qed
  have st: "rn_source ?rn < rn_n ?rn" "rn_sink ?rn < rn_n ?rn" "rn_source ?rn \<noteq> rn_sink ?rn"
    "rn_n ?rn < 2 ^ 32"
    using v P(1,3,4) by (simp_all add: valid_network_def)
  have le: "\<forall>u<rn_n ?rn. fst (arcs_out_span ?rn ! u) \<le> snd (arcs_out_span ?rn ! u)"
    using span_shape(1)[OF v] P(1) by simp
  show ?thesis unfolding rn_ok_def using A cb st le by blast
qed

lemma flow_state_ok_init:
  "flow_state_ok rn0 (adjlist rn0) [] 0"
  by (simp add: flow_state_ok_def pair_ok_refl)

lemma ek_init_inv:
  assumes v: "valid_network network"
  shows "ek_inv (mk_ResidualNetwork network) (ek_init network)"
proof -
  let ?rn = "mk_ResidualNetwork network"
  have "0 < rn_n ?rn" using mk_ResidualNetwork_rn_ok[OF v] by (simp add: rn_ok_def)
  then show ?thesis
    by (simp add: ek_inv_def ek_init_def Let_def flow_state_ok_init)
qed

lemma dc_init_inv:
  assumes v: "valid_network network"
  shows "dc_inv (mk_ResidualNetwork network) 0 (dc_init network)"
proof -
  let ?rn = "mk_ResidualNetwork network"
  have "0 < rn_n ?rn" using mk_ResidualNetwork_rn_ok[OF v] by (simp add: rn_ok_def)
  then show ?thesis
    using mk_ResidualNetwork_props(1)[OF v]
    by (simp add: dc_inv_def dc_init_def Let_def flow_state_ok_init)
qed

lemma edmonds_karp_run_spec:
  assumes v: "valid_network network"
  shows "\<exists>st. edmonds_karp_run network = Some st
       \<and> ek_inv (mk_ResidualNetwork network) st \<and> saturated_cut (ek_rnetwork st)"
  using ek_loop_spec[OF mk_ResidualNetwork_rn_ok[OF v] ek_init_inv[OF v]] ek_cut_saturated
  unfolding edmonds_karp_run_def by blast

lemma dinitz_cherkassky_run_spec:
  assumes v: "valid_network network"
  shows "\<exists>mf st. dinitz_cherkassky_run network = Some (mf, st)
       \<and> dc_inv (mk_ResidualNetwork network) mf st \<and> saturated_cut (dc_rnetwork st)"
  using dc_loop_spec[OF mk_ResidualNetwork_rn_ok[OF v] dc_init_inv[OF v]]
  unfolding dinitz_cherkassky_run_def by blast

lemma sum_list_upt: "sum_list (map f [0..<m]) = (\<Sum>i<m. f i)"
  by (simp add: interv_sum_list_conv_sum_set_nat atLeast0LessThan)

lemma flow_out_sum: "flow_out network g v
    = (\<Sum>i<fn_m network. if tail (fn_arcs network ! i) = v then g ! i else 0)"
  by (simp add: flow_out_def sum_list_upt)

lemma flow_in_sum: "flow_in network g v
    = (\<Sum>i<fn_m network. if head (fn_arcs network ! i) = v then g ! i else 0)"
  by (simp add: flow_in_def sum_list_upt)

lemma span_of_arcs:
  assumes v: "valid_network network" and u: "u < fn_n network"
  shows "span_of (arcs_out_span (mk_ResidualNetwork network)) u
       = fwd_pos network ` {i. i < fn_m network \<and> tail (fn_arcs network ! i) = u}
         \<union> bwd_pos network ` {i. i < fn_m network \<and> head (fn_arcs network ! i) = u}"
    (is "?S = ?F \<union> ?B")
proof
  let ?sp = "arcs_out_span (mk_ResidualNetwork network)"
  show "?F \<union> ?B \<subseteq> ?S" using pos_in_span[OF v] by auto
  show "?S \<subseteq> ?F \<union> ?B"
  proof
    fix p assume p: "p \<in> ?S"
    have pl: "p < 2 * fn_m network" using span_subset[OF v u] p by auto
    show "p \<in> ?F \<union> ?B"
    proof (rule pos_cases[OF v pl])
      fix i assume i: "i < fn_m network" "p = fwd_pos network i"
      note ai = valid_network_arc[OF v i(1)]
      have "tail (fn_arcs network ! i) = u"
      proof (rule ccontr)
        assume "tail (fn_arcs network ! i) \<noteq> u"
        then have "span_of ?sp (tail (fn_arcs network ! i)) \<inter> span_of ?sp u = {}"
          by (rule span_disjoint[OF v ai(1) u])
        then show False using pos_in_span(1)[OF v i(1)] p i(2) by blast
      qed
      then show ?thesis using i by blast
    next
      fix i assume i: "i < fn_m network" "p = bwd_pos network i"
      note ai = valid_network_arc[OF v i(1)]
      have "head (fn_arcs network ! i) = u"
      proof (rule ccontr)
        assume "head (fn_arcs network ! i) \<noteq> u"
        then have "span_of ?sp (head (fn_arcs network ! i)) \<inter> span_of ?sp u = {}"
          by (rule span_disjoint[OF v ai(2) u])
        then show False using pos_in_span(2)[OF v i(1)] p i(2) by blast
      qed
      then show ?thesis using i by blast
    qed
  qed
qed

lemma span_sum_arcs:
  assumes v: "valid_network network" and u: "u < fn_n network"
  shows "span_sum (arcs_out_span (mk_ResidualNetwork network)) adj u
       = (\<Sum>i<fn_m network. if tail (fn_arcs network ! i) = u
             then unat (residual_capacity (adj ! fwd_pos network i)) else 0)
       + (\<Sum>i<fn_m network. if head (fn_arcs network ! i) = u
             then unat (residual_capacity (adj ! bwd_pos network i)) else 0)"
proof -
  let ?g = "\<lambda>p. unat (residual_capacity (adj ! p))"
  let ?Fi = "{i. i < fn_m network \<and> tail (fn_arcs network ! i) = u}"
  let ?Bi = "{i. i < fn_m network \<and> head (fn_arcs network ! i) = u}"
  have fin: "finite ?Fi" "finite ?Bi" by simp_all
  have injF: "inj_on (fwd_pos network) ?Fi"
    using pos_inj(1)[OF v] by (auto simp: inj_on_def)
  have injB: "inj_on (bwd_pos network) ?Bi"
    using pos_inj(2)[OF v] by (auto simp: inj_on_def)
  have disj: "fwd_pos network ` ?Fi \<inter> bwd_pos network ` ?Bi = {}"
    using pos_inj(3)[OF v] by auto
  have "span_sum (arcs_out_span (mk_ResidualNetwork network)) adj u
      = sum ?g (fwd_pos network ` ?Fi \<union> bwd_pos network ` ?Bi)"
    by (simp only: span_sum_def span_of_arcs[OF v u])
  also have "\<dots> = sum ?g (fwd_pos network ` ?Fi) + sum ?g (bwd_pos network ` ?Bi)"
    using fin disj by (intro sum.union_disjoint) simp_all
  also have "sum ?g (fwd_pos network ` ?Fi) = sum (\<lambda>i. ?g (fwd_pos network i)) ?Fi"
    using injF by (simp add: sum.reindex)
  also have "sum ?g (bwd_pos network ` ?Bi) = sum (\<lambda>i. ?g (bwd_pos network i)) ?Bi"
    using injB by (simp add: sum.reindex)
  also have "sum (\<lambda>i. ?g (fwd_pos network i)) ?Fi
      = (\<Sum>i<fn_m network. if tail (fn_arcs network ! i) = u then ?g (fwd_pos network i) else 0)"
  proof -
    have "?Fi = {i \<in> {..<fn_m network}. tail (fn_arcs network ! i) = u}" by auto
    then show ?thesis by (simp only: sum.inter_filter[OF finite_lessThan])
  qed
  also have "sum (\<lambda>i. ?g (bwd_pos network i)) ?Bi
      = (\<Sum>i<fn_m network. if head (fn_arcs network ! i) = u then ?g (bwd_pos network i) else 0)"
  proof -
    have "?Bi = {i \<in> {..<fn_m network}. head (fn_arcs network ! i) = u}" by auto
    then show ?thesis by (simp only: sum.inter_filter[OF finite_lessThan])
  qed
  finally show ?thesis .
qed

lemma pair_ok_arc:
  assumes v: "valid_network network"
    and po: "pair_ok (adjlist (mk_ResidualNetwork network)) adj"
    and i: "i < fn_m network"
  shows "unat (residual_capacity (adj ! fwd_pos network i))
       + unat (residual_capacity (adj ! bwd_pos network i))
       = unat (capacity (fn_arcs network ! i))"
proof -
  have fl: "fwd_pos network i < length (adjlist (mk_ResidualNetwork network))"
    using pos_lt(1)[OF v i] mk_ResidualNetwork_props(6)[OF v] by simp
  from po fl mk_twin_idx(1)[OF v i] mk_rc(1,2)[OF v i] show ?thesis
    unfolding pair_ok_def by auto
qed

lemma arc_flows_nth:
  "i < fn_m network \<Longrightarrow> arc_flows network adj ! i = residual_capacity (adj ! bwd_pos network i)"
  "length (arc_flows network adj) = fn_m network"
  by (simp_all add: arc_flows_def)

lemma span_sum_flow:
  assumes v: "valid_network network"
    and po: "pair_ok (adjlist (mk_ResidualNetwork network)) adj"
    and u: "u < fn_n network"
  defines "sp \<equiv> arcs_out_span (mk_ResidualNetwork network)"
  defines "g \<equiv> map unat (arc_flows network adj)"
  shows "span_sum sp adj u + flow_out network g u
       = span_sum sp (adjlist (mk_ResidualNetwork network)) u + flow_in network g u"
proof -
  let ?m = "fn_m network" and ?as = "fn_arcs network"
  let ?adj0 = "adjlist (mk_ResidualNetwork network)"
  let ?rf = "\<lambda>i. unat (residual_capacity (adj ! fwd_pos network i))"
  let ?rb = "\<lambda>i. unat (residual_capacity (adj ! bwd_pos network i))"
  let ?c = "\<lambda>i. unat (capacity (?as ! i))"
  have gi: "g ! i = ?rb i" if "i < ?m" for i
    using that by (simp add: g_def arc_flows_def)
  have pa: "?rf i + ?rb i = ?c i" if "i < ?m" for i
    by (rule pair_ok_arc[OF v po that])
  have s1: "span_sum sp adj u
      = (\<Sum>i<?m. if tail (?as ! i) = u then ?rf i else 0)
      + (\<Sum>i<?m. if head (?as ! i) = u then ?rb i else 0)"
    unfolding sp_def by (rule span_sum_arcs[OF v u])
  have s0: "span_sum sp ?adj0 u = (\<Sum>i<?m. if tail (?as ! i) = u then ?c i else 0)"
  proof -
    have "span_sum sp ?adj0 u
      = (\<Sum>i<?m. if tail (?as ! i) = u
            then unat (residual_capacity (?adj0 ! fwd_pos network i)) else 0)
      + (\<Sum>i<?m. if head (?as ! i) = u
            then unat (residual_capacity (?adj0 ! bwd_pos network i)) else 0)"
      unfolding sp_def by (rule span_sum_arcs[OF v u])
    also have "(\<Sum>i<?m. if head (?as ! i) = u
            then unat (residual_capacity (?adj0 ! bwd_pos network i)) else 0) = 0"
      using mk_rc(2)[OF v] by simp
    also have "(\<Sum>i<?m. if tail (?as ! i) = u
            then unat (residual_capacity (?adj0 ! fwd_pos network i)) else 0)
        = (\<Sum>i<?m. if tail (?as ! i) = u then ?c i else 0)"
      using mk_rc(1)[OF v] by (intro sum.cong) simp_all
    finally show ?thesis by simp
  qed
  have fo: "flow_out network g u = (\<Sum>i<?m. if tail (?as ! i) = u then ?rb i else 0)"
    unfolding flow_out_sum using gi by (intro sum.cong) simp_all
  have fi: "flow_in network g u = (\<Sum>i<?m. if head (?as ! i) = u then ?rb i else 0)"
    unfolding flow_in_sum using gi by (intro sum.cong) simp_all
  have "(\<Sum>i<?m. if tail (?as ! i) = u then ?rf i else 0)
      + (\<Sum>i<?m. if tail (?as ! i) = u then ?rb i else 0)
      = (\<Sum>i<?m. if tail (?as ! i) = u then ?c i else 0)"
    unfolding sum.distrib[symmetric] using pa by (intro sum.cong) simp_all
  then show ?thesis unfolding s1 s0 fo fi by simp
qed

lemma get_flow_arcs_eq:
  assumes v: "valid_network network"
    and sh: "same_shape (adjlist (mk_ResidualNetwork network)) adj"
  shows "get_flow_arcs network ((mk_ResidualNetwork network)\<lparr>adjlist := adj\<rparr>)
       = arc_flows network adj"
proof -
  let ?ini = "mk_ResidualNetwork network"
  let ?rn = "?ini\<lparr>adjlist := adj\<rparr>"
  let ?as = "fn_arcs network" and ?k = "fn_n network"
  note P = mk_ResidualNetwork_props[OF v]
  note d = valid_network_deg[OF v]
  have ends: "endpoints_below ?k ?as" and m: "fn_m network = length ?as"
    using v by (simp_all add: valid_network_def)
  have tw: "twin_idx adj (fwd_pos network j) = bwd_pos network j" if "j < fn_m network" for j
  proof -
    have "fwd_pos network j < length (adjlist ?ini)" using pos_lt(1)[OF v that] P(6) by simp
    from same_shape_twin_idx[OF sh this] mk_twin_idx(1)[OF v that] show ?thesis by simp
  qed
  have c0: "begin_cursors ?k ?rn = map (offs (net_deg network)) [0..<?k]"
    using begin_cursors_eq[of ?rn ?k] P(1,5) by simp
  have cl: "length (begin_cursors ?k ?rn) = ?k"
    "\<forall>u<?k. begin_cursors ?k ?rn ! u = offs (net_deg network) u"
    by (simp_all add: c0)
  from foldl_extract_step[OF d ends cl, of "length ?as" adj] obtain cur where
    c: "foldl (extract_step adj) ([], begin_cursors ?k ?rn) ?as
         = (map (\<lambda>j. residual_capacity (adj ! twin_idx adj
               (slot (net_deg network) ?as (tail (?as ! j)) j))) [0..<length ?as], cur)"
    by auto
  have "map (\<lambda>j. residual_capacity (adj ! twin_idx adj
               (slot (net_deg network) ?as (tail (?as ! j)) j))) [0..<length ?as]
      = map (\<lambda>j. residual_capacity (adj ! bwd_pos network j)) [0..<length ?as]"
    using tw m by (simp add: fwd_pos_def)
  then show ?thesis using c m by (simp add: get_flow_arcs_def arc_flows_def)
qed

lemma flow_state_is_flow:
  assumes v: "valid_network network"
    and fs: "flow_state_ok (mk_ResidualNetwork network) adj pushes mf"
  defines "g \<equiv> map unat (arc_flows network adj)"
  shows "is_flow network g"
    and "\<forall>i<fn_m network. arc_flows network adj ! i \<le> capacity (fn_arcs network ! i)"
    and "mf = word_of_int (flow_val network g)"
    and "flow_val network g
       = int (flow_in network g (fn_sink network)) - int (flow_out network g (fn_sink network))"
    and "0 \<le> flow_val network g"
proof -
  let ?ini = "mk_ResidualNetwork network"
  let ?sp = "arcs_out_span ?ini" and ?iadj = "adjlist ?ini"
  let ?s = "fn_source network" and ?t = "fn_sink network"
  note P = mk_ResidualNetwork_props[OF v]
  have po: "pair_ok ?iadj adj"
    and cons: "\<forall>u<fn_n network. u \<noteq> ?s \<longrightarrow> u \<noteq> ?t
                \<longrightarrow> span_sum ?sp adj u = span_sum ?sp ?iadj u"
    and sle: "span_sum ?sp adj ?s \<le> span_sum ?sp ?iadj ?s"
    and mf: "mf = of_nat (span_sum ?sp ?iadj ?s - span_sum ?sp adj ?s)"
    and tot: "span_sum ?sp adj ?t + span_sum ?sp adj ?s = span_sum ?sp ?iadj ?t + span_sum ?sp ?iadj ?s"
    using fs unfolding flow_state_ok_def P(1,3,4) by blast+
  have sk: "?s < fn_n network" and tk: "?t < fn_n network"
    using v by (simp_all add: valid_network_def)
  note SF = span_sum_flow[OF v po, folded g_def]
  have cap: "unat (arc_flows network adj ! i) \<le> unat (capacity (fn_arcs network ! i))"
    if "i < fn_m network" for i
    using pair_ok_arc[OF v po that] that by (simp add: arc_flows_def)
  show c2: "\<forall>i<fn_m network. arc_flows network adj ! i \<le> capacity (fn_arcs network ! i)"
    using cap by (simp add: word_le_nat_alt)
  have gi: "g ! i \<le> unat (capacity (fn_arcs network ! i))" if "i < fn_m network" for i
    using cap[OF that] that by (simp add: g_def arc_flows_def)
  have con: "flow_in network g u = flow_out network g u"
    if "u < fn_n network" "u \<noteq> ?s" "u \<noteq> ?t" for u
    using SF[OF that(1)] cons that by simp
  have lg: "length g = fn_m network" by (simp add: g_def arc_flows_def)
  have "\<forall>i\<in>set [0..<fn_m network]. g ! i \<le> unat (capacity (fn_arcs network ! i))"
    using gi by simp
  moreover have "\<forall>u\<in>set [0..<fn_n network]. u = ?s \<or> u = ?t
      \<or> flow_in network g u = flow_out network g u"
    using con by (metis atLeastLessThan_iff set_upt)
  ultimately show "is_flow network g"
    unfolding is_flow_def list_all_iff using lg by blast
  have es: "span_sum ?sp ?iadj ?s - span_sum ?sp adj ?s
      = flow_out network g ?s - flow_in network g ?s"
    and ges: "flow_in network g ?s \<le> flow_out network g ?s"
    using SF[OF sk] sle by simp_all
  have fv: "flow_val network g = int (flow_out network g ?s - flow_in network g ?s)"
    using ges by (simp add: flow_val_def)
  show "mf = word_of_int (flow_val network g)"
    unfolding fv mf es by simp
  show "0 \<le> flow_val network g" unfolding fv by simp
  show "flow_val network g
       = int (flow_in network g ?t) - int (flow_out network g ?t)"
    using SF[OF sk] SF[OF tk] tot sle unfolding flow_val_def by linarith
qed

lemma is_flowD:
  assumes "is_flow network g"
  shows "length g = fn_m network"
    "\<And>i. i < fn_m network \<Longrightarrow> g ! i \<le> unat (capacity (fn_arcs network ! i))"
    "\<And>v. v < fn_n network \<Longrightarrow> v \<noteq> fn_source network \<Longrightarrow> v \<noteq> fn_sink network
        \<Longrightarrow> flow_in network g v = flow_out network g v"
  using assms unfolding is_flow_def list_all_iff by auto

lemma sum_indicator_set:
  fixes c :: int
  assumes "finite D"
  shows "(\<Sum>v\<in>D. if x = v then c else 0) = (if x \<in> D then c else 0)"
  using assms by (simp add: sum.delta')

lemma cut_value:
  assumes fl: "is_flow network g"
    and D: "finite D" "D \<subseteq> {..<fn_n network}" "fn_source network \<in> D" "fn_sink network \<notin> D"
  shows "flow_val network g
       = (\<Sum>i<fn_m network. if tail (fn_arcs network ! i) \<in> D \<and> head (fn_arcs network ! i) \<notin> D
             then int (g ! i) else 0)
       - (\<Sum>i<fn_m network. if tail (fn_arcs network ! i) \<notin> D \<and> head (fn_arcs network ! i) \<in> D
             then int (g ! i) else 0)"
proof -
  let ?m = "fn_m network" and ?s = "fn_source network"
  let ?tl = "\<lambda>i. tail (fn_arcs network ! i)" and ?hd = "\<lambda>i. head (fn_arcs network ! i)"
  define ex where "ex v = int (flow_out network g v) - int (flow_in network g v)" for v
  have z: "ex v = 0" if "v \<in> D - {?s}" for v
  proof -
    have "v < fn_n network" "v \<noteq> ?s" "v \<noteq> fn_sink network" using that D by auto
    then show ?thesis using is_flowD(3)[OF fl] by (simp add: ex_def)
  qed
  have "(\<Sum>v\<in>D. ex v) = ex ?s + (\<Sum>v\<in>D - {?s}. ex v)"
    using D(1,3) by (rule sum.remove)
  also have "(\<Sum>v\<in>D - {?s}. ex v) = 0" using z by simp
  finally have e1: "(\<Sum>v\<in>D. ex v) = flow_val network g" by (simp add: ex_def flow_val_def)
  have o: "(\<Sum>v\<in>D. int (flow_out network g v))
      = (\<Sum>i<?m. if ?tl i \<in> D then int (g ! i) else 0)"
  proof -
    have "(\<Sum>v\<in>D. int (flow_out network g v))
        = (\<Sum>v\<in>D. \<Sum>i<?m. if ?tl i = v then int (g ! i) else 0)"
      unfolding flow_out_sum by (intro sum.cong refl) (simp add: if_distrib[of int] cong: if_cong)
    also have "\<dots> = (\<Sum>i<?m. \<Sum>v\<in>D. if ?tl i = v then int (g ! i) else 0)"
      by (rule sum.swap)
    also have "\<dots> = (\<Sum>i<?m. if ?tl i \<in> D then int (g ! i) else 0)"
      using sum_indicator_set[OF D(1)] by simp
    finally show ?thesis .
  qed
  have i: "(\<Sum>v\<in>D. int (flow_in network g v))
      = (\<Sum>i<?m. if ?hd i \<in> D then int (g ! i) else 0)"
  proof -
    have "(\<Sum>v\<in>D. int (flow_in network g v))
        = (\<Sum>v\<in>D. \<Sum>i<?m. if ?hd i = v then int (g ! i) else 0)"
      unfolding flow_in_sum by (intro sum.cong refl) (simp add: if_distrib[of int] cong: if_cong)
    also have "\<dots> = (\<Sum>i<?m. \<Sum>v\<in>D. if ?hd i = v then int (g ! i) else 0)"
      by (rule sum.swap)
    also have "\<dots> = (\<Sum>i<?m. if ?hd i \<in> D then int (g ! i) else 0)"
      using sum_indicator_set[OF D(1)] by simp
    finally show ?thesis .
  qed
  have "(\<Sum>v\<in>D. ex v) = (\<Sum>v\<in>D. int (flow_out network g v)) - (\<Sum>v\<in>D. int (flow_in network g v))"
    by (simp add: ex_def sum_subtractf)
  also have "\<dots> = (\<Sum>i<?m. (if ?tl i \<in> D then int (g ! i) else 0)
                       - (if ?hd i \<in> D then int (g ! i) else 0))"
    unfolding o i by (simp add: sum_subtractf)
  also have "\<dots> = (\<Sum>i<?m. (if ?tl i \<in> D \<and> ?hd i \<notin> D then int (g ! i) else 0)
                       - (if ?tl i \<notin> D \<and> ?hd i \<in> D then int (g ! i) else 0))"
    by (intro sum.cong refl) simp
  finally show ?thesis using e1 by (simp add: sum_subtractf)
qed

lemma saturated_cut_max:
  assumes v: "valid_network network"
    and fs: "flow_state_ok (mk_ResidualNetwork network) adj pushes mf"
    and cut: "saturated_cut ((mk_ResidualNetwork network)\<lparr>adjlist := adj\<rparr>)"
    and g: "is_flow network g"
  shows "flow_val network g \<le> flow_val network (map unat (arc_flows network adj))"
proof -
  let ?ini = "mk_ResidualNetwork network"
  let ?m = "fn_m network"
  let ?tl = "\<lambda>i. tail (fn_arcs network ! i)" and ?hd = "\<lambda>i. head (fn_arcs network ! i)"
  define f where "f = map unat (arc_flows network adj)"
  note P = mk_ResidualNetwork_props[OF v]
  from cut obtain D where D: "fn_source network \<in> D" "fn_sink network \<notin> D"
    "D \<subseteq> {..<fn_n network}" "res_closed adj D"
    unfolding saturated_cut_def by (auto simp: P(1,3,4))
  have fin: "finite D" using D(3) finite_subset by blast
  have po: "pair_ok (adjlist ?ini) adj" using fs unfolding flow_state_ok_def by blast
  then have sh: "same_shape (adjlist ?ini) adj" by (simp add: pair_ok_def)
  have len: "length adj = 2 * ?m" using sh P(6) by (simp add: same_shape_def)
  have ff: "is_flow network f" unfolding f_def by (rule flow_state_is_flow(1)[OF v fs])
  have shp: "rhead (adj ! p) = rhead (adjlist ?ini ! p)" "twin_idx adj p = twin_idx (adjlist ?ini) p"
    if "p < 2 * ?m" for p
    using sh that P(6) by (simp_all add: same_shape_def twin_idx_def)
  have fwd0: "residual_capacity (adj ! fwd_pos network i) = 0"
    if i: "i < ?m" "?tl i \<in> D" "?hd i \<notin> D" for i
  proof (rule ccontr)
    assume nz: "residual_capacity (adj ! fwd_pos network i) \<noteq> 0"
    note L = pos_lt[OF v i(1)]
    have "arc_tail adj (fwd_pos network i) = ?tl i"
      using shp[OF L(1)] shp(1)[OF L(2)] mk_twin_idx(1)[OF v i(1)] mk_rc(4)[OF v i(1)]
      by (simp add: arc_tail_def)
    moreover have "rhead (adj ! fwd_pos network i) = ?hd i"
      using shp(1)[OF L(1)] mk_rc(3)[OF v i(1)] by simp
    ultimately show False using D(4) L(1) len nz i(2,3) unfolding res_closed_def by metis
  qed
  have bwd0: "residual_capacity (adj ! bwd_pos network i) = 0"
    if i: "i < ?m" "?tl i \<notin> D" "?hd i \<in> D" for i
  proof (rule ccontr)
    assume nz: "residual_capacity (adj ! bwd_pos network i) \<noteq> 0"
    note L = pos_lt[OF v i(1)]
    have "arc_tail adj (bwd_pos network i) = ?hd i"
      using shp[OF L(2)] shp(1)[OF L(1)] mk_twin_idx(2)[OF v i(1)] mk_rc(3)[OF v i(1)]
      by (simp add: arc_tail_def)
    moreover have "rhead (adj ! bwd_pos network i) = ?tl i"
      using shp(1)[OF L(2)] mk_rc(4)[OF v i(1)] by simp
    ultimately show False using D(4) L(2) len nz i(2,3) unfolding res_closed_def by metis
  qed
  have fi: "f ! i = unat (residual_capacity (adj ! bwd_pos network i))" if "i < ?m" for i
    using that by (simp add: f_def arc_flows_def)
  have full: "f ! i = unat (capacity (fn_arcs network ! i))"
    if i: "i < ?m" "?tl i \<in> D" "?hd i \<notin> D" for i
    using pair_ok_arc[OF v po i(1)] fwd0[OF i] fi[OF i(1)] by simp
  have empty: "f ! i = 0" if i: "i < ?m" "?tl i \<notin> D" "?hd i \<in> D" for i
    using bwd0[OF i] fi[OF i(1)] by simp
  have a1: "(\<Sum>i<?m. if ?tl i \<in> D \<and> ?hd i \<notin> D then int (g ! i) else 0)
      \<le> (\<Sum>i<?m. if ?tl i \<in> D \<and> ?hd i \<notin> D then int (f ! i) else 0)"
  proof (rule sum_mono)
    fix i assume "i \<in> {..<?m}"
    then have i: "i < ?m" by simp
    show "(if ?tl i \<in> D \<and> ?hd i \<notin> D then int (g ! i) else 0)
        \<le> (if ?tl i \<in> D \<and> ?hd i \<notin> D then int (f ! i) else 0)"
    proof (cases "?tl i \<in> D \<and> ?hd i \<notin> D")
      case True
      then have "g ! i \<le> f ! i" using is_flowD(2)[OF g i] full[OF i] by simp
      then show ?thesis using True by simp
    next
      case False
      then show ?thesis by auto
    qed
  qed
  have a2: "(\<Sum>i<?m. if ?tl i \<notin> D \<and> ?hd i \<in> D then int (f ! i) else 0) = 0"
    using empty by (intro sum.neutral) auto
  have a3: "0 \<le> (\<Sum>i<?m. if ?tl i \<notin> D \<and> ?hd i \<in> D then int (g ! i) else 0)"
    by (intro sum_nonneg) simp
  show ?thesis
    unfolding f_def[symmetric] cut_value[OF g fin D(3,1,2)] cut_value[OF ff fin D(3,1,2)]
    using a1 a2 a3 by linarith
qed

lemma valid_pushes_nth:
  assumes "valid_pushes ops adj" "j < length ops"
  shows "fst (ops ! j) < length (apply_pushes (take j ops) adj)
       \<and> snd (ops ! j) \<le> residual_capacity (apply_pushes (take j ops) adj ! fst (ops ! j))"
  using assms
proof (induction ops arbitrary: adj j)
  case Nil
  then show ?case by simp
next
  case (Cons x xs)
  show ?case
  proof (cases j)
    case 0
    then show ?thesis using Cons.prems by simp
  next
    case (Suc i)
    then show ?thesis using Cons.prems Cons.IH[of "push_flow (fst x) (snd x) adj" i] by simp
  qed
qed

lemma valid_pushes_take:
  assumes "valid_pushes ops adj"
  shows "valid_pushes (take j ops) adj"
proof -
  have "valid_pushes (take j ops @ drop j ops) adj" using assms by simp
  then show ?thesis unfolding valid_pushes_append by blast
qed

lemma pushes_pair_invariant:
  assumes v: "valid_network network"
    and vp: "valid_pushes ops (adjlist (mk_ResidualNetwork network))"
    and i: "i < fn_m network"
  shows "unat (residual_capacity (apply_pushes (take j ops)
            (adjlist (mk_ResidualNetwork network)) ! fwd_pos network i))
       + unat (residual_capacity (apply_pushes (take j ops)
            (adjlist (mk_ResidualNetwork network)) ! bwd_pos network i))
       = unat (capacity (fn_arcs network ! i))"
proof -
  let ?ini = "adjlist (mk_ResidualNetwork network)"
  note P = mk_ResidualNetwork_props[OF v]
  have A: "arena_ok (fn_n network) (arcs_out_span (mk_ResidualNetwork network)) ?ini"
    by (rule mk_ResidualNetwork_arena_ok[OF v])
  have fl: "fwd_pos network i < length ?ini" using pos_lt(1)[OF v i] P(6) by simp
  have b: "unat (residual_capacity (?ini ! fwd_pos network i))
      + unat (residual_capacity (?ini ! twin_idx ?ini (fwd_pos network i))) < 2 ^ 32"
    using mk_twin_idx(1)[OF v i] mk_rc(1,2)[OF v i]
      unat_flow_bound[of "capacity (fn_arcs network ! i)"] by simp
  from valid_pushes_pair[OF A valid_pushes_take[OF vp] fl b, of j]
  show ?thesis
    using mk_twin_idx(1)[OF v i] mk_rc(1,2)[OF v i] by simp
qed

lemma pushes_range:
  assumes v: "valid_network network"
    and vp: "valid_pushes ops (adjlist (mk_ResidualNetwork network))"
    and q: "q < 2 * fn_m network"
  defines "ini \<equiv> adjlist (mk_ResidualNetwork network)"
  shows "unat (residual_capacity (apply_pushes (take j ops) ini ! q)) + pushed_on q (take j ops)
       = unat (residual_capacity (ini ! q)) + pushed_on (twin_idx ini q) (take j ops)"
proof -
  note P = mk_ResidualNetwork_props[OF v]
  have A: "arena_ok (fn_n network) (arcs_out_span (mk_ResidualNetwork network)) ini"
    unfolding ini_def by (rule mk_ResidualNetwork_arena_ok[OF v])
  have ql: "q < length ini" using q P(6) by (simp add: ini_def)
  note T = arena_twin[OF A ql]
  have cb: "caps_bounded ini"
    using mk_ResidualNetwork_rn_ok[OF v] by (simp add: rn_ok_def ini_def)
  have b: "unat (residual_capacity (ini ! twin_idx ini q))
      + unat (residual_capacity (ini ! twin_idx ini (twin_idx ini q))) < 2 ^ 32"
    using cb T(1) by (simp add: caps_bounded_def)
  from valid_pushes_pair[OF A valid_pushes_take[OF vp[folded ini_def]] T(1) b, of j]
  show ?thesis unfolding T(3) by linarith
qed

lemma saturated_cut_no_path:
  assumes "saturated_cut rn"
  shows "\<not> res_path (adjlist rn) (rn_source rn) ps (rn_sink rn)"
proof
  assume p: "res_path (adjlist rn) (rn_source rn) ps (rn_sink rn)"
  from assms obtain D where D: "rn_source rn \<in> D" "rn_sink rn \<notin> D" "res_closed (adjlist rn) D"
    unfolding saturated_cut_def by blast
  from res_closed_path[OF D(3) p D(1)] D(2) show False by simp
qed

lemma edmonds_karp_result:
  assumes v: "valid_network network"
  defines "ini \<equiv> mk_ResidualNetwork network"
  shows "\<exists>st. edmonds_karp_run network = Some st
      \<and> edmonds_karp network = Some \<lparr>flow_value = ek_maxflow st,
            flow_arcs = arc_flows network (adjlist (ek_rnetwork st))\<rparr>
      \<and> ek_rnetwork st = ini\<lparr>adjlist := adjlist (ek_rnetwork st)\<rparr>
      \<and> flow_state_ok ini (adjlist (ek_rnetwork st)) (ek_pushes st) (ek_maxflow st)
      \<and> saturated_cut (ek_rnetwork st)"
proof -
  from edmonds_karp_run_spec[OF v] obtain st where
    r: "edmonds_karp_run network = Some st" "ek_inv ini st" "saturated_cut (ek_rnetwork st)"
    unfolding ini_def by blast
  have e: "ek_rnetwork st = ini\<lparr>adjlist := adjlist (ek_rnetwork st)\<rparr>"
    and fs: "flow_state_ok ini (adjlist (ek_rnetwork st)) (ek_pushes st) (ek_maxflow st)"
    using r(2) by (simp_all add: ek_inv_def)
  have sh: "same_shape (adjlist ini) (adjlist (ek_rnetwork st))"
    using fs unfolding flow_state_ok_def pair_ok_def by blast
  have "get_flow_arcs network (ek_rnetwork st) = arc_flows network (adjlist (ek_rnetwork st))"
    by (subst e) (rule get_flow_arcs_eq[OF v sh[unfolded ini_def], folded ini_def])
  then have "edmonds_karp network = Some \<lparr>flow_value = ek_maxflow st,
            flow_arcs = arc_flows network (adjlist (ek_rnetwork st))\<rparr>"
    using r(1) by (simp add: edmonds_karp_def)
  then show ?thesis using r(1,3) e fs by blast
qed

lemma dinitz_cherkassky_result:
  assumes v: "valid_network network"
  defines "ini \<equiv> mk_ResidualNetwork network"
  shows "\<exists>mf st. dinitz_cherkassky_run network = Some (mf, st)
      \<and> dinitz_cherkassky network = Some \<lparr>flow_value = mf,
            flow_arcs = arc_flows network (adjlist (dc_rnetwork st))\<rparr>
      \<and> dc_rnetwork st = ini\<lparr>adjlist := adjlist (dc_rnetwork st)\<rparr>
      \<and> flow_state_ok ini (adjlist (dc_rnetwork st)) (dc_pushes st) mf
      \<and> saturated_cut (dc_rnetwork st)"
proof -
  from dinitz_cherkassky_run_spec[OF v] obtain mf st where
    r: "dinitz_cherkassky_run network = Some (mf, st)" "dc_inv ini mf st"
      "saturated_cut (dc_rnetwork st)"
    unfolding ini_def by blast
  have e: "dc_rnetwork st = ini\<lparr>adjlist := adjlist (dc_rnetwork st)\<rparr>"
    and fs: "flow_state_ok ini (adjlist (dc_rnetwork st)) (dc_pushes st) mf"
    using r(2) by (simp_all add: dc_inv_def)
  have sh: "same_shape (adjlist ini) (adjlist (dc_rnetwork st))"
    using fs unfolding flow_state_ok_def pair_ok_def by blast
  have "get_flow_arcs network (dc_rnetwork st) = arc_flows network (adjlist (dc_rnetwork st))"
    by (subst e) (rule get_flow_arcs_eq[OF v sh[unfolded ini_def], folded ini_def])
  then have "dinitz_cherkassky network = Some \<lparr>flow_value = mf,
            flow_arcs = arc_flows network (adjlist (dc_rnetwork st))\<rparr>"
    using r(1) by (simp add: dinitz_cherkassky_def)
  then show ?thesis using r(1,3) e fs by blast
qed

lemma max_flow_resultI:
  assumes v: "valid_network network"
    and fs: "flow_state_ok (mk_ResidualNetwork network) adj pushes mf"
    and cut: "saturated_cut ((mk_ResidualNetwork network)\<lparr>adjlist := adj\<rparr>)"
  shows "max_flow_result network \<lparr>flow_value = mf, flow_arcs = arc_flows network adj\<rparr>"
  unfolding max_flow_result_def
  using flow_state_is_flow(1,3,4,5)[OF v fs] saturated_cut_max[OF v fs cut]
  by (simp add: arc_flows_nth(2))

lemma solvers_max_flow:
  assumes v: "valid_network network"
  shows "\<exists>fe fd. edmonds_karp network = Some fe \<and> dinitz_cherkassky network = Some fd
       \<and> max_flow_result network fe \<and> max_flow_result network fd"
proof -
  from edmonds_karp_result[OF v] obtain st where
    E: "edmonds_karp_run network = Some st
      \<and> edmonds_karp network = Some \<lparr>flow_value = ek_maxflow st,
            flow_arcs = arc_flows network (adjlist (ek_rnetwork st))\<rparr>
      \<and> ek_rnetwork st = (mk_ResidualNetwork network)\<lparr>adjlist := adjlist (ek_rnetwork st)\<rparr>
      \<and> flow_state_ok (mk_ResidualNetwork network) (adjlist (ek_rnetwork st)) (ek_pushes st)
         (ek_maxflow st)
      \<and> saturated_cut (ek_rnetwork st)" ..
  note e1 = E[THEN conjunct2, THEN conjunct1]
  note e2 = E[THEN conjunct2, THEN conjunct2, THEN conjunct1]
  note e3 = E[THEN conjunct2, THEN conjunct2, THEN conjunct2, THEN conjunct1]
  note e4 = E[THEN conjunct2, THEN conjunct2, THEN conjunct2, THEN conjunct2]
  from dinitz_cherkassky_result[OF v] obtain mf sd where
    D: "dinitz_cherkassky_run network = Some (mf, sd)
      \<and> dinitz_cherkassky network = Some \<lparr>flow_value = mf,
            flow_arcs = arc_flows network (adjlist (dc_rnetwork sd))\<rparr>
      \<and> dc_rnetwork sd = (mk_ResidualNetwork network)\<lparr>adjlist := adjlist (dc_rnetwork sd)\<rparr>
      \<and> flow_state_ok (mk_ResidualNetwork network) (adjlist (dc_rnetwork sd)) (dc_pushes sd) mf
      \<and> saturated_cut (dc_rnetwork sd)" by (elim exE)
  note d1 = D[THEN conjunct2, THEN conjunct1]
  note d2 = D[THEN conjunct2, THEN conjunct2, THEN conjunct1]
  note d3 = D[THEN conjunct2, THEN conjunct2, THEN conjunct2, THEN conjunct1]
  note d4 = D[THEN conjunct2, THEN conjunct2, THEN conjunct2, THEN conjunct2]
  have ce: "saturated_cut ((mk_ResidualNetwork network)\<lparr>adjlist := adjlist (ek_rnetwork st)\<rparr>)"
    using e4 by (subst (asm) e2) simp
  have cd: "saturated_cut ((mk_ResidualNetwork network)\<lparr>adjlist := adjlist (dc_rnetwork sd)\<rparr>)"
    using d4 by (subst (asm) d2) simp
  note me = max_flow_resultI[OF v e3 ce]
  note md = max_flow_resultI[OF v d3 cd]
  show ?thesis using e1 d1 me md by (intro exI conjI)
qed

lemma solver_runs:
  assumes v: "valid_network network"
  shows "\<exists>se mf sd. edmonds_karp_run network = Some se
       \<and> dinitz_cherkassky_run network = Some (mf, sd)
       \<and> run_ok network (ek_rnetwork se) (ek_pushes se) (ek_maxflow se)
       \<and> run_ok network (dc_rnetwork sd) (dc_pushes sd) mf"
proof -
  let ?ini = "mk_ResidualNetwork network"
  from edmonds_karp_run_spec[OF v] obtain se where
    E: "edmonds_karp_run network = Some se \<and> ek_inv ?ini se \<and> saturated_cut (ek_rnetwork se)" ..
  from dinitz_cherkassky_run_spec[OF v] obtain mf sd where
    D: "dinitz_cherkassky_run network = Some (mf, sd) \<and> dc_inv ?ini mf sd
        \<and> saturated_cut (dc_rnetwork sd)" by (elim exE)
  have ee: "ek_rnetwork se = ?ini\<lparr>adjlist := adjlist (ek_rnetwork se)\<rparr>"
    and ef: "flow_state_ok ?ini (adjlist (ek_rnetwork se)) (ek_pushes se) (ek_maxflow se)"
    using E by (simp_all add: ek_inv_def)
  have de: "dc_rnetwork sd = ?ini\<lparr>adjlist := adjlist (dc_rnetwork sd)\<rparr>"
    and df: "flow_state_ok ?ini (adjlist (dc_rnetwork sd)) (dc_pushes sd) mf"
    using D by (simp_all add: dc_inv_def)
  have es: "same_shape (adjlist ?ini) (adjlist (ek_rnetwork se))"
    using ef unfolding flow_state_ok_def pair_ok_def by blast
  have ds: "same_shape (adjlist ?ini) (adjlist (dc_rnetwork sd))"
    using df unfolding flow_state_ok_def pair_ok_def by blast
  have eg: "get_flow_arcs network (ek_rnetwork se) = arc_flows network (adjlist (ek_rnetwork se))"
    by (subst ee) (rule get_flow_arcs_eq[OF v es])
  have dg: "get_flow_arcs network (dc_rnetwork sd) = arc_flows network (adjlist (dc_rnetwork sd))"
    by (subst de) (rule get_flow_arcs_eq[OF v ds])
  have re: "run_ok network (ek_rnetwork se) (ek_pushes se) (ek_maxflow se)"
    unfolding run_ok_def using ee ef E[THEN conjunct2, THEN conjunct2] eg by (intro conjI)
  have rd: "run_ok network (dc_rnetwork sd) (dc_pushes sd) mf"
    unfolding run_ok_def using de df D[THEN conjunct2, THEN conjunct2] dg by (intro conjI)
  show ?thesis using E[THEN conjunct1] D[THEN conjunct1] re rd by (intro exI conjI)
qed

lemma run_ok_flow:
  assumes v: "valid_network network" and r: "run_ok network rn pushes mf"
  shows "max_flow_result network \<lparr>flow_value = mf, flow_arcs = get_flow_arcs network rn\<rparr>"
proof -
  have e: "rn = (mk_ResidualNetwork network)\<lparr>adjlist := adjlist rn\<rparr>"
    and f: "flow_state_ok (mk_ResidualNetwork network) (adjlist rn) pushes mf"
    and c: "saturated_cut rn"
    and g: "get_flow_arcs network rn = arc_flows network (adjlist rn)"
    using r unfolding run_ok_def by blast+
  have c': "saturated_cut ((mk_ResidualNetwork network)\<lparr>adjlist := adjlist rn\<rparr>)"
    using c by (subst (asm) e) simp
  show ?thesis unfolding g by (rule max_flow_resultI[OF v f c'])
qed

lemma run_ok_no_path:
  assumes v: "valid_network network" and r: "run_ok network rn pushes mf"
  shows "\<not> res_path (adjlist rn) (fn_source network) ps (fn_sink network)"
proof -
  have e: "rn = (mk_ResidualNetwork network)\<lparr>adjlist := adjlist rn\<rparr>"
    and c: "saturated_cut rn"
    using r unfolding run_ok_def by blast+
  have "rn_source rn = rn_source (mk_ResidualNetwork network)"
    "rn_sink rn = rn_sink (mk_ResidualNetwork network)"
    by (subst e, simp)+
  then have s: "rn_source rn = fn_source network" "rn_sink rn = fn_sink network"
    using mk_ResidualNetwork_props(3,4)[OF v] by simp_all
  from saturated_cut_no_path[OF c, of ps] show ?thesis unfolding s .
qed

lemma run_ok_log:
  assumes r: "run_ok network rn pushes mf"
  shows "valid_pushes pushes (adjlist (mk_ResidualNetwork network))"
    and "adjlist rn = apply_pushes pushes (adjlist (mk_ResidualNetwork network))"
    and "\<forall>x\<in>set pushes. snd x \<noteq> 0"
proof -
  have f: "flow_state_ok (mk_ResidualNetwork network) (adjlist rn) pushes mf"
    using r unfolding run_ok_def by blast
  show "valid_pushes pushes (adjlist (mk_ResidualNetwork network))"
    and "adjlist rn = apply_pushes pushes (adjlist (mk_ResidualNetwork network))"
    and "\<forall>x\<in>set pushes. snd x \<noteq> 0"
    using f unfolding flow_state_ok_def by blast+
qed

lemma run_ok_pair_sum:
  assumes v: "valid_network network" and r: "run_ok network rn pushes mf"
    and i: "i < fn_m network"
  shows "pair_sum network (apply_pushes (take j pushes) (adjlist (mk_ResidualNetwork network))) i
       = unat (capacity (fn_arcs network ! i))"
  unfolding pair_sum_def by (rule pushes_pair_invariant[OF v run_ok_log(1)[OF r] i])

lemma apply_pushes_length:
  "valid_pushes ops adj \<Longrightarrow> arena_ok k sp adj \<Longrightarrow> length (apply_pushes ops adj) = length adj"
  using valid_pushes_shape[of k sp adj ops] by (simp add: same_shape_def)

lemma run_ok_safe:
  assumes v: "valid_network network" and r: "run_ok network rn pushes mf"
  shows "pushes_safe network pushes"
proof -
  let ?ini = "adjlist (mk_ResidualNetwork network)"
  note L = run_ok_log[OF r]
  note P = mk_ResidualNetwork_props[OF v]
  have A: "arena_ok (fn_n network) (arcs_out_span (mk_ResidualNetwork network)) ?ini"
    by (rule mk_ResidualNetwork_arena_ok[OF v])
  have a: "\<forall>j<length pushes.
            fst (pushes ! j) < length ?ini
            \<and> 0 < snd (pushes ! j)
            \<and> snd (pushes ! j) \<le> residual_capacity (apply_pushes (take j pushes) ?ini ! fst (pushes ! j))"
  proof (intro allI impI)
    fix j assume j: "j < length pushes"
    note N = valid_pushes_nth[OF L(1) j]
    have "length (apply_pushes (take j pushes) ?ini) = length ?ini"
      by (rule apply_pushes_length[OF valid_pushes_take[OF L(1)] A])
    then have 1: "fst (pushes ! j) < length ?ini" using N by simp
    have "snd (pushes ! j) \<noteq> 0" using L(3) j by simp
    then have 2: "0 < snd (pushes ! j)" by (simp add: word_neq_0_conv)
    show "fst (pushes ! j) < length ?ini
            \<and> 0 < snd (pushes ! j)
            \<and> snd (pushes ! j) \<le> residual_capacity (apply_pushes (take j pushes) ?ini ! fst (pushes ! j))"
      using 1 2 N[THEN conjunct2] by (intro conjI)
  qed
  have b: "\<forall>j\<le>length pushes. \<forall>q<length ?ini.
      unat (residual_capacity (apply_pushes (take j pushes) ?ini ! q)) + pushed_on q (take j pushes)
      = unat (residual_capacity (?ini ! q)) + pushed_on (twin_idx ?ini q) (take j pushes)"
  proof (intro allI impI)
    fix j q assume q: "q < length ?ini"
    then have q': "q < 2 * fn_m network" using P(6) by simp
    show "unat (residual_capacity (apply_pushes (take j pushes) ?ini ! q)) + pushed_on q (take j pushes)
      = unat (residual_capacity (?ini ! q)) + pushed_on (twin_idx ?ini q) (take j pushes)"
      by (rule pushes_range[OF v L(1) q'])
  qed
  show ?thesis unfolding pushes_safe_def Let_def using a b by (rule conjI)
qed

lemma max_flow_result_value:
  assumes "max_flow_result network f"
  shows "max_flow_value network (flow_val network (map unat (flow_arcs f)))"
    and "flow_value f = word_of_int (flow_val network (map unat (flow_arcs f)))"
  using assms unfolding max_flow_result_def max_flow_value_def by blast+

lemma max_flow_value_unique:
  assumes "max_flow_value network k" "max_flow_value network k'"
  shows "k = k'"
proof -
  from assms(1) obtain g where g: "is_flow network g" "flow_val network g = k"
    and m: "\<forall>h. is_flow network h \<longrightarrow> flow_val network h \<le> k"
    unfolding max_flow_value_def by blast
  from assms(2) obtain g' where g': "is_flow network g'" "flow_val network g' = k'"
    and m': "\<forall>h. is_flow network h \<longrightarrow> flow_val network h \<le> k'"
    unfolding max_flow_value_def by blast
  have "k \<le> k'" using m' g by blast
  moreover have "k' \<le> k" using m g' by blast
  ultimately show ?thesis by simp
qed

lemma uint_flow_value:
  fixes w :: flow_t
  assumes "w = word_of_int k" "0 \<le> k"
  shows "uint w = k mod 2 ^ 32" "k < 2 ^ 32 \<Longrightarrow> uint w = k"
  using assms by (simp_all add: uint_word_of_int_eq take_bit_eq_mod)

lemma valid_overflow_example: "valid_network overflow_example"
  by (simp add: valid_network_def overflow_example_def endpoints_below_def no_self_loops_def)

lemma valid_overflow_zero_example: "valid_network overflow_zero_example"
  by (simp add: valid_network_def overflow_zero_example_def endpoints_below_def no_self_loops_def)

text \<open>
  Claim C8. On every valid network both solvers return: the augmentation loop of
  \<^verbatim>\<open>edmonds_karp\<close> and, in \<^verbatim>\<open>DinitzCherkassky\<close>, the phase loop, the loop of saturating
  searches of a phase and each search \<^verbatim>\<open>dfs_phase_loop\<close> end after finitely many steps. In the
  model every loop is a partial function and \<open>None\<close> stands for a run that does not return.
\<close>

theorem solvers_terminate:
  assumes "valid_network network"
  shows "(\<exists>f. edmonds_karp network = Some f) \<and> (\<exists>f. dinitz_cherkassky network = Some f)"
proof -
  from solvers_max_flow[OF assms] obtain fe fd where
    S: "edmonds_karp network = Some fe \<and> dinitz_cherkassky network = Some fd
       \<and> max_flow_result network fe \<and> max_flow_result network fd" by (elim exE)
  show ?thesis using S[THEN conjunct1] S[THEN conjunct2, THEN conjunct1] by (intro conjI exI)
qed

theorem solvers_terminate_witness:
  "valid_network minimal_example
   \<and> (\<exists>f. edmonds_karp minimal_example = Some f)
   \<and> (\<exists>f. dinitz_cherkassky minimal_example = Some f)"
proof -
  note T = solvers_terminate[OF valid_minimal_example]
  show ?thesis using valid_minimal_example T[THEN conjunct1] T[THEN conjunct2] by (intro conjI)
qed

text \<open>
  Claim C2. On every valid network the \<^verbatim>\<open>Flow\<close> returned by either solver has one entry per
  arc, and the entry of arc \<open>i\<close> is between 0 and the capacity of arc \<open>i\<close> (as unsigned 32-bit
  numbers).
\<close>

theorem solvers_capacity_bound:
  assumes "valid_network network" and "i < fn_m network"
  shows "\<exists>fe fd. edmonds_karp network = Some fe \<and> dinitz_cherkassky network = Some fd
      \<and> length (flow_arcs fe) = fn_m network \<and> length (flow_arcs fd) = fn_m network
      \<and> 0 \<le> flow_arcs fe ! i \<and> flow_arcs fe ! i \<le> capacity (fn_arcs network ! i)
      \<and> 0 \<le> flow_arcs fd ! i \<and> flow_arcs fd ! i \<le> capacity (fn_arcs network ! i)"
proof -
  from solvers_max_flow[OF assms(1)] obtain fe fd where
    S: "edmonds_karp network = Some fe \<and> dinitz_cherkassky network = Some fd
       \<and> max_flow_result network fe \<and> max_flow_result network fd" by (elim exE)
  have bound: "length (flow_arcs f) = fn_m network
      \<and> 0 \<le> flow_arcs f ! i \<and> flow_arcs f ! i \<le> capacity (fn_arcs network ! i)"
    if m: "max_flow_result network f" for f
  proof -
    have l: "length (flow_arcs f) = fn_m network"
      and fl: "is_flow network (map unat (flow_arcs f))"
      using m unfolding max_flow_result_def by blast+
    have "map unat (flow_arcs f) ! i \<le> unat (capacity (fn_arcs network ! i))"
      by (rule is_flowD(2)[OF fl assms(2)])
    then have "flow_arcs f ! i \<le> capacity (fn_arcs network ! i)"
      using l assms(2) by (simp add: word_le_nat_alt)
    then show ?thesis using l by simp
  qed
  note be = bound[OF S[THEN conjunct2, THEN conjunct2, THEN conjunct1]]
  note bd = bound[OF S[THEN conjunct2, THEN conjunct2, THEN conjunct2]]
  show ?thesis
    using S[THEN conjunct1] S[THEN conjunct2, THEN conjunct1]
      be[THEN conjunct1] bd[THEN conjunct1]
      be[THEN conjunct2, THEN conjunct1] be[THEN conjunct2, THEN conjunct2]
      bd[THEN conjunct2, THEN conjunct1] bd[THEN conjunct2, THEN conjunct2]
    by (intro exI conjI)
qed

theorem solvers_capacity_bound_witness:
  "valid_network minimal_example \<and> 4 < fn_m minimal_example
   \<and> capacity (fn_arcs minimal_example ! 4) = 8
   \<and> (\<exists>fe fd. edmonds_karp minimal_example = Some fe
        \<and> dinitz_cherkassky minimal_example = Some fd
        \<and> flow_arcs fe ! 4 \<le> 8 \<and> flow_arcs fd ! 4 \<le> 8)"
proof -
  have i: "4 < fn_m minimal_example" and c: "capacity (fn_arcs minimal_example ! 4) = 8"
    by (simp_all add: minimal_example_def)
  from solvers_capacity_bound[OF valid_minimal_example i, unfolded c] obtain fe fd where
    S: "edmonds_karp minimal_example = Some fe \<and> dinitz_cherkassky minimal_example = Some fd
      \<and> length (flow_arcs fe) = fn_m minimal_example
      \<and> length (flow_arcs fd) = fn_m minimal_example
      \<and> 0 \<le> flow_arcs fe ! 4 \<and> flow_arcs fe ! 4 \<le> 8
      \<and> 0 \<le> flow_arcs fd ! 4 \<and> flow_arcs fd ! 4 \<le> 8" by (elim exE)
  have "\<exists>fe fd. edmonds_karp minimal_example = Some fe
        \<and> dinitz_cherkassky minimal_example = Some fd
        \<and> flow_arcs fe ! 4 \<le> 8 \<and> flow_arcs fd ! 4 \<le> 8"
    using S by (intro exI[of _ fe] exI[of _ fd]) simp
  then show ?thesis using valid_minimal_example i c by (intro conjI)
qed

text \<open>
  Claim C3. On every valid network the \<open>flow_arcs\<close> returned by either solver are conserved at
  every vertex other than the source and the sink: the entries of the arcs entering the vertex
  and the entries of the arcs leaving it have the same sum.
\<close>

theorem solvers_conservation:
  assumes "valid_network network" and "v < fn_n network"
    and "v \<noteq> fn_source network" and "v \<noteq> fn_sink network"
  shows "\<exists>fe fd. edmonds_karp network = Some fe \<and> dinitz_cherkassky network = Some fd
      \<and> flow_in network (map unat (flow_arcs fe)) v = flow_out network (map unat (flow_arcs fe)) v
      \<and> flow_in network (map unat (flow_arcs fd)) v = flow_out network (map unat (flow_arcs fd)) v"
proof -
  from solvers_max_flow[OF assms(1)] obtain fe fd where
    S: "edmonds_karp network = Some fe \<and> dinitz_cherkassky network = Some fd
       \<and> max_flow_result network fe \<and> max_flow_result network fd" by (elim exE)
  have cons: "flow_in network (map unat (flow_arcs f)) v = flow_out network (map unat (flow_arcs f)) v"
    if m: "max_flow_result network f" for f
  proof -
    have fl: "is_flow network (map unat (flow_arcs f))"
      using m unfolding max_flow_result_def by blast
    show ?thesis by (rule is_flowD(3)[OF fl assms(2,3,4)])
  qed
  show ?thesis
    using S[THEN conjunct1] S[THEN conjunct2, THEN conjunct1]
      cons[OF S[THEN conjunct2, THEN conjunct2, THEN conjunct1]]
      cons[OF S[THEN conjunct2, THEN conjunct2, THEN conjunct2]]
    by (intro exI conjI)
qed

theorem solvers_conservation_witness:
  "valid_network minimal_example \<and> 4 < fn_n minimal_example
   \<and> (\<exists>fe fd. edmonds_karp minimal_example = Some fe
        \<and> dinitz_cherkassky minimal_example = Some fd
        \<and> flow_in minimal_example (map unat (flow_arcs fe)) 4
            = flow_out minimal_example (map unat (flow_arcs fe)) 4
        \<and> flow_in minimal_example (map unat (flow_arcs fd)) 4
            = flow_out minimal_example (map unat (flow_arcs fd)) 4)"
proof -
  have a: "4 < fn_n minimal_example" "4 \<noteq> fn_source minimal_example"
    "4 \<noteq> fn_sink minimal_example"
    by (simp_all add: minimal_example_def)
  show ?thesis
    using valid_minimal_example a(1) solvers_conservation[OF valid_minimal_example a]
    by (intro conjI)
qed

lemma overflow_example_ek: "edmonds_karp overflow_example = Some overflow_result"
  by code_simp

lemma overflow_example_dc: "dinitz_cherkassky overflow_example = Some overflow_result"
  by code_simp

lemma overflow_zero_example_ek: "edmonds_karp overflow_zero_example = Some overflow_zero_result"
  by code_simp

lemma overflow_zero_example_dc: "dinitz_cherkassky overflow_zero_example = Some overflow_zero_result"
  by code_simp

lemma upt_3: "[0..<3] = [0, 1, 2]"
  by (simp add: upt_rec)

lemma overflow_example_flow:
  "is_flow overflow_example (map unat (flow_arcs overflow_result))"
  "flow_val overflow_example (map unat (flow_arcs overflow_result)) = 8589934590"
  "uint (flow_value overflow_result) = 4294967294"
  by (simp_all add: is_flow_def flow_val_def flow_in_def flow_out_def overflow_example_def
      overflow_result_def upt_3)

lemma overflow_zero_example_flow:
  "is_flow overflow_zero_example (map unat (flow_arcs overflow_zero_result))"
  "flow_val overflow_zero_example (map unat (flow_arcs overflow_zero_result)) = 4294967296"
  "uint (flow_value overflow_zero_result) = 0"
  by (simp_all add: is_flow_def flow_val_def flow_in_def flow_out_def overflow_zero_example_def
      overflow_zero_result_def upt_3)

lemma max_flow_result_consistent:
  assumes "max_flow_result network f"
  shows "value_consistent network f"
proof -
  let ?g = "map unat (flow_arcs f)"
  have a: "flow_value f = word_of_int (flow_val network ?g)"
    and b: "flow_val network ?g
          = int (flow_in network ?g (fn_sink network)) - int (flow_out network ?g (fn_sink network))"
    and c: "0 \<le> flow_val network ?g"
    using assms unfolding max_flow_result_def by blast+
  note u = uint_flow_value[OF a c]
  show ?thesis unfolding value_consistent_def Let_def using b c u by (intro conjI impI)
qed

text \<open>
  Claim C4, on a network whose flow does not fit 32 bits. On \<open>overflow_example\<close>
  \<^verbatim>\<open>edmonds_karp\<close> returns the value \<open>2^32 - 2\<close> with \<open>2^32 - 1\<close> units on each of the three arcs:
  the net flow out of the source, computed from \<open>flow_arcs\<close>, is \<open>2^33 - 2\<close>, not the value field.
\<close>

theorem value_consistency_overflow:
  "valid_network overflow_example
   \<and> edmonds_karp overflow_example = Some overflow_result
   \<and> uint (flow_value overflow_result)
       \<noteq> flow_val overflow_example (map unat (flow_arcs overflow_result))"
  using valid_overflow_example overflow_example_ek
  by (simp add: overflow_example_flow)

text \<open>
  Claim C4. On every valid network, for the \<^verbatim>\<open>Flow\<close> returned by either solver, the net flow
  leaving the source, computed from \<open>flow_arcs\<close>, equals the net flow entering the sink and is
  not negative; the value field is this number modulo \<open>2^32\<close>, hence this number whenever it is
  below \<open>2^32\<close>.
\<close>

theorem solvers_value_consistency:
  assumes "valid_network network"
  shows "\<exists>fe fd. edmonds_karp network = Some fe \<and> dinitz_cherkassky network = Some fd
      \<and> value_consistent network fe \<and> value_consistent network fd"
proof -
  from solvers_max_flow[OF assms(1)] obtain fe fd where
    S: "edmonds_karp network = Some fe \<and> dinitz_cherkassky network = Some fd
       \<and> max_flow_result network fe \<and> max_flow_result network fd" by (elim exE)
  show ?thesis
    using S[THEN conjunct1] S[THEN conjunct2, THEN conjunct1]
      max_flow_result_consistent[OF S[THEN conjunct2, THEN conjunct2, THEN conjunct1]]
      max_flow_result_consistent[OF S[THEN conjunct2, THEN conjunct2, THEN conjunct2]]
    by (intro exI conjI)
qed

theorem solvers_value_consistency_witness:
  "valid_network minimal_example
   \<and> (\<exists>fe fd. edmonds_karp minimal_example = Some fe
        \<and> dinitz_cherkassky minimal_example = Some fd
        \<and> uint (flow_value fe) = flow_val minimal_example (map unat (flow_arcs fe)) mod 2 ^ 32
        \<and> uint (flow_value fd) = flow_val minimal_example (map unat (flow_arcs fd)) mod 2 ^ 32
        \<and> flow_val minimal_example (map unat (flow_arcs fe))
            = int (flow_in minimal_example (map unat (flow_arcs fe)) 5)
              - int (flow_out minimal_example (map unat (flow_arcs fe)) 5))"
proof -
  from solvers_value_consistency[OF valid_minimal_example] obtain fe fd where
    S: "edmonds_karp minimal_example = Some fe \<and> dinitz_cherkassky minimal_example = Some fd
      \<and> value_consistent minimal_example fe \<and> value_consistent minimal_example fd"
    by (elim exE)
  have t: "fn_sink minimal_example = 5" by (simp add: minimal_example_def)
  have ve: "value_consistent minimal_example fe" and vd: "value_consistent minimal_example fd"
    using S by blast+
  have "edmonds_karp minimal_example = Some fe
        \<and> dinitz_cherkassky minimal_example = Some fd
        \<and> uint (flow_value fe) = flow_val minimal_example (map unat (flow_arcs fe)) mod 2 ^ 32
        \<and> uint (flow_value fd) = flow_val minimal_example (map unat (flow_arcs fd)) mod 2 ^ 32
        \<and> flow_val minimal_example (map unat (flow_arcs fe))
            = int (flow_in minimal_example (map unat (flow_arcs fe)) 5)
              - int (flow_out minimal_example (map unat (flow_arcs fe)) 5)"
    using S[THEN conjunct1] S[THEN conjunct2, THEN conjunct1]
      ve[unfolded value_consistent_def Let_def t] vd[unfolded value_consistent_def Let_def t]
    by (intro conjI) blast+
  then have "\<exists>fe fd. edmonds_karp minimal_example = Some fe
        \<and> dinitz_cherkassky minimal_example = Some fd
        \<and> uint (flow_value fe) = flow_val minimal_example (map unat (flow_arcs fe)) mod 2 ^ 32
        \<and> uint (flow_value fd) = flow_val minimal_example (map unat (flow_arcs fd)) mod 2 ^ 32
        \<and> flow_val minimal_example (map unat (flow_arcs fe))
            = int (flow_in minimal_example (map unat (flow_arcs fe)) 5)
              - int (flow_out minimal_example (map unat (flow_arcs fe)) 5)"
    by (intro exI)
  then show ?thesis using valid_minimal_example by (intro conjI)
qed

text \<open>
  Claim C1, on a network whose flow does not fit 32 bits. On \<open>overflow_example\<close> both solvers
  return the value \<open>2^32 - 2\<close>, and the flow they return on the arcs is a flow of the network
  of value \<open>2^33 - 2\<close>: the common value is not the value of a maximum flow.
\<close>

theorem agreed_value_not_maximum:
  "valid_network overflow_example
   \<and> edmonds_karp overflow_example = Some overflow_result
   \<and> dinitz_cherkassky overflow_example = Some overflow_result
   \<and> is_flow overflow_example (map unat (flow_arcs overflow_result))
   \<and> uint (flow_value overflow_result)
       < flow_val overflow_example (map unat (flow_arcs overflow_result))"
  using valid_overflow_example overflow_example_ek overflow_example_dc overflow_example_flow(1)
  by (simp add: overflow_example_flow(2,3))

text \<open>
  Claim C1. On every valid network the value returned by \<^verbatim>\<open>edmonds_karp\<close> and the value
  returned by \<^verbatim>\<open>DinitzCherkassky\<close> are equal. The network has a maximum flow value \<open>k\<close>, and
  both returned values are \<open>k\<close> modulo \<open>2^32\<close>, hence \<open>k\<close> itself whenever \<open>k\<close> is below \<open>2^32\<close>.
\<close>

theorem solvers_agree:
  assumes "valid_network network"
  shows "\<exists>fe fd k. edmonds_karp network = Some fe \<and> dinitz_cherkassky network = Some fd
      \<and> flow_value fe = flow_value fd
      \<and> max_flow_value network k
      \<and> uint (flow_value fe) = k mod 2 ^ 32 \<and> uint (flow_value fd) = k mod 2 ^ 32
      \<and> (k < 2 ^ 32 \<longrightarrow> uint (flow_value fe) = k \<and> uint (flow_value fd) = k)"
proof -
  from solvers_max_flow[OF assms(1)] obtain fe fd where
    S: "edmonds_karp network = Some fe \<and> dinitz_cherkassky network = Some fd
       \<and> max_flow_result network fe \<and> max_flow_result network fd" by (elim exE)
  note me = S[THEN conjunct2, THEN conjunct2, THEN conjunct1]
  note md = S[THEN conjunct2, THEN conjunct2, THEN conjunct2]
  define k where "k = flow_val network (map unat (flow_arcs fe))"
  define k' where "k' = flow_val network (map unat (flow_arcs fd))"
  note ve = max_flow_result_value[OF me, folded k_def]
  note vd = max_flow_result_value[OF md, folded k'_def]
  have kk: "k' = k" by (rule max_flow_value_unique[OF vd(1) ve(1)])
  have k0: "0 \<le> k" using me unfolding max_flow_result_def k_def by blast
  have eq: "flow_value fe = flow_value fd" using ve(2) vd(2) kk by simp
  note ue = uint_flow_value[OF ve(2) k0]
  note ud = uint_flow_value[OF vd(2)[unfolded kk] k0]
  have imp: "k < 2 ^ 32 \<longrightarrow> uint (flow_value fe) = k \<and> uint (flow_value fd) = k"
    using ue(2) ud(2) by blast
  show ?thesis
    using S[THEN conjunct1] S[THEN conjunct2, THEN conjunct1] eq ve(1) ue(1) ud(1) imp
    by (intro exI conjI)
qed

theorem solvers_agree_witness:
  "valid_network minimal_example
   \<and> (\<exists>fe fd. edmonds_karp minimal_example = Some fe
        \<and> dinitz_cherkassky minimal_example = Some fd
        \<and> flow_value fe = flow_value fd)"
proof -
  from solvers_agree[OF valid_minimal_example] obtain fe fd k where
    S: "edmonds_karp minimal_example = Some fe \<and> dinitz_cherkassky minimal_example = Some fd
      \<and> flow_value fe = flow_value fd
      \<and> max_flow_value minimal_example k
      \<and> uint (flow_value fe) = k mod 2 ^ 32 \<and> uint (flow_value fd) = k mod 2 ^ 32
      \<and> (k < 2 ^ 32 \<longrightarrow> uint (flow_value fe) = k \<and> uint (flow_value fd) = k)"
    by (elim exE)
  show ?thesis
    using valid_minimal_example S[THEN conjunct1] S[THEN conjunct2, THEN conjunct1]
      S[THEN conjunct2, THEN conjunct2, THEN conjunct1]
    by (intro exI conjI)
qed

text \<open>
  Claim C5, on a network whose flow does not fit 32 bits. On \<open>overflow_zero_example\<close>
  \<^verbatim>\<open>DinitzCherkassky\<close> returns the value 0, and the flow it returns on the arcs is a flow of the
  network of value \<open>2^32\<close>: the value returned is not the maximum flow.
\<close>

theorem returned_value_zero_not_maximum:
  "valid_network overflow_zero_example
   \<and> dinitz_cherkassky overflow_zero_example = Some overflow_zero_result
   \<and> flow_value overflow_zero_result = 0
   \<and> is_flow overflow_zero_example (map unat (flow_arcs overflow_zero_result))
   \<and> flow_val overflow_zero_example (map unat (flow_arcs overflow_zero_result)) = 4294967296"
  using valid_overflow_zero_example overflow_zero_example_dc overflow_zero_example_flow(1,2)
  by (simp add: overflow_zero_result_def)

text \<open>
  Claim C5. On every valid network both solvers return, and in the residual network each of
  them leaves there is no path from the source to the sink along records of positive residual
  capacity. The flow on the arcs read from that residual network is a flow of the network
  (within the capacities, conserved at every vertex other than source and sink) and a maximum
  one: no flow of the network has a larger value. The value returned is the value of this flow modulo \<open>2^32\<close>,
  hence the maximum flow value whenever that is below \<open>2^32\<close>.
\<close>

theorem solvers_final_residual:
  assumes "valid_network network"
  shows "\<exists>se mf sd k. edmonds_karp_run network = Some se
      \<and> dinitz_cherkassky_run network = Some (mf, sd)
      \<and> (\<forall>ps. \<not> res_path (adjlist (ek_rnetwork se)) (fn_source network) ps (fn_sink network))
      \<and> (\<forall>ps. \<not> res_path (adjlist (dc_rnetwork sd)) (fn_source network) ps (fn_sink network))
      \<and> is_flow network (map unat (get_flow_arcs network (ek_rnetwork se)))
      \<and> is_flow network (map unat (get_flow_arcs network (dc_rnetwork sd)))
      \<and> max_flow_value network k
      \<and> flow_val network (map unat (get_flow_arcs network (ek_rnetwork se))) = k
      \<and> flow_val network (map unat (get_flow_arcs network (dc_rnetwork sd))) = k
      \<and> uint (ek_maxflow se) = k mod 2 ^ 32 \<and> uint mf = k mod 2 ^ 32
      \<and> (k < 2 ^ 32 \<longrightarrow> uint (ek_maxflow se) = k \<and> uint mf = k)"
proof -
  from solver_runs[OF assms] obtain se mf sd where
    R: "edmonds_karp_run network = Some se
       \<and> dinitz_cherkassky_run network = Some (mf, sd)
       \<and> run_ok network (ek_rnetwork se) (ek_pushes se) (ek_maxflow se)
       \<and> run_ok network (dc_rnetwork sd) (dc_pushes sd) mf" by (elim exE)
  note re = R[THEN conjunct2, THEN conjunct2, THEN conjunct1]
  note rd = R[THEN conjunct2, THEN conjunct2, THEN conjunct2]
  have pe: "\<forall>ps. \<not> res_path (adjlist (ek_rnetwork se)) (fn_source network) ps (fn_sink network)"
    using run_ok_no_path[OF assms re] by blast
  have pd: "\<forall>ps. \<not> res_path (adjlist (dc_rnetwork sd)) (fn_source network) ps (fn_sink network)"
    using run_ok_no_path[OF assms rd] by blast
  note me = run_ok_flow[OF assms re]
  note md = run_ok_flow[OF assms rd]
  have fe: "is_flow network (map unat (get_flow_arcs network (ek_rnetwork se)))"
    using me unfolding max_flow_result_def by simp
  have fd: "is_flow network (map unat (get_flow_arcs network (dc_rnetwork sd)))"
    using md unfolding max_flow_result_def by simp
  define k where "k = flow_val network (map unat (get_flow_arcs network (ek_rnetwork se)))"
  define k' where "k' = flow_val network (map unat (get_flow_arcs network (dc_rnetwork sd)))"
  have ve: "max_flow_value network k" "ek_maxflow se = word_of_int k"
    using max_flow_result_value[OF me] by (simp_all add: k_def)
  have vd: "max_flow_value network k'" "mf = word_of_int k'"
    using max_flow_result_value[OF md] by (simp_all add: k'_def)
  have kk: "k' = k" by (rule max_flow_value_unique[OF vd(1) ve(1)])
  have k0: "0 \<le> k" using me unfolding max_flow_result_def k_def by simp
  note ue = uint_flow_value[OF ve(2) k0]
  note ud = uint_flow_value[OF vd(2)[unfolded kk] k0]
  have imp: "k < 2 ^ 32 \<longrightarrow> uint (ek_maxflow se) = k \<and> uint mf = k"
    using ue(2) ud(2) by blast
  show ?thesis
    using R[THEN conjunct1] R[THEN conjunct2, THEN conjunct1] pe pd fe fd ve(1)
      k_def[symmetric] k'_def[symmetric, unfolded kk] ue(1) ud(1) imp
    by (intro exI conjI)
qed

theorem solvers_final_residual_witness:
  "valid_network minimal_example
   \<and> (\<exists>se mf sd. edmonds_karp_run minimal_example = Some se
        \<and> dinitz_cherkassky_run minimal_example = Some (mf, sd)
        \<and> \<not> res_path (adjlist (ek_rnetwork se)) 0 [0, 4, 10] 5
        \<and> \<not> res_path (adjlist (dc_rnetwork sd)) 0 [0, 4, 10] 5
        \<and> is_flow minimal_example (map unat (get_flow_arcs minimal_example (ek_rnetwork se)))
        \<and> is_flow minimal_example (map unat (get_flow_arcs minimal_example (dc_rnetwork sd)))
        \<and> flow_val minimal_example (map unat (get_flow_arcs minimal_example (ek_rnetwork se)))
          = flow_val minimal_example (map unat (get_flow_arcs minimal_example (dc_rnetwork sd))))"
proof -
  from solvers_final_residual[OF valid_minimal_example] obtain se mf sd k where
    S: "edmonds_karp_run minimal_example = Some se
      \<and> dinitz_cherkassky_run minimal_example = Some (mf, sd)
      \<and> (\<forall>ps. \<not> res_path (adjlist (ek_rnetwork se)) (fn_source minimal_example) ps
                  (fn_sink minimal_example))
      \<and> (\<forall>ps. \<not> res_path (adjlist (dc_rnetwork sd)) (fn_source minimal_example) ps
                  (fn_sink minimal_example))
      \<and> is_flow minimal_example (map unat (get_flow_arcs minimal_example (ek_rnetwork se)))
      \<and> is_flow minimal_example (map unat (get_flow_arcs minimal_example (dc_rnetwork sd)))
      \<and> max_flow_value minimal_example k
      \<and> flow_val minimal_example (map unat (get_flow_arcs minimal_example (ek_rnetwork se))) = k
      \<and> flow_val minimal_example (map unat (get_flow_arcs minimal_example (dc_rnetwork sd))) = k
      \<and> uint (ek_maxflow se) = k mod 2 ^ 32 \<and> uint mf = k mod 2 ^ 32
      \<and> (k < 2 ^ 32 \<longrightarrow> uint (ek_maxflow se) = k \<and> uint mf = k)"
    by (elim exE)
  have st: "fn_source minimal_example = 0" "fn_sink minimal_example = 5"
    by (simp_all add: minimal_example_def)
  note S' = S[unfolded st]
  have pe: "\<not> res_path (adjlist (ek_rnetwork se)) 0 [0, 4, 10] 5"
    using S' by blast
  have pd: "\<not> res_path (adjlist (dc_rnetwork sd)) 0 [0, 4, 10] 5"
    using S' by blast
  note fe = S[THEN conjunct2, THEN conjunct2, THEN conjunct2, THEN conjunct2, THEN conjunct1]
  note fd = S[THEN conjunct2, THEN conjunct2, THEN conjunct2, THEN conjunct2, THEN conjunct2,
      THEN conjunct1]
  have eq: "flow_val minimal_example (map unat (get_flow_arcs minimal_example (ek_rnetwork se)))
          = flow_val minimal_example (map unat (get_flow_arcs minimal_example (dc_rnetwork sd)))"
    using S' by simp
  show ?thesis
    using valid_minimal_example S[THEN conjunct1] S[THEN conjunct2, THEN conjunct1] pe pd fe fd eq
    by (intro exI conjI)
qed

lemma overflow_example_ek_pushes:
  "map_option ek_pushes (edmonds_karp_run overflow_example)
   = Some [(0, 0xFFFFFFFF), (3, 0xFFFFFFFF), (1, 0xFFFFFFFF)]"
  by code_simp

text \<open>
  Claim C9. On every valid network, for the pair of records made from arc \<open>i\<close> of capacity
  \<open>c\<close>, the residual capacities of the forward and of the backward record add up to \<open>c\<close>
  (as natural numbers, without wrap-around) right after construction and after every
  \<^verbatim>\<open>push_flow\<close> of either solver: the arena a solver leaves is the constructed arena after the
  logged calls, and the sum is \<open>c\<close> after every prefix of the log.
\<close>

theorem pair_sum_invariant:
  assumes "valid_network network" and "i < fn_m network"
  shows "\<exists>se mf sd. edmonds_karp_run network = Some se
      \<and> dinitz_cherkassky_run network = Some (mf, sd)
      \<and> adjlist (ek_rnetwork se)
          = apply_pushes (ek_pushes se) (adjlist (mk_ResidualNetwork network))
      \<and> adjlist (dc_rnetwork sd)
          = apply_pushes (dc_pushes sd) (adjlist (mk_ResidualNetwork network))
      \<and> (\<forall>j. pair_sum network
                 (apply_pushes (take j (ek_pushes se)) (adjlist (mk_ResidualNetwork network))) i
               = unat (capacity (fn_arcs network ! i)))
      \<and> (\<forall>j. pair_sum network
                 (apply_pushes (take j (dc_pushes sd)) (adjlist (mk_ResidualNetwork network))) i
               = unat (capacity (fn_arcs network ! i)))"
proof -
  from solver_runs[OF assms(1)] obtain se mf sd where
    R: "edmonds_karp_run network = Some se
       \<and> dinitz_cherkassky_run network = Some (mf, sd)
       \<and> run_ok network (ek_rnetwork se) (ek_pushes se) (ek_maxflow se)
       \<and> run_ok network (dc_rnetwork sd) (dc_pushes sd) mf" by (elim exE)
  note re = R[THEN conjunct2, THEN conjunct2, THEN conjunct1]
  note rd = R[THEN conjunct2, THEN conjunct2, THEN conjunct2]
  have pe: "\<forall>j. pair_sum network
                 (apply_pushes (take j (ek_pushes se)) (adjlist (mk_ResidualNetwork network))) i
               = unat (capacity (fn_arcs network ! i))"
    using run_ok_pair_sum[OF assms(1) re assms(2)] by blast
  have pd: "\<forall>j. pair_sum network
                 (apply_pushes (take j (dc_pushes sd)) (adjlist (mk_ResidualNetwork network))) i
               = unat (capacity (fn_arcs network ! i))"
    using run_ok_pair_sum[OF assms(1) rd assms(2)] by blast
  show ?thesis
    using R[THEN conjunct1] R[THEN conjunct2, THEN conjunct1]
      run_ok_log(2)[OF re] run_ok_log(2)[OF rd] pe pd
    by (intro exI conjI)
qed

theorem pair_sum_invariant_witness:
  "valid_network minimal_example \<and> 4 < fn_m minimal_example
   \<and> pair_sum minimal_example (adjlist (mk_ResidualNetwork minimal_example)) 4 = 8
   \<and> (\<exists>se mf sd. edmonds_karp_run minimal_example = Some se
        \<and> dinitz_cherkassky_run minimal_example = Some (mf, sd)
        \<and> pair_sum minimal_example (adjlist (ek_rnetwork se)) 4 = 8
        \<and> pair_sum minimal_example (adjlist (dc_rnetwork sd)) 4 = 8)"
proof -
  let ?ini = "adjlist (mk_ResidualNetwork minimal_example)"
  have i: "4 < fn_m minimal_example" and c: "unat (capacity (fn_arcs minimal_example ! 4)) = 8"
    by (simp_all add: minimal_example_def)
  from pair_sum_invariant[OF valid_minimal_example i, unfolded c] obtain se mf sd where
    S: "edmonds_karp_run minimal_example = Some se
      \<and> dinitz_cherkassky_run minimal_example = Some (mf, sd)
      \<and> adjlist (ek_rnetwork se) = apply_pushes (ek_pushes se) ?ini
      \<and> adjlist (dc_rnetwork sd) = apply_pushes (dc_pushes sd) ?ini
      \<and> (\<forall>j. pair_sum minimal_example (apply_pushes (take j (ek_pushes se)) ?ini) 4 = 8)
      \<and> (\<forall>j. pair_sum minimal_example (apply_pushes (take j (dc_pushes sd)) ?ini) 4 = 8)"
    by (elim exE)
  have ae: "adjlist (ek_rnetwork se) = apply_pushes (ek_pushes se) ?ini"
    and ad: "adjlist (dc_rnetwork sd) = apply_pushes (dc_pushes sd) ?ini"
    and pe: "\<And>j. pair_sum minimal_example (apply_pushes (take j (ek_pushes se)) ?ini) 4 = 8"
    and pd: "\<And>j. pair_sum minimal_example (apply_pushes (take j (dc_pushes sd)) ?ini) 4 = 8"
    using S by blast+
  have p0: "pair_sum minimal_example ?ini 4 = 8" using pe[of 0] by simp
  have fe: "pair_sum minimal_example (adjlist (ek_rnetwork se)) 4 = 8"
    unfolding ae using pe[of "length (ek_pushes se)"] by simp
  have fd: "pair_sum minimal_example (adjlist (dc_rnetwork sd)) 4 = 8"
    unfolding ad using pd[of "length (dc_pushes sd)"] by simp
  have "\<exists>se mf sd. edmonds_karp_run minimal_example = Some se
        \<and> dinitz_cherkassky_run minimal_example = Some (mf, sd)
        \<and> pair_sum minimal_example (adjlist (ek_rnetwork se)) 4 = 8
        \<and> pair_sum minimal_example (adjlist (dc_rnetwork sd)) 4 = 8"
    using S[THEN conjunct1] S[THEN conjunct2, THEN conjunct1] fe fd by (intro exI conjI)
  then show ?thesis using valid_minimal_example i p0 by (intro conjI)
qed

text \<open>
  Claim C10. On every valid network, every \<^verbatim>\<open>push_flow(f)\<close> call of either solver is on a record
  of the arena with \<open>0 < f\<close> and \<open>f\<close> at most the residual capacity the record has at that
  moment, so the subtraction does not wrap; and after every prefix of the calls each record
  holds its initial residual capacity, plus what was pushed on its twin, minus what was pushed
  on it, as natural numbers: it stays between 0 and its initial capacity plus the reverse
  pushes.
\<close>

theorem push_flow_amounts:
  assumes "valid_network network"
  shows "\<exists>se mf sd. edmonds_karp_run network = Some se
      \<and> dinitz_cherkassky_run network = Some (mf, sd)
      \<and> adjlist (ek_rnetwork se)
          = apply_pushes (ek_pushes se) (adjlist (mk_ResidualNetwork network))
      \<and> adjlist (dc_rnetwork sd)
          = apply_pushes (dc_pushes sd) (adjlist (mk_ResidualNetwork network))
      \<and> pushes_safe network (ek_pushes se) \<and> pushes_safe network (dc_pushes sd)"
proof -
  from solver_runs[OF assms(1)] obtain se mf sd where
    R: "edmonds_karp_run network = Some se
       \<and> dinitz_cherkassky_run network = Some (mf, sd)
       \<and> run_ok network (ek_rnetwork se) (ek_pushes se) (ek_maxflow se)
       \<and> run_ok network (dc_rnetwork sd) (dc_pushes sd) mf" by (elim exE)
  note re = R[THEN conjunct2, THEN conjunct2, THEN conjunct1]
  note rd = R[THEN conjunct2, THEN conjunct2, THEN conjunct2]
  show ?thesis
    using R[THEN conjunct1] R[THEN conjunct2, THEN conjunct1]
      run_ok_log(2)[OF re] run_ok_log(2)[OF rd]
      run_ok_safe[OF assms re] run_ok_safe[OF assms rd]
    by (intro exI conjI)
qed

theorem push_flow_amounts_witness:
  "valid_network overflow_example
   \<and> (\<exists>se. edmonds_karp_run overflow_example = Some se
        \<and> ek_pushes se = [(0, 0xFFFFFFFF), (3, 0xFFFFFFFF), (1, 0xFFFFFFFF)]
        \<and> (0 :: flow_t) < 0xFFFFFFFF
        \<and> (0xFFFFFFFF :: flow_t)
            \<le> residual_capacity (apply_pushes [(0, 0xFFFFFFFF)]
                  (adjlist (mk_ResidualNetwork overflow_example)) ! 3))"
proof -
  let ?ini = "adjlist (mk_ResidualNetwork overflow_example)"
  from push_flow_amounts[OF valid_overflow_example] obtain se mf sd where
    S: "edmonds_karp_run overflow_example = Some se
      \<and> dinitz_cherkassky_run overflow_example = Some (mf, sd)
      \<and> adjlist (ek_rnetwork se) = apply_pushes (ek_pushes se) ?ini
      \<and> adjlist (dc_rnetwork sd) = apply_pushes (dc_pushes sd) ?ini
      \<and> pushes_safe overflow_example (ek_pushes se)
      \<and> pushes_safe overflow_example (dc_pushes sd)"
    by (elim exE)
  have r: "edmonds_karp_run overflow_example = Some se"
    and s: "pushes_safe overflow_example (ek_pushes se)"
    using S by blast+
  have l: "ek_pushes se = [(0, 0xFFFFFFFF), (3, 0xFFFFFFFF), (1, 0xFFFFFFFF)]"
    using overflow_example_ek_pushes unfolding r by simp
  have "\<forall>j<length (ek_pushes se).
            fst (ek_pushes se ! j) < length ?ini
            \<and> 0 < snd (ek_pushes se ! j)
            \<and> snd (ek_pushes se ! j)
                \<le> residual_capacity (apply_pushes (take j (ek_pushes se)) ?ini ! fst (ek_pushes se ! j))"
    using s unfolding pushes_safe_def Let_def by (rule conjunct1)
  from this[unfolded l, rule_format, of 1]
  have a: "(0 :: flow_t) < 0xFFFFFFFF"
    and b: "(0xFFFFFFFF :: flow_t) \<le> residual_capacity (apply_pushes [(0, 0xFFFFFFFF)] ?ini ! 3)"
    by simp_all
  have "\<exists>se. edmonds_karp_run overflow_example = Some se
        \<and> ek_pushes se = [(0, 0xFFFFFFFF), (3, 0xFFFFFFFF), (1, 0xFFFFFFFF)]
        \<and> (0 :: flow_t) < 0xFFFFFFFF
        \<and> (0xFFFFFFFF :: flow_t) \<le> residual_capacity (apply_pushes [(0, 0xFFFFFFFF)] ?ini ! 3)"
    using r l a b by (intro exI conjI)
  then show ?thesis using valid_overflow_example by (intro conjI)
qed

end
